(* ===== verification/Prelude.thy ===== *)
theory Prelude
  imports Complex_Main "HOL-Library.Word"
begin

text \<open>
  Shared vocabulary of the development: the widths of the C++ integer types, the rounding
  function the order book uses, the bit-scan functions of \<^verbatim>\<open><bit>\<close>, searches in
  strings, and the generic lemmas on lists and words that several components use.

  C++ \<^verbatim>\<open>double\<close> is modelled by \<^typ>\<open>real\<close>: rounding errors, infinities and NaN are
  outside the model. \<^verbatim>\<open>size_t\<close> is \<^typ>\<open>nat\<close> where the code only counts up to the size
  of a container, and is reduced modulo \<open>2 ^ 64\<close> (or is a \<open>64 word\<close>) where the code
  relies on, or can run into, wrap-around.
\<close>

unbundle bit_operations_syntax

named_theorems step_simps \<open>characteristic equations of the modelled operations\<close>
named_theorems frame_simps \<open>what an operation leaves unchanged\<close>
named_theorems inv_intros \<open>an operation keeps the invariant of its component\<close>

type_synonym byte = "8 word"
type_synonym u64 = "64 word"

section \<open>Errors\<close>

text \<open>
  The exceptions the code throws, with their messages, and the accesses that are
  undefined behaviour in C++ (an index past the end of a \<^verbatim>\<open>std::vector\<close>, a null
  pointer), which the model reports as errors of their own.
\<close>

datatype cpp_error =
    Invalid_argument string
  | Length_error string
  | Runtime_error string
  | Out_of_range string
  | UB_out_of_bounds
  | UB_null_pointer
  | Aborted string

text \<open>A chain of calls that stops at the first exception.\<close>

fun sum_bind :: "'e + 'a \<Rightarrow> ('a \<Rightarrow> 'e + 'b) \<Rightarrow> 'e + 'b" where
  "sum_bind (Inl e) f = Inl e"
| "sum_bind (Inr x) f = f x"

lemma sum_bind_eq_Inr [simp]:
  "sum_bind r f = Inr y \<longleftrightarrow> (\<exists>x. r = Inr x \<and> f x = Inr y)"
  by (cases r) auto

lemma sum_bind_eq_Inl:
  "sum_bind r f = Inl e \<longleftrightarrow> r = Inl e \<or> (\<exists>x. r = Inr x \<and> f x = Inl e)"
  by (cases r) auto

lemma sum_bind_assoc: "sum_bind (sum_bind r f) g = sum_bind r (\<lambda>x. sum_bind (f x) g)"
  by (cases r) auto

text \<open>A loop over a list whose body may throw.\<close>

fun sum_fold :: "('s \<Rightarrow> 'a \<Rightarrow> 'e + 's) \<Rightarrow> 's \<Rightarrow> 'a list \<Rightarrow> 'e + 's" where
  "sum_fold f s [] = Inr s"
| "sum_fold f s (x # xs) = sum_bind (f s x) (\<lambda>s'. sum_fold f s' xs)"

lemma sum_fold_append:
  "sum_fold f s (xs @ ys) = sum_bind (sum_fold f s xs) (\<lambda>s'. sum_fold f s' ys)"
  by (induction xs arbitrary: s) (auto simp: sum_bind_assoc)

section \<open>Sizes and rounding\<close>

definition SIZE_MOD :: nat where
  "SIZE_MOD = 2 ^ 64"

text \<open>
  \<^verbatim>\<open>std::llround\<close>: to the nearest integer, halves away from zero. A result outside
  \<^verbatim>\<open>int64_t\<close> is unspecified in C++; the value here is the one x86-64 gives.
\<close>

definition llround :: "real \<Rightarrow> int" where
  "llround x =
     (let r = (if 0 \<le> x then \<lfloor>x + 1 / 2\<rfloor> else \<lceil>x - 1 / 2\<rceil>)
      in if - (2 ^ 63) \<le> r \<and> r < 2 ^ 63 then r else - (2 ^ 63))"

lemma llround_of_int [simp]:
  assumes "- (2 ^ 63) \<le> k" and "k < 2 ^ 63"
  shows "llround (of_int k) = k"
proof -
  have "\<lfloor>of_int k + 1 / 2 :: real\<rfloor> = k" by linarith
  moreover have "\<lceil>of_int k - 1 / 2 :: real\<rceil> = k" by linarith
  ultimately show ?thesis using assms by (simp add: llround_def Let_def)
qed

lemma llround_bounds: "- (2 ^ 63) \<le> llround x \<and> llround x < 2 ^ 63"
  by (simp add: llround_def Let_def)

section \<open>Bit scans\<close>

definition countl_zero :: "u64 \<Rightarrow> nat" where
  "countl_zero w = (case find (\<lambda>k. bit w (63 - k)) [0..<64] of Some k \<Rightarrow> k | None \<Rightarrow> 64)"

definition countr_zero :: "u64 \<Rightarrow> nat" where
  "countr_zero w = (case find (\<lambda>k. bit w k) [0..<64] of Some k \<Rightarrow> k | None \<Rightarrow> 64)"

lemma find_upt_SomeD:
  "find P [0..<n] = Some k \<Longrightarrow> k < n \<and> P k \<and> (\<forall>j<k. \<not> P j)"
  by (fastforce simp: find_Some_iff)

lemma u64_nonzero_bit:
  assumes "(w :: u64) \<noteq> 0"
  shows "\<exists>n<64. bit w n"
proof (rule ccontr)
  assume none: "\<not> (\<exists>n<64. bit w n)"
  have "w = 0" by (rule bit_word_eqI) (use none in \<open>auto\<close>)
  with assms show False by simp
qed

lemma countr_zero_spec:
  assumes "w \<noteq> 0"
  shows "countr_zero w < 64" and "bit w (countr_zero w)"
    and "j < countr_zero w \<Longrightarrow> \<not> bit w j"
proof -
  obtain k where k: "find (\<lambda>k. bit w k) [0..<64] = Some k"
    using u64_nonzero_bit [OF assms] by (fastforce simp: find_None_iff)
  from find_upt_SomeD [OF k] k
  show "countr_zero w < 64" and "bit w (countr_zero w)"
    and "j < countr_zero w \<Longrightarrow> \<not> bit w j"
    by (auto simp: countr_zero_def)
qed

lemma countl_zero_spec:
  assumes "w \<noteq> 0"
  shows "countl_zero w < 64" and "bit w (63 - countl_zero w)"
    and "63 - countl_zero w < j \<Longrightarrow> \<not> bit w j"
proof -
  obtain n where n: "n < 64" "bit w n" using u64_nonzero_bit [OF assms] by blast
  then have "bit w (63 - (63 - n))" by simp
  moreover have "63 - n \<in> set [0..<64]" using n(1) by simp
  ultimately have "find (\<lambda>k. bit w (63 - k)) [0..<64] \<noteq> None"
    by (metis find_None_iff)
  then obtain k where k: "find (\<lambda>k. bit w (63 - k)) [0..<64] = Some k" by blast
  from find_upt_SomeD [OF k] k show "countl_zero w < 64" and "bit w (63 - countl_zero w)"
    by (auto simp: countl_zero_def)
  assume j: "63 - countl_zero w < j"
  show "\<not> bit w j"
  proof (cases "j < 64")
    case True
    with j have "63 - j < countl_zero w" and "63 - (63 - j) = j" by auto
    with find_upt_SomeD [OF k] k show ?thesis by (auto simp: countl_zero_def)
  next
    case False
    then show ?thesis using bit_imp_le_length [of w j] by auto
  qed
qed

section \<open>Runs of a step relation\<close>

lemma run_of_three: "R a b \<Longrightarrow> R b c \<Longrightarrow> R c d \<Longrightarrow> R\<^sup>*\<^sup>* a d"
  by (rule converse_rtranclp_into_rtranclp, assumption, rule converse_rtranclp_into_rtranclp, assumption, rule r_into_rtranclp)

end
