(* ===== verification/Order_Book_Side.thy ===== *)
theory Order_Book_Side
  imports Prelude
begin

text \<open>
  One side of an order book (\<^verbatim>\<open>server_app/order_book/order_book_side.h\<close>): an array of
  quantities, one per price tick around a base price, a bitmap with one bit per level that
  marks the non-empty levels, and the index of the best non-empty level.

  The invariant \<open>side_inv\<close> says that the bitmap and the cached top index agree with the
  array. Every operation keeps it, so the cached top is always the true best level. The
  locale \<open>ladder\<close> states the contract the order book relies on; both sides of a book are
  interpretations of it.
\<close>

section \<open>The data model\<close>

datatype OrderBookSideType = Bid | Ask

record OrderBookSide =
  m_side :: OrderBookSideType
  m_base_price :: real
  m_tick_size :: real
  m_inv_tick_size :: real
  m_center_index :: nat
  m_levels :: "real list"
  m_non_empty_words :: "u64 list"
  m_top_index :: nat

definition WORD_BITS :: nat where
  "WORD_BITS = 64"

definition INVALID_INDEX :: nat where
  "INVALID_INDEX = 2 ^ 64 - 1"

text \<open>
  \<^verbatim>\<open>std::vector<double>(depth, 0.0)\<close> throws when \<^verbatim>\<open>depth\<close> exceeds the vector's
  \<^verbatim>\<open>max_size()\<close>, which is \<^verbatim>\<open>PTRDIFF_MAX / sizeof(double)\<close>.
\<close>

definition MAX_LEVELS :: nat where
  "MAX_LEVELS = (2 ^ 63 - 1) div 8"

text \<open>The reading of a \<^verbatim>\<open>size_t\<close> as \<^verbatim>\<open>int64_t\<close>.\<close>

definition to_i64 :: "nat \<Rightarrow> int" where
  "to_i64 n = (if n < 2 ^ 63 then int n else int n - 2 ^ 64)"

section \<open>Operations\<close>

definition new_side ::
  "OrderBookSideType \<Rightarrow> real \<Rightarrow> real \<Rightarrow> nat \<Rightarrow> cpp_error + OrderBookSide" where
  "new_side side base_price tick_size depth =
     (if MAX_LEVELS < depth
      then Inl (Length_error ''cannot create std::vector larger than max_size()'')
      else if tick_size \<le> 0 then Inl (Invalid_argument ''tick_size must be positive'')
      else if depth = 0 then Inl (Invalid_argument ''depth must be positive'')
      else Inr \<lparr> m_side = side, m_base_price = base_price, m_tick_size = tick_size,
        m_inv_tick_size = 1 / tick_size, m_center_index = depth div 2,
        m_levels = replicate depth 0,
        m_non_empty_words = replicate ((depth + WORD_BITS - 1) div WORD_BITS) 0,
        m_top_index = INVALID_INDEX \<rparr>)"

definition clear :: "OrderBookSide \<Rightarrow> OrderBookSide" where
  "clear s = s\<lparr> m_levels := replicate (length (m_levels s)) 0,
                m_non_empty_words := replicate (length (m_non_empty_words s)) 0,
                m_top_index := INVALID_INDEX \<rparr>"

definition price_to_index :: "OrderBookSide \<Rightarrow> real \<Rightarrow> nat" where
  "price_to_index s price =
     (let diff = price - m_base_price s;
          tick_offset = llround (diff * m_inv_tick_size s)
      in nat ((to_i64 (m_center_index s) + tick_offset) mod 2 ^ 64))"

definition index_to_price :: "OrderBookSide \<Rightarrow> nat \<Rightarrow> real" where
  "index_to_price s index =
     (let tick_offset = to_i64 index - to_i64 (m_center_index s)
      in m_base_price s + of_int tick_offset * m_tick_size s)"

definition valid_index :: "OrderBookSide \<Rightarrow> nat \<Rightarrow> bool" where
  "valid_index s index \<longleftrightarrow> index < length (m_levels s)"

definition valid_price :: "OrderBookSide \<Rightarrow> real \<Rightarrow> bool" where
  "valid_price s price \<longleftrightarrow> valid_index s (price_to_index s price)"

definition range_min_price :: "OrderBookSide \<Rightarrow> real" where
  "range_min_price s = index_to_price s 0"

definition range_max_price :: "OrderBookSide \<Rightarrow> real" where
  "range_max_price s = index_to_price s (length (m_levels s) - 1)"

definition near_boundary :: "OrderBookSide \<Rightarrow> real \<Rightarrow> real \<Rightarrow> bool" where
  "near_boundary s price delta \<longleftrightarrow>
     price \<le> range_min_price s + delta \<or> price \<ge> range_max_price s - delta"

definition in_rebase_trigger_zone :: "OrderBookSide \<Rightarrow> real \<Rightarrow> real \<Rightarrow> bool" where
  "in_rebase_trigger_zone s price delta \<longleftrightarrow> valid_price s price \<and> near_boundary s price delta"

definition is_better_top :: "OrderBookSide \<Rightarrow> nat \<Rightarrow> bool" where
  "is_better_top s index =
     (if m_top_index s = INVALID_INDEX then True
      else if m_side s = Bid then index > m_top_index s
      else index < m_top_index s)"

definition set_non_empty :: "OrderBookSide \<Rightarrow> nat \<Rightarrow> OrderBookSide" where
  "set_non_empty s index =
     (let word_index = index div WORD_BITS; bit_index = index mod WORD_BITS;
          ws = m_non_empty_words s
      in s\<lparr> m_non_empty_words := ws[word_index := ws ! word_index OR push_bit bit_index 1] \<rparr>)"

definition clear_non_empty :: "OrderBookSide \<Rightarrow> nat \<Rightarrow> OrderBookSide" where
  "clear_non_empty s index =
     (let word_index = index div WORD_BITS; bit_index = index mod WORD_BITS;
          ws = m_non_empty_words s
      in s\<lparr> m_non_empty_words :=
              ws[word_index := ws ! word_index AND NOT (push_bit bit_index 1)] \<rparr>)"

text \<open>The scan of the bitmap for a bid: from the last word down, the highest set bit.\<close>

fun bid_scan :: "u64 list \<Rightarrow> nat \<Rightarrow> nat \<Rightarrow> nat" where
  "bid_scan ws n_levels 0 = INVALID_INDEX"
| "bid_scan ws n_levels (Suc word_index) =
     (let word = ws ! word_index in
      if word = 0 then bid_scan ws n_levels word_index
      else let highest_bit = WORD_BITS - 1 - countl_zero word;
               index = word_index * WORD_BITS + highest_bit
           in if index < n_levels then index else bid_scan ws n_levels word_index)"

definition rebuild_bid_top_from_bitmap :: "OrderBookSide \<Rightarrow> OrderBookSide" where
  "rebuild_bid_top_from_bitmap s =
     s\<lparr> m_top_index := bid_scan (m_non_empty_words s) (length (m_levels s))
                        (length (m_non_empty_words s)) \<rparr>"

text \<open>The scan for an ask: from the first word up, the lowest set bit.\<close>

function ask_scan :: "u64 list \<Rightarrow> nat \<Rightarrow> nat \<Rightarrow> nat" where
  "ask_scan ws n_levels word_index =
     (if word_index < length ws
      then let word = ws ! word_index in
        if word = 0 then ask_scan ws n_levels (Suc word_index)
        else let lowest_bit = countr_zero word;
                 index = word_index * WORD_BITS + lowest_bit
             in if index < n_levels then index else ask_scan ws n_levels (Suc word_index)
      else INVALID_INDEX)"
  by pat_completeness auto
termination
  by (relation "measure (\<lambda>(ws, n, k). length ws - k)") auto

declare ask_scan.simps [simp del]

definition rebuild_ask_top_from_bitmap :: "OrderBookSide \<Rightarrow> OrderBookSide" where
  "rebuild_ask_top_from_bitmap s =
     s\<lparr> m_top_index := ask_scan (m_non_empty_words s) (length (m_levels s)) 0 \<rparr>"

definition rebuild_top_from_bitmap :: "OrderBookSide \<Rightarrow> OrderBookSide" where
  "rebuild_top_from_bitmap s =
     (if m_side s = Bid then rebuild_bid_top_from_bitmap s else rebuild_ask_top_from_bitmap s)"

definition set_level :: "OrderBookSide \<Rightarrow> real \<Rightarrow> real \<Rightarrow> OrderBookSide" where
  "set_level s price quantity =
     (let index = price_to_index s price in
      if index \<ge> length (m_levels s) then s
      else let s1 = s\<lparr> m_levels := (m_levels s)[index := quantity] \<rparr> in
        if quantity > 0
        then let s2 = set_non_empty s1 index
             in if is_better_top s2 index then s2\<lparr> m_top_index := index \<rparr> else s2
        else let s2 = clear_non_empty s1 index
             in if index = m_top_index s2 then rebuild_top_from_bitmap s2 else s2)"

definition remove_level :: "OrderBookSide \<Rightarrow> real \<Rightarrow> OrderBookSide" where
  "remove_level s price = set_level s price 0"

definition quantity_at_index :: "OrderBookSide \<Rightarrow> nat \<Rightarrow> real" where
  "quantity_at_index s index =
     (if index < length (m_levels s) then m_levels s ! index else 0)"

definition get_quantity :: "OrderBookSide \<Rightarrow> real \<Rightarrow> real" where
  "get_quantity s price =
     (let index = price_to_index s price
      in if index \<ge> length (m_levels s) then 0 else m_levels s ! index)"

definition has_top :: "OrderBookSide \<Rightarrow> bool" where
  "has_top s \<longleftrightarrow> m_top_index s \<noteq> INVALID_INDEX"

definition get_top_price :: "OrderBookSide \<Rightarrow> real" where
  "get_top_price s =
     (if m_top_index s = INVALID_INDEX then 0 else index_to_price s (m_top_index s))"

text \<open>
  \<^verbatim>\<open>m_levels[m_top_index]\<close> is an unchecked access: a top index past the end of the
  array would be undefined behaviour.
\<close>

definition get_top_quantity :: "OrderBookSide \<Rightarrow> cpp_error + real" where
  "get_top_quantity s =
     (if m_top_index s = INVALID_INDEX then Inr 0
      else if m_top_index s < length (m_levels s) then Inr (m_levels s ! m_top_index s)
      else Inl UB_out_of_bounds)"

definition reset_base_price :: "OrderBookSide \<Rightarrow> real \<Rightarrow> OrderBookSide" where
  "reset_base_price s new_base_price = clear (s\<lparr> m_base_price := new_base_price \<rparr>)"

text \<open>
  \<open>move_levels old i qs new\<close> is the loop of \<^verbatim>\<open>move_to_new_base_price\<close> from level
  \<open>i\<close> on, \<open>qs\<close> being the quantities of the levels from \<open>i\<close> to the end.
\<close>

fun move_levels :: "OrderBookSide \<Rightarrow> nat \<Rightarrow> real list \<Rightarrow> OrderBookSide \<Rightarrow> OrderBookSide" where
  "move_levels s i [] side' = side'"
| "move_levels s i (quantity # qs) side' =
     (if quantity \<le> 0 then move_levels s (Suc i) qs side'
      else move_levels s (Suc i) qs (set_level side' (index_to_price s i) quantity))"

definition move_to_new_base_price ::
  "OrderBookSide \<Rightarrow> real \<Rightarrow> cpp_error + OrderBookSide" where
  "move_to_new_base_price s new_base_price =
     sum_bind (new_side (m_side s) new_base_price (m_tick_size s) (length (m_levels s)))
       (\<lambda>side'. Inr (move_levels s 0 (m_levels s) side'))"

section \<open>The bitmap\<close>

definition bitmap_bit :: "u64 list \<Rightarrow> nat \<Rightarrow> bool" where
  "bitmap_bit ws i \<longleftrightarrow> i div 64 < length ws \<and> bit (ws ! (i div 64)) (i mod 64)"

lemma div_mod_64_eq_iff: "(i :: nat) div 64 = j div 64 \<and> i mod 64 = j mod 64 \<longleftrightarrow> i = j"
  by (metis div_mult_mod_eq)

lemma bit_one_shift: "n < 64 \<Longrightarrow> bit (2 ^ n :: u64) m \<longleftrightarrow> m = n"
  by (auto simp: bit_exp_iff possible_bit_def)

lemma bitmap_bit_set:
  assumes "i div 64 < length ws"
  shows "bitmap_bit (ws[i div 64 := ws ! (i div 64) OR push_bit (i mod 64) 1]) j
         \<longleftrightarrow> j = i \<or> bitmap_bit ws j"
  using assms div_mod_64_eq_iff [of i j]
  by (auto simp: bitmap_bit_def nth_list_update bit_or_iff bit_one_shift)

lemma bitmap_bit_clear:
  assumes "i div 64 < length ws"
  shows "bitmap_bit (ws[i div 64 := ws ! (i div 64) AND NOT (push_bit (i mod 64) 1)]) j
         \<longleftrightarrow> j \<noteq> i \<and> bitmap_bit ws j"
  using assms div_mod_64_eq_iff [of i j]
  by (auto simp: bitmap_bit_def nth_list_update bit_and_iff bit_not_iff bit_one_shift)

lemma bitmap_bit_lt: "bitmap_bit ws i \<Longrightarrow> i < 64 * length ws"
  by (auto simp: bitmap_bit_def less_mult_imp_div_less dividend_less_times_div
      div_less_iff_less_mult mult.commute)

lemma bitmap_bit_in_word: "bitmap_bit ws i \<Longrightarrow> ws ! (i div 64) \<noteq> 0"
  by (auto simp: bitmap_bit_def)

lemma bitmap_word_zero:
  assumes "ws ! k = 0" and "bitmap_bit ws i"
  shows "i < 64 * k \<or> 64 * Suc k \<le> i"
proof -
  have "i div 64 \<noteq> k" using assms by (auto simp: bitmap_bit_def)
  then show ?thesis by auto
qed

text \<open>A word without set bits contributes nothing; a word with one contributes its extreme.\<close>

definition best_index :: "OrderBookSideType \<Rightarrow> nat set \<Rightarrow> nat" where
  "best_index sd A = (if A = {} then INVALID_INDEX else if sd = Bid then Max A else Min A)"

lemma bid_scan_eq:
  assumes "k \<le> length ws" and "\<forall>i. bitmap_bit ws i \<longrightarrow> i < n"
  shows "bid_scan ws n k = best_index Bid {i. bitmap_bit ws i \<and> i < 64 * k}"
  using assms(1)
proof (induction k)
  case 0
  then show ?case by (simp add: best_index_def)
next
  case (Suc k)
  let ?A = "\<lambda>k. {i. bitmap_bit ws i \<and> i < 64 * k}"
  have fin: "finite (?A j)" for j by simp
  show ?case
  proof (cases "ws ! k = 0")
    case True
    have "?A (Suc k) = ?A k" using bitmap_word_zero [OF True] by fastforce
    with True Suc show ?thesis by simp
  next
    case False
    let ?b = "63 - countl_zero (ws ! k)"
    let ?i = "k * 64 + ?b"
    have q: "?i div 64 = k" "?i mod 64 = ?b" by auto
    have set: "bitmap_bit ws ?i"
      unfolding bitmap_bit_def q using Suc.prems countl_zero_spec [OF False] by simp
    have "j \<le> ?i" if "j \<in> ?A (Suc k)" for j
    proof (rule ccontr)
      assume "\<not> j \<le> ?i"
      moreover from this that have "j div 64 = k" by auto
      ultimately have "j div 64 = k" "?b < j mod 64" using div_mult_mod_eq [of j 64] by auto
      with that countl_zero_spec(3) [OF False] show False by (auto simp: bitmap_bit_def)
    qed
    with set have "Max (?A (Suc k)) = ?i" by (intro Max_eqI) (auto simp: fin)
    moreover have "?i \<in> ?A (Suc k)" using set by auto
    ultimately show ?thesis
      using False set assms(2) by (auto simp: best_index_def WORD_BITS_def Let_def)
  qed
qed

lemma ask_scan_eq:
  assumes "\<forall>i. bitmap_bit ws i \<longrightarrow> i < n"
  shows "ask_scan ws n k = best_index Ask {i. bitmap_bit ws i \<and> 64 * k \<le> i}"
  using assms
proof (induction ws n k rule: ask_scan.induct)
  case (1 ws n k)
  let ?A = "\<lambda>k. {i. bitmap_bit ws i \<and> 64 * k \<le> i}"
  have fin: "finite (?A j)" for j
    by (rule finite_subset [of _ "{..<64 * length ws}"]) (auto dest: bitmap_bit_lt)
  show ?case
  proof (cases "k < length ws")
    case False
    then have "?A k = {}" by (auto dest!: bitmap_bit_lt)
    then show ?thesis using False by (simp add: ask_scan.simps [of ws n k] best_index_def)
  next
    case k: True
    show ?thesis
    proof (cases "ws ! k = 0")
      case True
      have "?A (Suc k) = ?A k" using bitmap_word_zero [OF True] by fastforce
      with True k "1.IH"(1) [OF k] "1.prems" show ?thesis
        by (simp add: ask_scan.simps [of ws n k])
    next
      case False
      let ?b = "countr_zero (ws ! k)"
      let ?i = "k * 64 + ?b"
      have q: "?i div 64 = k" "?i mod 64 = ?b" using countr_zero_spec(1) [OF False] by auto
      have set: "bitmap_bit ws ?i"
        unfolding bitmap_bit_def q using k countr_zero_spec [OF False] by simp
      have "?i \<le> j" if "j \<in> ?A k" for j
      proof (rule ccontr)
        assume "\<not> ?i \<le> j"
        moreover from this that countr_zero_spec(1) [OF False] have "j div 64 = k" by auto
        ultimately have "j div 64 = k" "j mod 64 < ?b" using div_mult_mod_eq [of j 64] by auto
        with that countr_zero_spec(3) [OF False] show False by (auto simp: bitmap_bit_def)
      qed
      with set have "Min (?A k) = ?i" by (intro Min_eqI) (auto simp: fin)
      moreover have "?i \<in> ?A k" using set by auto
      ultimately show ?thesis
        using False set k "1.prems"
        by (auto simp: ask_scan.simps [of ws n k] best_index_def WORD_BITS_def Let_def)
    qed
  qed
qed

section \<open>The invariant\<close>

definition non_empty_levels :: "OrderBookSide \<Rightarrow> nat set" where
  "non_empty_levels s = {i. i < length (m_levels s) \<and> 0 < m_levels s ! i}"

definition side_shape :: "OrderBookSide \<Rightarrow> bool" where
  "side_shape s \<longleftrightarrow>
     0 < m_tick_size s \<and> m_inv_tick_size s = 1 / m_tick_size s \<and>
     0 < length (m_levels s) \<and> length (m_levels s) \<le> MAX_LEVELS \<and>
     m_center_index s = length (m_levels s) div 2 \<and>
     length (m_non_empty_words s) = (length (m_levels s) + 63) div 64"

definition side_inv :: "OrderBookSide \<Rightarrow> bool" where
  "side_inv s \<longleftrightarrow> side_shape s \<and>
     (\<forall>i. bitmap_bit (m_non_empty_words s) i \<longleftrightarrow> i \<in> non_empty_levels s) \<and>
     m_top_index s = best_index (m_side s) (non_empty_levels s)"

lemma side_invD:
  assumes "side_inv s"
  shows "0 < m_tick_size s" and "m_inv_tick_size s = 1 / m_tick_size s"
    and "0 < length (m_levels s)" and "length (m_levels s) \<le> MAX_LEVELS"
    and "m_center_index s = length (m_levels s) div 2"
    and "length (m_non_empty_words s) = (length (m_levels s) + 63) div 64"
    and "bitmap_bit (m_non_empty_words s) i \<longleftrightarrow> i \<in> non_empty_levels s"
    and "m_top_index s = best_index (m_side s) (non_empty_levels s)"
  using assms by (auto simp: side_inv_def side_shape_def)

lemma finite_non_empty_levels [simp]: "finite (non_empty_levels s)"
  by (simp add: non_empty_levels_def)

lemma MAX_LEVELS_lt [simp]: "MAX_LEVELS < INVALID_INDEX" "MAX_LEVELS < 2 ^ 60"
  by (simp_all add: MAX_LEVELS_def INVALID_INDEX_def)

lemma level_index_neq_INVALID:
  "side_inv s \<Longrightarrow> i < length (m_levels s) \<Longrightarrow> i \<noteq> INVALID_INDEX"
  using side_invD(4) [of s] MAX_LEVELS_lt by linarith

lemma word_index_in_range:
  "side_inv s \<Longrightarrow> i < length (m_levels s) \<Longrightarrow> i div 64 < length (m_non_empty_words s)"
  by (simp add: side_invD)

text \<open>The best of a set of indices, after one index is added or removed.\<close>

lemma best_index_mem: "finite A \<Longrightarrow> A \<noteq> {} \<Longrightarrow> best_index sd A \<in> A"
  by (simp add: best_index_def)

lemma best_index_insert:
  assumes "finite A" and "INVALID_INDEX \<notin> A"
  shows "best_index sd (insert i A) =
    (if best_index sd A = INVALID_INDEX \<or> (if sd = Bid then i > best_index sd A else i < best_index sd A)
     then i else best_index sd A)"
proof (cases "A = {}")
  case True
  then show ?thesis by (simp add: best_index_def)
next
  case False
  then have "best_index sd A \<noteq> INVALID_INDEX" using assms best_index_mem by metis
  then show ?thesis using False assms(1)
    by (simp add: best_index_def max_def min_def
        del: Max_less_iff Max_gr_iff Min_less_iff Min_gr_iff Max.bounded_iff Min.bounded_iff
          Max_ge_iff Min_le_iff)
qed

lemma best_index_remove:
  assumes "finite A" and "i \<noteq> best_index sd A"
  shows "best_index sd (A - {i}) = best_index sd A"
proof (cases "A = {}")
  case False
  let ?b = "best_index sd A"
  have b: "?b \<in> A - {i}" using False assms best_index_mem by blast
  moreover have "Max (A - {i}) = ?b" if "sd = Bid"
    using that b assms(1) by (intro Max_eqI) (auto simp: best_index_def False)
  moreover have "Min (A - {i}) = ?b" if "sd \<noteq> Bid"
    using that b assms(1) by (intro Min_eqI) (auto simp: best_index_def False)
  ultimately show ?thesis by (auto simp: best_index_def)
qed simp

lemma non_empty_levels_update:
  assumes "i < length (m_levels s)"
  shows "{j. j < length ((m_levels s)[i := q]) \<and> 0 < (m_levels s)[i := q] ! j} =
    (if 0 < q then insert i (non_empty_levels s) else non_empty_levels s - {i})"
  using assms by (auto simp: non_empty_levels_def nth_list_update)

lemma best_index_non_empty:
  assumes "side_inv s" and "non_empty_levels s \<noteq> {}"
  shows "m_top_index s \<in> non_empty_levels s" and "m_top_index s < length (m_levels s)"
    and "m_top_index s \<noteq> INVALID_INDEX"
proof -
  show m: "m_top_index s \<in> non_empty_levels s"
    using assms best_index_mem by (simp add: side_invD(8))
  then show "m_top_index s < length (m_levels s)" by (simp add: non_empty_levels_def)
  with assms(1) show "m_top_index s \<noteq> INVALID_INDEX" by (rule level_index_neq_INVALID)
qed

section \<open>Every operation keeps the invariant\<close>

lemma blank_side_inv:
  assumes "side_shape s" and "m_levels s = replicate n 0"
    and "m_non_empty_words s = replicate m 0" and "m_top_index s = INVALID_INDEX"
  shows "side_inv s"
proof -
  have "non_empty_levels s = {}" "\<And>i. \<not> bitmap_bit (m_non_empty_words s) i"
    using assms(2,3) by (auto simp: non_empty_levels_def bitmap_bit_def)
  with assms(1,4) show ?thesis by (simp add: side_inv_def best_index_def)
qed

lemma new_side_inv [inv_intros]: "new_side sd b t d = Inr s \<Longrightarrow> side_inv s"
  by (rule blank_side_inv) (auto simp: new_side_def side_shape_def WORD_BITS_def split: if_splits)

lemma new_side_fields:
  "new_side sd b t d = Inr s \<Longrightarrow> m_side s = sd \<and> m_base_price s = b \<and> m_tick_size s = t \<and>
     m_levels s = replicate d 0"
  by (auto simp: new_side_def split: if_splits)

lemma clear_inv [inv_intros]: "side_inv s \<Longrightarrow> side_inv (clear s)"
  by (rule blank_side_inv) (auto simp: side_inv_def side_shape_def clear_def)

lemma reset_base_price_inv [inv_intros]: "side_inv s \<Longrightarrow> side_inv (reset_base_price s p)"
  by (rule blank_side_inv) (auto simp: side_inv_def side_shape_def clear_def reset_base_price_def)

lemma set_level_levels:
  "m_levels (set_level s p q) = (m_levels s)[price_to_index s p := q]"
  by (simp add: set_level_def Let_def set_non_empty_def clear_non_empty_def
      rebuild_top_from_bitmap_def rebuild_bid_top_from_bitmap_def rebuild_ask_top_from_bitmap_def
      list_update_beyond)

lemma set_level_frame [frame_simps, simp]:
  "m_side (set_level s p q) = m_side s"
  "m_base_price (set_level s p q) = m_base_price s"
  "m_tick_size (set_level s p q) = m_tick_size s"
  "m_inv_tick_size (set_level s p q) = m_inv_tick_size s"
  "m_center_index (set_level s p q) = m_center_index s"
  "length (m_levels (set_level s p q)) = length (m_levels s)"
  "length (m_non_empty_words (set_level s p q)) = length (m_non_empty_words s)"
  by (simp_all add: set_level_def Let_def set_non_empty_def clear_non_empty_def
      rebuild_top_from_bitmap_def rebuild_bid_top_from_bitmap_def rebuild_ask_top_from_bitmap_def)

lemma set_level_words:
  assumes "side_inv s" and "price_to_index s p < length (m_levels s)"
  shows "bitmap_bit (m_non_empty_words (set_level s p q)) j \<longleftrightarrow>
    (if 0 < q then j = price_to_index s p \<or> j \<in> non_empty_levels s
     else j \<noteq> price_to_index s p \<and> j \<in> non_empty_levels s)"
  using word_index_in_range [OF assms] assms
  by (simp add: set_level_def Let_def set_non_empty_def clear_non_empty_def WORD_BITS_def
      rebuild_top_from_bitmap_def rebuild_bid_top_from_bitmap_def rebuild_ask_top_from_bitmap_def
      bitmap_bit_set [simplified] bitmap_bit_clear [simplified] side_invD)

lemma rebuild_top_eq:
  assumes "\<forall>i. bitmap_bit (m_non_empty_words s) i \<longleftrightarrow> i \<in> non_empty_levels s"
  shows "m_top_index (rebuild_top_from_bitmap s) = best_index (m_side s) (non_empty_levels s)"
proof -
  let ?ws = "m_non_empty_words s"
  have lt: "\<forall>i. bitmap_bit ?ws i \<longrightarrow> i < length (m_levels s)"
    using assms by (auto simp: non_empty_levels_def)
  have "{i. bitmap_bit ?ws i \<and> i < 64 * length ?ws} = non_empty_levels s"
    using assms bitmap_bit_lt by blast
  moreover have "{i. bitmap_bit ?ws i \<and> 64 * 0 \<le> i} = non_empty_levels s"
    using assms by simp
  ultimately show ?thesis
    using bid_scan_eq [OF order_refl lt] ask_scan_eq [OF lt, of 0]
    by (cases "m_side s") (simp_all add: rebuild_top_from_bitmap_def
      rebuild_bid_top_from_bitmap_def rebuild_ask_top_from_bitmap_def)
qed

lemma set_level_non_empty:
  assumes "price_to_index s p < length (m_levels s)"
  shows "non_empty_levels (set_level s p q) =
    (if 0 < q then insert (price_to_index s p) (non_empty_levels s)
     else non_empty_levels s - {price_to_index s p})"
  using non_empty_levels_update [OF assms, of q]
  by (simp add: non_empty_levels_def set_level_levels)

lemma set_level_top:
  assumes inv: "side_inv s" and i: "price_to_index s p < length (m_levels s)"
  shows "m_top_index (set_level s p q) =
    best_index (m_side s) (non_empty_levels (set_level s p q))"
proof (cases "0 < q")
  case True
  have "INVALID_INDEX \<notin> non_empty_levels s"
    using level_index_neq_INVALID [OF inv] by (auto simp: non_empty_levels_def)
  from best_index_insert [OF finite_non_empty_levels this] True i inv show ?thesis
    unfolding set_level_non_empty [OF i]
    by (simp add: set_level_def Let_def is_better_top_def set_non_empty_def side_invD(8))
next
  case q: False
  let ?s2 = "clear_non_empty (s\<lparr>m_levels := (m_levels s)[price_to_index s p := q]\<rparr>)
               (price_to_index s p)"
  show ?thesis
  proof (cases "price_to_index s p = m_top_index s")
    case True
    then have eq: "set_level s p q = rebuild_top_from_bitmap ?s2"
      using q i by (simp add: set_level_def Let_def clear_non_empty_def)
    have ne: "non_empty_levels ?s2 = non_empty_levels (set_level s p q)"
      by (simp add: non_empty_levels_def set_level_levels clear_non_empty_def Let_def)
    have wd: "m_non_empty_words ?s2 = m_non_empty_words (set_level s p q)"
      unfolding eq by (simp add: rebuild_top_from_bitmap_def rebuild_bid_top_from_bitmap_def
          rebuild_ask_top_from_bitmap_def)
    have sd: "m_side ?s2 = m_side s" by (simp add: clear_non_empty_def Let_def)
    have "\<forall>j. bitmap_bit (m_non_empty_words ?s2) j \<longleftrightarrow> j \<in> non_empty_levels ?s2"
      unfolding ne wd using set_level_words [OF inv i, of q] set_level_non_empty [OF i, of q] q
      by auto
    from rebuild_top_eq [OF this] show ?thesis by (metis eq ne sd)
  next
    case False
    then have "m_top_index (set_level s p q) = m_top_index s"
      using q i by (simp add: set_level_def Let_def clear_non_empty_def)
    with False q inv best_index_remove [OF finite_non_empty_levels] show ?thesis
      by (simp add: set_level_non_empty [OF i] side_invD(8))
  qed
qed

lemma set_level_inv [inv_intros]:
  assumes "side_inv s"
  shows "side_inv (set_level s p q)"
proof (cases "price_to_index s p < length (m_levels s)")
  case False
  then show ?thesis using assms by (simp add: set_level_def)
next
  case True
  have "side_shape (set_level s p q)" using assms by (simp add: side_inv_def side_shape_def)
  with assms True show ?thesis
    by (auto simp: side_inv_def [of "set_level s p q"] set_level_words set_level_top
        set_level_non_empty)
qed

lemma remove_level_inv [inv_intros]: "side_inv s \<Longrightarrow> side_inv (remove_level s p)"
  by (simp add: remove_level_def set_level_inv)

lemma move_levels_inv [inv_intros]:
  "side_inv side' \<Longrightarrow> side_inv (move_levels s i qs side')"
  by (induction s i qs side' rule: move_levels.induct) (auto intro: set_level_inv)

lemma move_to_new_base_price_inv [inv_intros]:
  "move_to_new_base_price s b = Inr s' \<Longrightarrow> side_inv s'"
  by (auto simp: move_to_new_base_price_def intro: move_levels_inv new_side_inv)

section \<open>Prices and indices\<close>

lemma to_i64_small [simp]: "n \<le> MAX_LEVELS \<Longrightarrow> to_i64 n = int n"
  by (simp add: to_i64_def MAX_LEVELS_def)

lemma side_inv_size:
  assumes "side_inv s"
  shows "int (length (m_levels s)) < 2 ^ 60" and "m_center_index s < length (m_levels s)"
    and "to_i64 (m_center_index s) = int (m_center_index s)"
proof -
  have le: "length (m_levels s) \<le> MAX_LEVELS" using assms by (rule side_invD)
  then show "int (length (m_levels s)) < 2 ^ 60" by (simp add: MAX_LEVELS_def)
  show c: "m_center_index s < length (m_levels s)"
    using side_invD(3,5) [OF assms] by simp
  with le show "to_i64 (m_center_index s) = int (m_center_index s)" by simp
qed

lemma price_to_index_grid:
  assumes inv: "side_inv s" and k: "- (2 ^ 62) < k" "k < 2 ^ 62"
  shows "price_to_index s (m_base_price s + of_int k * m_tick_size s) =
         nat ((int (m_center_index s) + k) mod 2 ^ 64)"
proof -
  have "(m_base_price s + of_int k * m_tick_size s - m_base_price s) * m_inv_tick_size s
        = of_int k"
    using side_invD(1,2) [OF inv] by simp
  moreover have "llround (of_int k) = k" using k by (intro llround_of_int) auto
  ultimately show ?thesis
    unfolding price_to_index_def Let_def side_inv_size(3) [OF inv] by metis
qed

lemma index_to_price_eq:
  assumes "side_inv s" and "i \<le> MAX_LEVELS"
  shows "index_to_price s i =
         m_base_price s + of_int (int i - int (m_center_index s)) * m_tick_size s"
  using assms side_inv_size(3) [of s] by (simp add: index_to_price_def Let_def)

lemma nat_mod_size [simp]:
  "0 \<le> k \<Longrightarrow> k < 2 ^ 64 \<Longrightarrow> nat (k mod 2 ^ 64) = nat k"
  by simp

lemma nat_mod_size_neg:
  assumes "- (2 ^ 63) \<le> k" and "k < (0 :: int)"
  shows "2 ^ 63 \<le> nat (k mod 2 ^ 64)"
proof -
  have "k mod 2 ^ 64 = (k + 2 ^ 64) mod 2 ^ 64" by simp
  also have "\<dots> = k + 2 ^ 64" using assms by (intro mod_pos_pos_trivial) auto
  finally show ?thesis using assms by simp
qed

lemma price_to_index_index_to_price:
  assumes "side_inv s" and "i < length (m_levels s)"
  shows "price_to_index s (index_to_price s i) = i"
proof -
  have "i \<le> MAX_LEVELS" using assms side_invD(4) [of s] by linarith
  then show ?thesis
    using assms side_inv_size [OF assms(1)]
      price_to_index_grid [OF assms(1), of "int i - int (m_center_index s)"]
    by (simp add: index_to_price_eq)
qed

lemma index_to_price_mono:
  assumes "side_inv s" and "i < length (m_levels s)" and "j < length (m_levels s)"
  shows "index_to_price s i < index_to_price s j \<longleftrightarrow> i < j"
proof -
  have "i \<le> MAX_LEVELS" "j \<le> MAX_LEVELS" using assms side_invD(4) [of s] by linarith+
  then show ?thesis using assms side_invD(1) [of s] by (simp add: index_to_price_eq)
qed

lemma index_to_price_mono_le:
  assumes "side_inv s" and "i < length (m_levels s)" and "j < length (m_levels s)"
  shows "index_to_price s i \<le> index_to_price s j \<longleftrightarrow> i \<le> j"
  using index_to_price_mono [OF assms(1,3,2)] by (simp add: not_less [symmetric])

text \<open>
  A price that has a level is stored at the nearest tick: the tick's price differs from it
  by at most half a tick.
\<close>

lemma llround_nearest:
  assumes "llround x \<noteq> - (2 ^ 63)"
  shows "\<bar>x - of_int (llround x)\<bar> \<le> 1 / 2"
proof -
  have r: "\<bar>x - of_int (if 0 \<le> x then \<lfloor>x + 1 / 2\<rfloor> else \<lceil>x - 1 / 2\<rceil>)\<bar> \<le> 1 / 2"
    unfolding abs_le_iff by (cases "0 \<le> x"; simp only: if_True if_False simp_thms) linarith+
  with assms show ?thesis by (auto simp: llround_def Let_def split: if_splits)
qed

lemma valid_price_offset:
  assumes "side_inv s" and "valid_price s p"
  defines "t \<equiv> llround ((p - m_base_price s) * m_inv_tick_size s)"
  shows "int (price_to_index s p) = int (m_center_index s) + t" and "t \<noteq> - (2 ^ 63)"
proof -
  note sz = side_inv_size [OF assms(1)]
  let ?k = "int (m_center_index s) + t"
  have idx: "price_to_index s p = nat (?k mod 2 ^ 64)"
    using sz by (simp add: price_to_index_def Let_def t_def)
  have t: "- (2 ^ 63) \<le> t" "t < 2 ^ 63" using llround_bounds by (auto simp: t_def)
  have lt: "nat (?k mod 2 ^ 64) < 2 ^ 60"
    using assms(2) sz(1) idx by (simp add: valid_price_def valid_index_def)
  have "0 \<le> ?k"
  proof (rule ccontr)
    assume "\<not> 0 \<le> ?k"
    with t nat_mod_size_neg [of ?k] lt show False by simp
  qed
  then show "int (price_to_index s p) = ?k" using idx t sz by simp
  show "t \<noteq> - (2 ^ 63)" using \<open>0 \<le> ?k\<close> sz by auto
qed

lemma price_to_index_nearest:
  assumes "side_inv s" and "valid_price s p"
  shows "\<bar>p - index_to_price s (price_to_index s p)\<bar> \<le> m_tick_size s / 2"
proof -
  let ?t = "llround ((p - m_base_price s) * m_inv_tick_size s)"
  have i: "int (price_to_index s p) = int (m_center_index s) + ?t"
    and t: "?t \<noteq> - (2 ^ 63)" using valid_price_offset [OF assms] by auto
  have "price_to_index s p \<le> MAX_LEVELS"
    using assms side_invD(4) [of s] by (simp add: valid_price_def valid_index_def)
  then have "index_to_price s (price_to_index s p) = m_base_price s + of_int ?t * m_tick_size s"
    using assms i by (simp add: index_to_price_eq)
  moreover have "\<bar>(p - m_base_price s) / m_tick_size s - of_int ?t\<bar> \<le> 1 / 2"
    using llround_nearest [OF t] side_invD(2) [OF assms(1)] by simp
  then have "\<bar>(p - m_base_price s - of_int ?t * m_tick_size s) / m_tick_size s\<bar> \<le> 1 / 2"
    using side_invD(1) [OF assms(1)] by (simp add: diff_divide_distrib)
  ultimately show ?thesis
    using side_invD(1) [OF assms(1)] by (simp add: abs_divide field_simps)
qed

section \<open>The contract of a side\<close>

text \<open>
  What the order book relies on: a side has numbered slots that hold quantities, a price
  selects a slot, \<open>put\<close> writes one slot, and \<open>top\<close> is the best slot with a positive
  quantity.
\<close>

locale ladder =
  fixes inv :: "'s \<Rightarrow> bool"
    and slots :: "'s \<Rightarrow> nat"
    and slot :: "'s \<Rightarrow> 'p \<Rightarrow> nat"
    and qty :: "'s \<Rightarrow> nat \<Rightarrow> real"
    and put :: "'s \<Rightarrow> 'p \<Rightarrow> real \<Rightarrow> 's"
    and top :: "'s \<Rightarrow> nat option"
    and better :: "nat \<Rightarrow> nat \<Rightarrow> bool"
  assumes inv_put: "inv s \<Longrightarrow> inv (put s p q)"
    and slots_put: "inv s \<Longrightarrow> slots (put s p q) = slots s"
    and slot_put: "inv s \<Longrightarrow> slot (put s p q) = slot s"
    and qty_put: "inv s \<Longrightarrow> i < slots s \<Longrightarrow>
      qty (put s p q) i = (if i = slot s p then q else qty s i)"
    and top_Some: "inv s \<Longrightarrow> top s = Some i \<longleftrightarrow>
      i < slots s \<and> 0 < qty s i \<and> (\<forall>j < slots s. 0 < qty s j \<longrightarrow> better i j)"
    and top_None: "inv s \<Longrightarrow> top s = None \<longleftrightarrow> (\<forall>j < slots s. qty s j \<le> 0)"
    and better_trans: "better i j \<Longrightarrow> better j k \<Longrightarrow> better i k"
    and better_refl: "better i i"
begin

lemma put_above_top:
  assumes "inv s" and "0 < q" and "slot s p < slots s"
    and "\<And>i. top s = Some i \<Longrightarrow> better (slot s p) i"
  shows "top (put s p q) = Some (slot s p)"
proof -
  have "better (slot s p) j" if j: "j < slots s" "0 < qty s j" for j
  proof -
    have "top s \<noteq> None" using j top_None [OF assms(1)] by force
    then obtain i where i: "top s = Some i" by blast
    then have "better i j" using j top_Some [OF assms(1)] by blast
    then show ?thesis using assms(4) [OF i] better_trans by blast
  qed
  then show ?thesis
    using assms(1-3) by (simp add: top_Some inv_put slots_put qty_put better_refl)
qed

lemma put_below_top:
  assumes "inv s" and "top s = Some i" and "slot s p \<noteq> i" and "better i (slot s p)"
  shows "top (put s p q) = Some i"
  using assms by (auto simp: top_Some inv_put slots_put qty_put)

lemma top_depends_on_qty:
  assumes "inv s" and "inv s'" and "slots s' = slots s"
    and "\<And>j. j < slots s \<Longrightarrow> qty s' j = qty s j"
  shows "top s' = top s"
proof (cases "top s")
  case None
  then have "top s' = None" using assms top_None [of s] top_None [of s'] by simp
  with None show ?thesis by simp
next
  case (Some i)
  then have "top s' = Some i" using assms top_Some [of s i] top_Some [of s' i] by simp
  with Some show ?thesis by simp
qed

definition put_all :: "'s \<Rightarrow> ('p \<times> real) list \<Rightarrow> 's" where
  "put_all s pqs = foldl (\<lambda>s pq. put s (fst pq) (snd pq)) s pqs"

lemma put_all_simps [simp]:
  "put_all s [] = s"
  "put_all s (pq # pqs) = put_all (put s (fst pq) (snd pq)) pqs"
  by (simp_all add: put_all_def)

lemma put_all_keeps:
  assumes "inv s"
  shows "inv (put_all s pqs)" and "slots (put_all s pqs) = slots s"
    and "slot (put_all s pqs) = slot s"
proof -
  have "inv (put_all s pqs) \<and> slots (put_all s pqs) = slots s \<and> slot (put_all s pqs) = slot s"
    using assms
    by (induction pqs arbitrary: s) (auto simp: inv_put slots_put slot_put)
  then show "inv (put_all s pqs)" and "slots (put_all s pqs) = slots s"
    and "slot (put_all s pqs) = slot s" by auto
qed

text \<open>The last write to a slot decides its quantity.\<close>

lemma qty_put_all:
  assumes "inv s" and "i < slots s"
  shows "qty (put_all s pqs) i =
    (case filter (\<lambda>pq. slot s (fst pq) = i) (rev pqs) of [] \<Rightarrow> qty s i | pq # _ \<Rightarrow> snd pq)"
  using assms
proof (induction pqs arbitrary: s)
  case (Cons pq pqs)
  let ?s = "put s (fst pq) (snd pq)"
  have "qty (put_all ?s pqs) i =
    (case filter (\<lambda>pq. slot ?s (fst pq) = i) (rev pqs) of [] \<Rightarrow> qty ?s i | pq # _ \<Rightarrow> snd pq)"
    using Cons by (simp add: inv_put slots_put)
  then show ?case
    using Cons.prems by (auto simp: slot_put qty_put split: list.splits)
qed simp

end

text \<open>The top index as an option, and the two sides of a book as ladders.\<close>

definition side_top :: "OrderBookSide \<Rightarrow> nat option" where
  "side_top s = (if has_top s then Some (m_top_index s) else None)"

lemma quantity_at_index_set_level:
  "i < length (m_levels s) \<Longrightarrow> quantity_at_index (set_level s p q) i =
     (if i = price_to_index s p then q else quantity_at_index s i)"
  by (auto simp: quantity_at_index_def set_level_levels nth_list_update)

lemma price_to_index_set_level [simp]: "price_to_index (set_level s p q) = price_to_index s"
  by (rule ext) (simp add: price_to_index_def)

lemma index_to_price_set_level [simp]: "index_to_price (set_level s p q) = index_to_price s"
  by (rule ext) (simp add: index_to_price_def)

lemma side_top_None:
  assumes "side_inv s"
  shows "side_top s = None \<longleftrightarrow> (\<forall>j<length (m_levels s). quantity_at_index s j \<le> 0)"
proof -
  have "side_top s = None \<longleftrightarrow> non_empty_levels s = {}"
    using best_index_non_empty(3) [OF assms] side_invD(8) [OF assms]
    by (auto simp: side_top_def has_top_def best_index_def)
  then show ?thesis by (auto simp: non_empty_levels_def quantity_at_index_def not_le not_less)
    (meson not_less)
qed

lemma side_top_Some:
  assumes "side_inv s"
  shows "side_top s = Some i \<longleftrightarrow> i \<in> non_empty_levels s \<and>
    (\<forall>j\<in>non_empty_levels s. if m_side s = Bid then j \<le> i else i \<le> j)"
proof (cases "non_empty_levels s = {}")
  case True
  then show ?thesis
    using side_invD(8) [OF assms] by (simp add: side_top_def has_top_def best_index_def)
next
  case False
  let ?A = "non_empty_levels s"
  have "side_top s = Some i \<longleftrightarrow> best_index (m_side s) ?A = i"
    using best_index_non_empty(3) [OF assms False] side_invD(8) [OF assms]
    by (simp add: side_top_def has_top_def)
  also have "\<dots> \<longleftrightarrow> i \<in> ?A \<and> (\<forall>j\<in>?A. if m_side s = Bid then j \<le> i else i \<le> j)"
    using False best_index_mem [of ?A "m_side s"]
    by (auto simp: best_index_def intro: Max_eqI Min_eqI)
  finally show ?thesis .
qed

interpretation bids: ladder "\<lambda>s. side_inv s \<and> m_side s = Bid" "\<lambda>s. length (m_levels s)"
  price_to_index quantity_at_index set_level side_top "(\<ge>)"
  by unfold_locales
    (auto simp: set_level_inv quantity_at_index_set_level side_top_None side_top_Some
      non_empty_levels_def quantity_at_index_def set_level_levels nth_list_update)

interpretation asks: ladder "\<lambda>s. side_inv s \<and> m_side s = Ask" "\<lambda>s. length (m_levels s)"
  price_to_index quantity_at_index set_level side_top "(\<le>)"
  by unfold_locales
    (auto simp: set_level_inv quantity_at_index_set_level side_top_None side_top_Some
      non_empty_levels_def quantity_at_index_def set_level_levels nth_list_update)

section \<open>Moving to a new base price\<close>

text \<open>
  \<open>shifted s s' d\<close>: \<open>s'\<close> has the geometry of \<open>s\<close> with its base price moved by \<open>d\<close> ticks.
\<close>

definition shifted :: "OrderBookSide \<Rightarrow> OrderBookSide \<Rightarrow> int \<Rightarrow> bool" where
  "shifted s s' d \<longleftrightarrow> m_tick_size s' = m_tick_size s \<and>
     length (m_levels s') = length (m_levels s) \<and> m_center_index s' = m_center_index s \<and>
     m_base_price s' = m_base_price s + of_int d * m_tick_size s"

lemma shifted_set_level [simp]: "shifted s (set_level s' p q) d \<longleftrightarrow> shifted s s' d"
  by (simp add: shifted_def)

lemma price_to_index_shifted:
  assumes "side_inv s" and "side_inv s'" and "shifted s s' d" and "\<bar>d\<bar> < 2 ^ 61"
    and "i < length (m_levels s)"
  shows "price_to_index s' (index_to_price s i) = nat ((int i - d) mod 2 ^ 64)"
proof -
  have i: "i \<le> MAX_LEVELS" using assms(1,5) side_invD(4) [of s] by linarith
  let ?k = "int i - int (m_center_index s) - d"
  have "index_to_price s i = m_base_price s' + of_int ?k * m_tick_size s'"
    using assms(1,3) i by (simp add: index_to_price_eq shifted_def left_diff_distrib)
  moreover have "- (2 ^ 62) < ?k" "?k < 2 ^ 62"
    using assms(4,5) side_inv_size [OF assms(1)] by auto
  ultimately show ?thesis
    using price_to_index_grid [OF assms(2), of ?k] assms(3) by (simp add: shifted_def)
qed

lemma price_to_index_shifted_iff:
  assumes "side_inv s" and "side_inv s'" and "shifted s s' d" and "\<bar>d\<bar> < 2 ^ 61"
    and "i < length (m_levels s)" and "j < length (m_levels s)"
  shows "price_to_index s' (index_to_price s i) = j \<longleftrightarrow> int i = int j + d"
proof (cases "0 \<le> int i - d")
  case True
  then show ?thesis
    using assms(4,5) side_inv_size(1) [OF assms(1)]
    by (auto simp: price_to_index_shifted [OF assms(1-5)])
next
  case False
  have "2 ^ 63 \<le> price_to_index s' (index_to_price s i)"
    unfolding price_to_index_shifted [OF assms(1-5)]
    by (rule nat_mod_size_neg) (use False assms(4) in auto)
  then show ?thesis using assms(6) side_inv_size(1) [OF assms(1)] False by auto
qed

lemma move_levels_frame [frame_simps, simp]:
  "m_side (move_levels s i qs s') = m_side s'"
  "m_base_price (move_levels s i qs s') = m_base_price s'"
  "m_tick_size (move_levels s i qs s') = m_tick_size s'"
  "m_center_index (move_levels s i qs s') = m_center_index s'"
  "length (m_levels (move_levels s i qs s')) = length (m_levels s')"
  by (induction s i qs s' rule: move_levels.induct) simp_all

lemma move_levels_nth:
  assumes "side_inv s" and "side_inv s'" and "shifted s s' d" and "\<bar>d\<bar> < 2 ^ 61"
    and "qs = drop i (m_levels s)" and "j < length (m_levels s)"
  shows "m_levels (move_levels s i qs s') ! j =
    (if int i \<le> int j + d \<and> nat (int j + d) \<in> non_empty_levels s
     then m_levels s ! nat (int j + d) else m_levels s' ! j)"
  using assms(2,3,5)
proof (induction qs arbitrary: i s')
  case Nil
  then have "length (m_levels s) \<le> i" by simp
  then show ?case by (auto simp: non_empty_levels_def)
next
  case (Cons q qs)
  have i: "i < length (m_levels s)"
    using Cons.prems(3) by (cases "i < length (m_levels s)") auto
  have "q # qs = m_levels s ! i # drop (Suc i) (m_levels s)"
    using Cons_nth_drop_Suc [OF i] Cons.prems(3) by metis
  then have q: "q = m_levels s ! i" and qs: "qs = drop (Suc i) (m_levels s)" by auto
  note hit = price_to_index_shifted_iff [OF assms(1) Cons.prems(1,2) assms(4) i assms(6)]
  show ?case
  proof (cases "q \<le> 0")
    case True
    have "int j + d \<noteq> int i" if "nat (int j + d) \<in> non_empty_levels s"
      using that True q by (auto simp: non_empty_levels_def)
    then have "int i \<le> int j + d \<and> nat (int j + d) \<in> non_empty_levels s \<longleftrightarrow>
      int (Suc i) \<le> int j + d \<and> nat (int j + d) \<in> non_empty_levels s" by auto
    with True show ?thesis using Cons.IH [OF Cons.prems(1,2) qs] by simp
  next
    case False
    let ?s = "set_level s' (index_to_price s i) q"
    have "side_inv ?s" and "shifted s ?s d" using Cons.prems by (auto intro: set_level_inv)
    from Cons.IH [OF this qs]
    have "m_levels (move_levels s i (q # qs) s') ! j =
      (if int (Suc i) \<le> int j + d \<and> nat (int j + d) \<in> non_empty_levels s
       then m_levels s ! nat (int j + d)
       else if int i = int j + d then q else m_levels s' ! j)"
      using False hit assms(6) Cons.prems(2)
      by (auto simp: set_level_levels nth_list_update shifted_def)
    also have "\<dots> = (if int i \<le> int j + d \<and> nat (int j + d) \<in> non_empty_levels s
       then m_levels s ! nat (int j + d) else m_levels s' ! j)"
    proof (cases "int i = int j + d")
      case True
      then have "nat (int j + d) = i" by simp
      moreover have "i \<in> non_empty_levels s" using False i q by (simp add: non_empty_levels_def)
      ultimately show ?thesis using True q by simp
    qed auto
    finally show ?thesis .
  qed
qed

text \<open>
  Moving the base by a whole number of ticks shifts the array: every non-empty level that
  is still in range keeps its price and quantity, everything else is empty.
\<close>

lemma move_to_new_base_price_shift:
  assumes "side_inv s" and "b = m_base_price s + of_int d * m_tick_size s" and "\<bar>d\<bar> < 2 ^ 61"
  obtains s' where "move_to_new_base_price s b = Inr s'" and "side_inv s'"
    and "m_side s' = m_side s" and "shifted s s' d"
    and "\<And>j. j < length (m_levels s) \<Longrightarrow> m_levels s' ! j =
      (if 0 \<le> int j + d \<and> nat (int j + d) \<in> non_empty_levels s
       then m_levels s ! nat (int j + d) else 0)"
proof -
  obtain n where n: "new_side (m_side s) b (m_tick_size s) (length (m_levels s)) = Inr n"
    using side_invD(1,3,4) [OF assms(1)] by (auto simp: new_side_def)
  have ninv: "side_inv n" using n by (rule new_side_inv)
  have nl: "m_levels n = replicate (length (m_levels s)) 0" and ns: "m_side n = m_side s"
    and sh: "shifted s n d"
    using n assms(2) side_invD(5) [OF assms(1)]
    by (auto simp: new_side_def shifted_def split: if_splits)
  let ?s' = "move_levels s 0 (m_levels s) n"
  show thesis
  proof (rule that)
    show "move_to_new_base_price s b = Inr ?s'" using n by (simp add: move_to_new_base_price_def)
    show "side_inv ?s'" using ninv by (rule move_levels_inv)
    show "m_side ?s' = m_side s" using ns by simp
    show "shifted s ?s' d" using sh by (simp add: shifted_def)
    fix j
    assume j: "j < length (m_levels s)"
    show "m_levels ?s' ! j = (if 0 \<le> int j + d \<and> nat (int j + d) \<in> non_empty_levels s
       then m_levels s ! nat (int j + d) else 0)"
      using move_levels_nth [OF assms(1) ninv sh assms(3) _ j, of "m_levels s" 0] j nl by simp
  qed
qed

section \<open>Properties\<close>

text \<open>The sides a program can build: a successful construction and any number of operations.\<close>

inductive reachable_side :: "OrderBookSide \<Rightarrow> bool" where
  created: "new_side sd b t d = Inr s \<Longrightarrow> reachable_side s"
| level_set: "reachable_side s \<Longrightarrow> reachable_side (set_level s p q)"
| level_removed: "reachable_side s \<Longrightarrow> reachable_side (remove_level s p)"
| cleared: "reachable_side s \<Longrightarrow> reachable_side (clear s)"
| base_reset: "reachable_side s \<Longrightarrow> reachable_side (reset_base_price s p)"
| moved: "reachable_side s \<Longrightarrow> move_to_new_base_price s b = Inr s' \<Longrightarrow> reachable_side s'"

lemma reachable_side_inv: "reachable_side s \<Longrightarrow> side_inv s"
  by (induction rule: reachable_side.induct) (auto intro: inv_intros)

definition demo_side :: OrderBookSide where
  "demo_side = \<lparr> m_side = Bid, m_base_price = 100, m_tick_size = 1, m_inv_tick_size = 1,
     m_center_index = 2, m_levels = [0, 0, 0, 0], m_non_empty_words = [0],
     m_top_index = INVALID_INDEX \<rparr>"

lemma demo_side_new: "new_side Bid 100 1 4 = Inr demo_side"
proof -
  have "replicate 4 (0 :: real) = [0, 0, 0, 0]" by (simp add: numeral_eq_Suc)
  then show ?thesis by (simp add: new_side_def demo_side_def MAX_LEVELS_def WORD_BITS_def)
qed

lemma demo_side_inv: "side_inv demo_side"
  using demo_side_new by (rule new_side_inv)

lemma demo_side_index: "price_to_index demo_side 101 = 3" "price_to_index demo_side 99 = 1"
  using price_to_index_grid [OF demo_side_inv, of 1] price_to_index_grid [OF demo_side_inv, of "-1"]
  by (simp_all add: demo_side_def)

text \<open>
  (C1) In every state a side can reach, the cached top index is right: there is a top
  exactly when some level has a positive quantity, and then the top is a level of the array
  with a positive quantity that no other non-empty level beats (no higher bid, no lower
  ask). In particular the unchecked read in \<^verbatim>\<open>get_top_quantity\<close> is in range and yields
  that level's positive quantity.
\<close>

theorem top_is_best_level:
  assumes "reachable_side s"
  shows "(has_top s \<longleftrightarrow> (\<exists>i<length (m_levels s). 0 < m_levels s ! i)) \<and>
    (has_top s \<longrightarrow> m_top_index s < length (m_levels s) \<and>
       get_top_quantity s = Inr (m_levels s ! m_top_index s) \<and> 0 < m_levels s ! m_top_index s \<and>
       (\<forall>j<length (m_levels s). 0 < m_levels s ! j \<longrightarrow>
          (if m_side s = Bid then j \<le> m_top_index s else m_top_index s \<le> j)))"
proof -
  have inv: "side_inv s" using assms by (rule reachable_side_inv)
  have "has_top s \<longleftrightarrow> \<not> (\<forall>j<length (m_levels s). quantity_at_index s j \<le> 0)"
    using side_top_None [OF inv] by (auto simp: side_top_def split: if_splits)
  then have ex: "has_top s \<longleftrightarrow> (\<exists>i<length (m_levels s). 0 < m_levels s ! i)"
    by (auto simp: quantity_at_index_def not_le)
  moreover
  have "m_top_index s < length (m_levels s) \<and>
       get_top_quantity s = Inr (m_levels s ! m_top_index s) \<and> 0 < m_levels s ! m_top_index s \<and>
       (\<forall>j<length (m_levels s). 0 < m_levels s ! j \<longrightarrow>
          (if m_side s = Bid then j \<le> m_top_index s else m_top_index s \<le> j))"
    if "has_top s"
    using side_top_Some [OF inv, of "m_top_index s"] that
    by (auto simp: side_top_def non_empty_levels_def get_top_quantity_def has_top_def)
  ultimately show ?thesis by blast
qed

theorem top_is_best_level_witness:
  "has_top (set_level demo_side 101 5) \<and> m_top_index (set_level demo_side 101 5) < 4 \<and>
   0 < m_levels (set_level demo_side 101 5) ! m_top_index (set_level demo_side 101 5)"
proof -
  have "reachable_side (set_level demo_side 101 5)"
    by (rule level_set [OF created [OF demo_side_new]])
  note * = top_is_best_level [OF this]
  have l: "m_levels (set_level demo_side 101 5) = [0, 0, 0, 5]"
    by (simp add: set_level_levels demo_side_index) (simp add: demo_side_def)
  have "\<exists>i<length (m_levels (set_level demo_side 101 5)).
          0 < m_levels (set_level demo_side 101 5) ! i"
    unfolding l by (rule exI [of _ 3]) simp
  with * l show ?thesis by (simp add: numeral_eq_Suc)
qed

text \<open>
  Reading a price after writing one: the quantity just written, when the written price
  has a level and the two prices share it; otherwise what was there before. In particular a
  write outside the price range is ignored.
\<close>

theorem get_quantity_after_set_level:
  "get_quantity (set_level s p q) p' =
     (if valid_price s p \<and> price_to_index s p' = price_to_index s p then q
      else get_quantity s p')"
  by (auto simp: get_quantity_def Let_def set_level_levels valid_price_def valid_index_def
      nth_list_update list_update_beyond)

text \<open>
  Prices and level indices: the price of a level maps back to that level, and a price
  that has a level is within half a tick of that level's price.
\<close>

theorem price_index_round_trip:
  assumes "reachable_side s"
  shows "(\<forall>i<length (m_levels s). price_to_index s (index_to_price s i) = i) \<and>
    (\<forall>p. valid_price s p \<longrightarrow>
       \<bar>p - index_to_price s (price_to_index s p)\<bar> \<le> m_tick_size s / 2)"
  using price_to_index_index_to_price price_to_index_nearest reachable_side_inv [OF assms] by blast

theorem price_index_round_trip_witness:
  "price_to_index demo_side (index_to_price demo_side 3) = 3"
  using price_index_round_trip [OF created [OF demo_side_new]] by (simp add: demo_side_def)

text \<open>
  (C16) Moving a side to a base price a whole number of ticks away never throws, keeps the
  invariant, and keeps the book: in the new array, the level at any price that both ranges
  contain has the quantity it had (an empty level stays empty), and a level whose price was
  outside the old range is empty.
\<close>

theorem move_to_new_base_price_keeps_levels:
  assumes "reachable_side s" and "\<bar>d\<bar> < 2 ^ 61"
  shows "\<exists>s'. move_to_new_base_price s (m_base_price s + of_int d * m_tick_size s) = Inr s' \<and>
    reachable_side s' \<and> length (m_levels s') = length (m_levels s) \<and>
    (\<forall>j<length (m_levels s').
       (\<forall>i<length (m_levels s). index_to_price s i = index_to_price s' j \<longrightarrow>
          m_levels s' ! j = max 0 (m_levels s ! i)) \<and>
       ((\<forall>i<length (m_levels s). index_to_price s i \<noteq> index_to_price s' j) \<longrightarrow>
          m_levels s' ! j = 0))"
proof -
  have inv: "side_inv s" using assms(1) by (rule reachable_side_inv)
  obtain s' where s': "move_to_new_base_price s (m_base_price s + of_int d * m_tick_size s) = Inr s'"
    "side_inv s'" and sh: "shifted s s' d"
    and lv: "\<And>j. j < length (m_levels s) \<Longrightarrow> m_levels s' ! j =
      (if 0 \<le> int j + d \<and> nat (int j + d) \<in> non_empty_levels s
       then m_levels s ! nat (int j + d) else 0)"
    using move_to_new_base_price_shift [OF inv refl assms(2)] by metis
  have len: "length (m_levels s') = length (m_levels s)" using sh by (simp add: shifted_def)
  have same: "index_to_price s i = index_to_price s' j \<longleftrightarrow> int i = int j + d"
    if "i < length (m_levels s)" "j < length (m_levels s)" for i j
  proof -
    have "i \<le> MAX_LEVELS" "j \<le> MAX_LEVELS" using that side_invD(4) [OF inv] by linarith+
    then have "index_to_price s' j - index_to_price s i = of_int (int j + d - int i) * m_tick_size s"
      using inv s'(2) sh by (simp add: index_to_price_eq shifted_def algebra_simps)
    then have "index_to_price s i = index_to_price s' j \<longleftrightarrow> int j + d - int i = 0"
      using side_invD(1) [OF inv] by (smt (verit) mult_eq_0_iff of_int_eq_0_iff)
    then show ?thesis by auto
  qed
  have "m_levels s' ! j = max 0 (m_levels s ! i)"
    if "i < length (m_levels s)" "j < length (m_levels s)"
      "index_to_price s i = index_to_price s' j" for i j
  proof -
    have "int j + d = int i" using same [OF that(1,2)] that(3) by simp
    then have "nat (int j + d) = i" "0 \<le> int j + d" by simp_all
    with lv [OF that(2)] that(1) show ?thesis by (auto simp: non_empty_levels_def max_def)
  qed
  moreover have "m_levels s' ! j = 0"
    if "\<forall>i<length (m_levels s). index_to_price s i \<noteq> index_to_price s' j"
      "j < length (m_levels s)" for j
  proof (rule ccontr)
    assume "m_levels s' ! j \<noteq> 0"
    with lv [OF that(2)] have "0 \<le> int j + d" "nat (int j + d) < length (m_levels s)"
      by (auto simp: non_empty_levels_def split: if_splits)
    with that same [of "nat (int j + d)" j] show False by simp
  qed
  ultimately show ?thesis using s'(1) len moved [OF assms(1) s'(1)] by metis
qed

theorem move_to_new_base_price_keeps_levels_witness:
  "\<exists>s'. move_to_new_base_price (set_level demo_side 101 5) (100 + of_int 1 * 1) = Inr s' \<and>
     length (m_levels s') = 4"
  using move_to_new_base_price_keeps_levels
    [OF level_set [OF created [OF demo_side_new], of 101 5], of 1]
  by (auto simp: demo_side_def)

end
