(* ===== verification/Order_Book_Snapshot.thy ===== *)
theory Order_Book_Snapshot
  imports Prelude
begin

text \<open>
  A snapshot of the best levels of a book
  (\<^verbatim>\<open>server_app/order_book/order_book_snapshot.h\<close> and \<^verbatim>\<open>.cpp\<close>): two arrays of 200
  levels, how many entries of each are in use, and a limit on them. Snapshots are pooled
  objects, so an operation starts from whatever an earlier use left in the arrays.

  Pointers to instruments are addresses (\<^typ>\<open>nat\<close>), the null pointer is \<^term>\<open>None\<close>.
\<close>

record OrderBookLevel =
  lv_price :: real
  lv_quantity :: real

abbreviation level :: "real \<Rightarrow> real \<Rightarrow> OrderBookLevel" where
  "level p q \<equiv> \<lparr> lv_price = p, lv_quantity = q \<rparr>"

record OrderBookSnapShot =
  ss_instrument :: "nat option"
  ss_trace_id :: nat
  ss_bids :: "OrderBookLevel list"
  ss_asks :: "OrderBookLevel list"
  ss_bids_size :: nat
  ss_asks_size :: nat
  ss_max_levels :: nat

definition new_snapshot :: OrderBookSnapShot where
  "new_snapshot = \<lparr> ss_instrument = None, ss_trace_id = 0,
     ss_bids = replicate 200 (level 0 0), ss_asks = replicate 200 (level 0 0),
     ss_bids_size = 0, ss_asks_size = 0, ss_max_levels = 200 \<rparr>"

definition update_instrument :: "OrderBookSnapShot \<Rightarrow> nat option \<Rightarrow> OrderBookSnapShot" where
  "update_instrument sn instr = sn\<lparr> ss_instrument := instr \<rparr>"

definition resize :: "OrderBookSnapShot \<Rightarrow> nat \<Rightarrow> OrderBookSnapShot" where
  "resize sn new_size = sn\<lparr> ss_max_levels := new_size \<rparr>"

definition refresh :: "OrderBookSnapShot \<Rightarrow> OrderBookSnapShot" where
  "refresh sn = sn\<lparr> ss_bids_size := 0, ss_asks_size := 0 \<rparr>"

text \<open>The arrays are written without a bounds check beyond \<^verbatim>\<open>max_levels\<close>.\<close>

definition add_bid :: "OrderBookSnapShot \<Rightarrow> real \<Rightarrow> real \<Rightarrow> cpp_error + OrderBookSnapShot" where
  "add_bid sn p q =
     (if ss_bids_size sn \<ge> ss_max_levels sn then Inr sn
      else if ss_bids_size sn \<ge> length (ss_bids sn) then Inl UB_out_of_bounds
      else Inr (sn\<lparr> ss_bids := (ss_bids sn)[ss_bids_size sn := level p q],
                    ss_bids_size := ss_bids_size sn + 1 \<rparr>))"

definition add_ask :: "OrderBookSnapShot \<Rightarrow> real \<Rightarrow> real \<Rightarrow> cpp_error + OrderBookSnapShot" where
  "add_ask sn p q =
     (if ss_asks_size sn \<ge> ss_max_levels sn then Inr sn
      else if ss_asks_size sn \<ge> length (ss_asks sn) then Inl UB_out_of_bounds
      else Inr (sn\<lparr> ss_asks := (ss_asks sn)[ss_asks_size sn := level p q],
                    ss_asks_size := ss_asks_size sn + 1 \<rparr>))"

text \<open>\<open>vec_at\<close> is the unchecked \<^verbatim>\<open>operator[]\<close> of \<^verbatim>\<open>std::vector\<close>.\<close>

definition vec_at :: "'a list \<Rightarrow> nat \<Rightarrow> cpp_error + 'a" where
  "vec_at xs i = (if i < length xs then Inr (xs ! i) else Inl UB_out_of_bounds)"

definition get_best_bid :: "OrderBookSnapShot \<Rightarrow> cpp_error + real" where
  "get_best_bid sn =
     (if ss_bids_size sn > 0 then sum_bind (vec_at (ss_bids sn) 0) (\<lambda>l. Inr (lv_price l)) else Inr 0)"

definition get_best_ask :: "OrderBookSnapShot \<Rightarrow> cpp_error + real" where
  "get_best_ask sn =
     (if ss_asks_size sn > 0 then sum_bind (vec_at (ss_asks sn) 0) (\<lambda>l. Inr (lv_price l)) else Inr 0)"

definition get_best_bid_quantity :: "OrderBookSnapShot \<Rightarrow> cpp_error + real" where
  "get_best_bid_quantity sn =
     (if ss_bids_size sn > 0 then sum_bind (vec_at (ss_bids sn) 0) (\<lambda>l. Inr (lv_quantity l))
      else Inr 0)"

definition get_best_ask_quantity :: "OrderBookSnapShot \<Rightarrow> cpp_error + real" where
  "get_best_ask_quantity sn =
     (if ss_asks_size sn > 0 then sum_bind (vec_at (ss_asks sn) 0) (\<lambda>l. Inr (lv_quantity l))
      else Inr 0)"

definition get_mid_price :: "OrderBookSnapShot \<Rightarrow> cpp_error + real" where
  "get_mid_price sn =
     (if ss_bids_size sn = 0 \<or> ss_asks_size sn = 0 then Inr 0
      else sum_bind (get_best_bid sn) (\<lambda>b. sum_bind (get_best_ask sn) (\<lambda>a. Inr ((b + a) / 2))))"

text \<open>The volume loops: \<open>n\<close> entries from index \<open>i\<close> on.\<close>

fun volume_loop :: "OrderBookLevel list \<Rightarrow> nat \<Rightarrow> nat \<Rightarrow> real \<Rightarrow> cpp_error + real" where
  "volume_loop ls i 0 volume = Inr volume"
| "volume_loop ls i (Suc n) volume =
     sum_bind (vec_at ls i) (\<lambda>l. volume_loop ls (Suc i) n (volume + lv_quantity l))"

definition get_bid_volume :: "OrderBookSnapShot \<Rightarrow> cpp_error + real" where
  "get_bid_volume sn = volume_loop (ss_bids sn) 0 (ss_bids_size sn) 0"

definition get_ask_volume :: "OrderBookSnapShot \<Rightarrow> cpp_error + real" where
  "get_ask_volume sn = volume_loop (ss_asks sn) 0 (ss_asks_size sn) 0"

section \<open>Well-formed snapshots and the levels they show\<close>

definition snapshot_inv :: "OrderBookSnapShot \<Rightarrow> bool" where
  "snapshot_inv sn \<longleftrightarrow> length (ss_bids sn) = 200 \<and> length (ss_asks sn) = 200 \<and>
     ss_bids_size sn \<le> 200 \<and> ss_asks_size sn \<le> 200"

definition shown_bids :: "OrderBookSnapShot \<Rightarrow> OrderBookLevel list" where
  "shown_bids sn = take (ss_bids_size sn) (ss_bids sn)"

definition shown_asks :: "OrderBookSnapShot \<Rightarrow> OrderBookLevel list" where
  "shown_asks sn = take (ss_asks_size sn) (ss_asks sn)"

lemma new_snapshot_inv [simp]: "snapshot_inv new_snapshot"
  by (simp add: snapshot_inv_def new_snapshot_def)

lemma refresh_inv [simp]:
  "snapshot_inv sn \<Longrightarrow> snapshot_inv (refresh (resize (update_instrument sn i) n))"
  by (simp add: snapshot_inv_def refresh_def resize_def update_instrument_def)

lemma take_Suc_update: "n < length xs \<Longrightarrow> take (Suc n) (xs[n := x]) = take n xs @ [x]"
  by (simp add: take_Suc_conv_app_nth)

lemma add_bid_ok:
  assumes "snapshot_inv sn" and "ss_bids_size sn < ss_max_levels sn" and "ss_bids_size sn < 200"
  obtains sn' where "add_bid sn p q = Inr sn'" and "snapshot_inv sn'"
    and "shown_bids sn' = shown_bids sn @ [level p q]"
    and "ss_bids_size sn' = Suc (ss_bids_size sn)"
    and "ss_asks sn' = ss_asks sn" and "ss_asks_size sn' = ss_asks_size sn"
    and "ss_max_levels sn' = ss_max_levels sn" and "ss_instrument sn' = ss_instrument sn"
  using assms by (simp add: add_bid_def snapshot_inv_def shown_bids_def take_Suc_update)

lemma add_ask_ok:
  assumes "snapshot_inv sn" and "ss_asks_size sn < ss_max_levels sn" and "ss_asks_size sn < 200"
  obtains sn' where "add_ask sn p q = Inr sn'" and "snapshot_inv sn'"
    and "shown_asks sn' = shown_asks sn @ [level p q]"
    and "ss_asks_size sn' = Suc (ss_asks_size sn)"
    and "ss_bids sn' = ss_bids sn" and "ss_bids_size sn' = ss_bids_size sn"
    and "ss_max_levels sn' = ss_max_levels sn" and "ss_instrument sn' = ss_instrument sn"
  using assms by (simp add: add_ask_def snapshot_inv_def shown_asks_def take_Suc_update)

lemma volume_loop_sum:
  "i + n \<le> length ls \<Longrightarrow>
   volume_loop ls i n v = Inr (v + sum_list (map lv_quantity (take n (drop i ls))))"
proof (induction n arbitrary: i v)
  case (Suc n)
  then have "drop i ls = ls ! i # drop (Suc i) ls" by (intro Cons_nth_drop_Suc [symmetric]) simp
  then show ?case using Suc by (simp add: vec_at_def)
qed simp

end
