(* ===== verification/Order_Book.thy ===== *)
theory Order_Book
  imports Order_Book_Side Order_Book_Snapshot
begin

text \<open>
  The order book (\<^verbatim>\<open>server_app/order_book/order_book.h\<close>): a bid side and an ask side over
  the same price range, updates of single levels and of whole snapshots, the re-centring of
  the range when the best prices come near its edge, and the snapshot the book publishes.
\<close>

section \<open>The data model and the operations\<close>

datatype OrderBookUpdateType = Add | Update | Remove

record OrderBookUpdate =
  up_instrument :: "nat option"
  up_trace_id :: nat
  up_side :: OrderBookSideType
  up_type :: OrderBookUpdateType
  up_price :: real
  up_quantity :: real

record OrderBook =
  m_bids :: OrderBookSide
  m_asks :: OrderBookSide
  m_instrument :: "nat option"
  m_rebase_delta :: real

definition DEFAULT_REBASE_DELTA_RATIO :: real where
  "DEFAULT_REBASE_DELTA_RATIO = 1 / 10"

definition new_order_book ::
  "nat option \<Rightarrow> real \<Rightarrow> real \<Rightarrow> nat \<Rightarrow> real \<Rightarrow> cpp_error + OrderBook" where
  "new_order_book instr base_price tick_size depth delta =
     sum_bind (new_side Bid base_price tick_size depth) (\<lambda>b.
     sum_bind (new_side Ask base_price tick_size depth) (\<lambda>a.
       Inr \<lparr> m_bids = b, m_asks = a, m_instrument = instr, m_rebase_delta = delta \<rparr>))"

definition new_order_book_default ::
  "nat option \<Rightarrow> real \<Rightarrow> real \<Rightarrow> nat \<Rightarrow> cpp_error + OrderBook" where
  "new_order_book_default instr base_price tick_size depth =
     new_order_book instr base_price tick_size depth
       (tick_size * real depth * DEFAULT_REBASE_DELTA_RATIO)"

definition reset :: "OrderBook \<Rightarrow> OrderBook" where
  "reset ob = ob\<lparr> m_bids := clear (m_bids ob), m_asks := clear (m_asks ob) \<rparr>"

definition has_spread :: "OrderBook \<Rightarrow> bool" where
  "has_spread ob \<longleftrightarrow> has_top (m_bids ob) \<and> has_top (m_asks ob)"

definition best_bid_price :: "OrderBook \<Rightarrow> real" where
  "best_bid_price ob = get_top_price (m_bids ob)"

definition best_ask_price :: "OrderBook \<Rightarrow> real" where
  "best_ask_price ob = get_top_price (m_asks ob)"

definition best_bid_quantity :: "OrderBook \<Rightarrow> cpp_error + real" where
  "best_bid_quantity ob = get_top_quantity (m_bids ob)"

definition best_ask_quantity :: "OrderBook \<Rightarrow> cpp_error + real" where
  "best_ask_quantity ob = get_top_quantity (m_asks ob)"

definition get_bid_quantity :: "OrderBook \<Rightarrow> real \<Rightarrow> real" where
  "get_bid_quantity ob p = get_quantity (m_bids ob) p"

definition get_ask_quantity :: "OrderBook \<Rightarrow> real \<Rightarrow> real" where
  "get_ask_quantity ob p = get_quantity (m_asks ob) p"

definition should_rebase :: "OrderBook \<Rightarrow> bool" where
  "should_rebase ob =
     (if \<not> has_spread ob then False
      else in_rebase_trigger_zone (m_bids ob) (best_bid_price ob) (m_rebase_delta ob) \<or>
           in_rebase_trigger_zone (m_asks ob) (best_ask_price ob) (m_rebase_delta ob))"

definition move_book :: "OrderBook \<Rightarrow> real \<Rightarrow> cpp_error + OrderBook" where
  "move_book ob new_base_price =
     sum_bind (move_to_new_base_price (m_bids ob) new_base_price) (\<lambda>b.
     sum_bind (move_to_new_base_price (m_asks ob) new_base_price) (\<lambda>a.
       Inr (ob\<lparr> m_bids := b, m_asks := a \<rparr>)))"

definition maybe_rebase :: "OrderBook \<Rightarrow> cpp_error + OrderBook" where
  "maybe_rebase ob = (if \<not> should_rebase ob then Inr ob else move_book ob (best_bid_price ob))"

definition apply_update_without_rebase :: "OrderBook \<Rightarrow> OrderBookUpdate \<Rightarrow> OrderBook" where
  "apply_update_without_rebase ob u =
     (let change = (\<lambda>s. case up_type u of
                      Add \<Rightarrow> set_level s (up_price u) (up_quantity u)
                    | Update \<Rightarrow> set_level s (up_price u) (up_quantity u)
                    | Remove \<Rightarrow> remove_level s (up_price u))
      in if up_side u = Bid then ob\<lparr> m_bids := change (m_bids ob) \<rparr>
         else ob\<lparr> m_asks := change (m_asks ob) \<rparr>)"

definition apply_update :: "OrderBook \<Rightarrow> OrderBookUpdate \<Rightarrow> cpp_error + OrderBook" where
  "apply_update ob u = maybe_rebase (apply_update_without_rebase ob u)"

text \<open>The loops of \<^verbatim>\<open>apply_update(const OrderBookSnapShot&)\<close>: \<open>n\<close> entries from \<open>i\<close> on.\<close>

fun set_levels ::
  "OrderBookSide \<Rightarrow> OrderBookLevel list \<Rightarrow> nat \<Rightarrow> nat \<Rightarrow> cpp_error + OrderBookSide" where
  "set_levels s ls i 0 = Inr s"
| "set_levels s ls i (Suc n) =
     sum_bind (vec_at ls i) (\<lambda>l. set_levels (set_level s (lv_price l) (lv_quantity l)) ls (Suc i) n)"

definition apply_snapshot :: "OrderBook \<Rightarrow> OrderBookSnapShot \<Rightarrow> cpp_error + OrderBook" where
  "apply_snapshot ob sn =
     (let ob1 = reset ob in
      sum_bind (set_levels (m_bids ob1) (ss_bids sn) 0 (ss_bids_size sn)) (\<lambda>b.
      sum_bind (set_levels (m_asks ob1) (ss_asks sn) 0 (ss_asks_size sn)) (\<lambda>a.
        maybe_rebase (ob1\<lparr> m_bids := b, m_asks := a \<rparr>))))"

definition book_update ::
  "OrderBook \<Rightarrow> OrderBookSideType \<Rightarrow> OrderBookUpdateType \<Rightarrow> real \<Rightarrow> real \<Rightarrow> OrderBookUpdate" where
  "book_update ob sd ty p q = \<lparr> up_instrument = m_instrument ob, up_trace_id = 0,
     up_side = sd, up_type = ty, up_price = p, up_quantity = q \<rparr>"

definition set_bid :: "OrderBook \<Rightarrow> real \<Rightarrow> real \<Rightarrow> cpp_error + OrderBook" where
  "set_bid ob p q = apply_update ob (book_update ob Bid Update p q)"

definition set_ask :: "OrderBook \<Rightarrow> real \<Rightarrow> real \<Rightarrow> cpp_error + OrderBook" where
  "set_ask ob p q = apply_update ob (book_update ob Ask Update p q)"

definition remove_bid :: "OrderBook \<Rightarrow> real \<Rightarrow> cpp_error + OrderBook" where
  "remove_bid ob p = apply_update ob (book_update ob Bid Remove p 0)"

definition remove_ask :: "OrderBook \<Rightarrow> real \<Rightarrow> cpp_error + OrderBook" where
  "remove_ask ob p = apply_update ob (book_update ob Ask Remove p 0)"

definition reset_book_base_price :: "OrderBook \<Rightarrow> real \<Rightarrow> OrderBook" where
  "reset_book_base_price ob p =
     ob\<lparr> m_bids := reset_base_price (m_bids ob) p, m_asks := reset_base_price (m_asks ob) p \<rparr>"

definition set_rebase_delta :: "OrderBook \<Rightarrow> real \<Rightarrow> OrderBook" where
  "set_rebase_delta ob delta = ob\<lparr> m_rebase_delta := delta \<rparr>"

definition spread :: "OrderBook \<Rightarrow> real" where
  "spread ob = (if \<not> has_spread ob then 0 else best_ask_price ob - best_bid_price ob)"

definition mid_price :: "OrderBook \<Rightarrow> real" where
  "mid_price ob =
     (if \<not> has_spread ob then 0 else (best_bid_price ob + best_ask_price ob) * (1 / 2))"

definition crossed :: "OrderBook \<Rightarrow> bool" where
  "crossed ob = (if \<not> has_spread ob then False else best_bid_price ob \<ge> best_ask_price ob)"

text \<open>
  The two loops of \<^verbatim>\<open>get_order_book_snapshot\<close>. The bid loop counts its variable \<open>i\<close>
  down from the top index plus one, the ask loop counts its index up.
\<close>

fun fill_bids ::
  "OrderBookSide \<Rightarrow> nat \<Rightarrow> nat \<Rightarrow> nat \<Rightarrow> OrderBookSnapShot \<Rightarrow> cpp_error + OrderBookSnapShot" where
  "fill_bids s levels 0 bid_count sn = Inr sn"
| "fill_bids s levels (Suc index) bid_count sn =
     (if bid_count < levels then
        let q = quantity_at_index s index in
        if q \<le> 0 then fill_bids s levels index bid_count sn
        else sum_bind (add_bid sn (index_to_price s index) q)
               (\<lambda>sn'. fill_bids s levels index (bid_count + 1) sn')
      else Inr sn)"

function fill_asks ::
  "OrderBookSide \<Rightarrow> nat \<Rightarrow> nat \<Rightarrow> nat \<Rightarrow> OrderBookSnapShot \<Rightarrow> cpp_error + OrderBookSnapShot" where
  "fill_asks s levels index ask_count sn =
     (if index < length (m_levels s) \<and> ask_count < levels then
        let q = quantity_at_index s index in
        if q \<le> 0 then fill_asks s levels (Suc index) ask_count sn
        else sum_bind (add_ask sn (index_to_price s index) q)
               (\<lambda>sn'. fill_asks s levels (Suc index) (ask_count + 1) sn')
      else Inr sn)"
  by pat_completeness auto
termination
  by (relation "measure (\<lambda>(s, levels, index, c, sn). length (m_levels s) - index)") auto

declare fill_asks.simps [simp del]

definition get_order_book_snapshot ::
  "OrderBook \<Rightarrow> nat \<Rightarrow> OrderBookSnapShot \<Rightarrow> cpp_error + OrderBookSnapShot" where
  "get_order_book_snapshot ob levels acquired =
     (let sn = refresh (resize (update_instrument acquired (m_instrument ob)) levels) in
      sum_bind (if has_top (m_bids ob)
                then fill_bids (m_bids ob) levels (m_top_index (m_bids ob) + 1) 0 sn
                else Inr sn) (\<lambda>sn1.
        if has_top (m_asks ob)
        then fill_asks (m_asks ob) levels (m_top_index (m_asks ob)) 0 sn1
        else Inr sn1))"

section \<open>The invariant of a book\<close>

definition same_range :: "OrderBookSide \<Rightarrow> OrderBookSide \<Rightarrow> bool" where
  "same_range s s' \<longleftrightarrow> m_base_price s' = m_base_price s \<and> m_tick_size s' = m_tick_size s \<and>
     length (m_levels s') = length (m_levels s)"

definition book_inv :: "OrderBook \<Rightarrow> bool" where
  "book_inv ob \<longleftrightarrow> side_inv (m_bids ob) \<and> side_inv (m_asks ob) \<and> m_side (m_bids ob) = Bid \<and>
     m_side (m_asks ob) = Ask \<and> same_range (m_bids ob) (m_asks ob)"

lemma book_invD:
  assumes "book_inv ob"
  shows "side_inv (m_bids ob)" and "side_inv (m_asks ob)" and "m_side (m_bids ob) = Bid"
    and "m_side (m_asks ob) = Ask" and "same_range (m_bids ob) (m_asks ob)"
  using assms by (auto simp: book_inv_def)

lemma new_order_book_inv [inv_intros]:
  assumes "new_order_book instr b t d delta = Inr ob"
  shows "book_inv ob"
proof -
  obtain x y where x: "new_side Bid b t d = Inr x" and y: "new_side Ask b t d = Inr y"
    and ob: "m_bids ob = x" "m_asks ob = y"
    using assms by (auto simp: new_order_book_def)
  from new_side_fields [OF x] new_side_fields [OF y] new_side_inv [OF x] new_side_inv [OF y] ob
  show ?thesis by (simp add: book_inv_def same_range_def)
qed

lemma clear_frame [frame_simps, simp]:
  "m_side (clear s) = m_side s" "m_base_price (clear s) = m_base_price s"
  "m_tick_size (clear s) = m_tick_size s" "length (m_levels (clear s)) = length (m_levels s)"
  by (simp_all add: clear_def)

lemma remove_level_frame [frame_simps, simp]:
  "m_side (remove_level s p) = m_side s" "m_base_price (remove_level s p) = m_base_price s"
  "m_tick_size (remove_level s p) = m_tick_size s"
  "length (m_levels (remove_level s p)) = length (m_levels s)"
  by (simp_all add: remove_level_def)

lemma reset_inv [inv_intros]: "book_inv ob \<Longrightarrow> book_inv (reset ob)"
  by (simp add: book_inv_def reset_def same_range_def clear_inv)

lemma reset_book_base_price_inv [inv_intros]:
  "book_inv ob \<Longrightarrow> book_inv (reset_book_base_price ob p)"
  by (auto simp: book_inv_def reset_book_base_price_def same_range_def reset_base_price_inv)
    (auto simp: reset_base_price_def clear_def)

lemma apply_update_without_rebase_inv [inv_intros]:
  "book_inv ob \<Longrightarrow> book_inv (apply_update_without_rebase ob u)"
  by (auto simp: book_inv_def apply_update_without_rebase_def same_range_def Let_def
      set_level_inv remove_level_inv split: OrderBookUpdateType.splits)

text \<open>Reading \<open>n\<close> entries of a snapshot is a sequence of writes to the side.\<close>

lemma set_levels_eq:
  "i + n \<le> length ls \<Longrightarrow> set_levels s ls i n =
     Inr (bids.put_all s (map (\<lambda>l. (lv_price l, lv_quantity l)) (take n (drop i ls))))"
proof (induction n arbitrary: i s)
  case (Suc n)
  have "drop i ls = ls ! i # drop (Suc i) ls"
    using Suc.prems by (intro Cons_nth_drop_Suc [symmetric]) simp
  then show ?case using Suc by (simp add: vec_at_def)
qed simp

lemma put_all_frame [simp]:
  "m_side (bids.put_all s pqs) = m_side s"
  "m_base_price (bids.put_all s pqs) = m_base_price s"
  "m_tick_size (bids.put_all s pqs) = m_tick_size s"
  "length (m_levels (bids.put_all s pqs)) = length (m_levels s)"
  by (induction pqs arbitrary: s) simp_all

lemma put_all_inv: "side_inv s \<Longrightarrow> side_inv (bids.put_all s pqs)"
  by (induction pqs arbitrary: s) (simp_all add: set_level_inv)

section \<open>Re-centring the book\<close>

text \<open>
  The new base price is the best bid, so both sides move by the same whole number of ticks:
  the distance of the best bid from the centre of the array.
\<close>

lemma top_price_base:
  assumes "side_inv s" and "has_top s"
  defines "d \<equiv> int (m_top_index s) - int (m_center_index s)"
  shows "get_top_price s = m_base_price s + of_int d * m_tick_size s" and "\<bar>d\<bar> < 2 ^ 61"
    and "m_top_index s < length (m_levels s)"
proof -
  have "side_top s = Some (m_top_index s)" using assms(2) by (simp add: side_top_def)
  then show lt: "m_top_index s < length (m_levels s)"
    using side_top_Some [OF assms(1)] by (simp add: non_empty_levels_def)
  have "m_top_index s \<le> MAX_LEVELS" using lt side_invD(4) [OF assms(1)] by linarith
  then show "get_top_price s = m_base_price s + of_int d * m_tick_size s"
    using assms(2) index_to_price_eq [OF assms(1)]
    by (simp add: get_top_price_def has_top_def d_def)
  show "\<bar>d\<bar> < 2 ^ 61" using lt side_inv_size [OF assms(1)] by (auto simp: d_def)
qed

lemma move_book_shift:
  assumes "book_inv ob" and "b = m_base_price (m_bids ob) + of_int d * m_tick_size (m_bids ob)"
    and "\<bar>d\<bar> < 2 ^ 61"
  obtains ob' where "move_book ob b = Inr ob'" and "book_inv ob'"
    and "m_instrument ob' = m_instrument ob" and "m_rebase_delta ob' = m_rebase_delta ob"
    and "shifted (m_bids ob) (m_bids ob') d" and "shifted (m_asks ob) (m_asks ob') d"
    and "\<And>j. j < length (m_levels (m_bids ob)) \<Longrightarrow> m_levels (m_bids ob') ! j =
      (if 0 \<le> int j + d \<and> nat (int j + d) \<in> non_empty_levels (m_bids ob)
       then m_levels (m_bids ob) ! nat (int j + d) else 0)"
    and "\<And>j. j < length (m_levels (m_asks ob)) \<Longrightarrow> m_levels (m_asks ob') ! j =
      (if 0 \<le> int j + d \<and> nat (int j + d) \<in> non_empty_levels (m_asks ob)
       then m_levels (m_asks ob) ! nat (int j + d) else 0)"
proof -
  note inv = book_invD [OF assms(1)]
  have b': "b = m_base_price (m_asks ob) + of_int d * m_tick_size (m_asks ob)"
    using assms(2) inv(5) by (simp add: same_range_def)
  obtain s where s: "move_to_new_base_price (m_bids ob) b = Inr s" "side_inv s"
    "m_side s = m_side (m_bids ob)" "shifted (m_bids ob) s d"
    "\<And>j. j < length (m_levels (m_bids ob)) \<Longrightarrow> m_levels s ! j =
      (if 0 \<le> int j + d \<and> nat (int j + d) \<in> non_empty_levels (m_bids ob)
       then m_levels (m_bids ob) ! nat (int j + d) else 0)"
    using move_to_new_base_price_shift [OF inv(1) assms(2,3)] by metis
  obtain a where a: "move_to_new_base_price (m_asks ob) b = Inr a" "side_inv a"
    "m_side a = m_side (m_asks ob)" "shifted (m_asks ob) a d"
    "\<And>j. j < length (m_levels (m_asks ob)) \<Longrightarrow> m_levels a ! j =
      (if 0 \<le> int j + d \<and> nat (int j + d) \<in> non_empty_levels (m_asks ob)
       then m_levels (m_asks ob) ! nat (int j + d) else 0)"
    using move_to_new_base_price_shift [OF inv(2) b' assms(3)] by metis
  let ?ob = "ob\<lparr> m_bids := s, m_asks := a \<rparr>"
  have inv': "book_inv ?ob"
    using s a inv by (simp add: book_inv_def same_range_def shifted_def)
  have eq: "move_book ob b = Inr ?ob" using s(1) a(1) by (simp add: move_book_def)
  show thesis by (rule that [OF eq inv']) (use s a in simp_all)
qed

lemma maybe_rebase_inv [inv_intros]:
  assumes "book_inv ob"
  obtains ob' where "maybe_rebase ob = Inr ob'" and "book_inv ob'"
proof (cases "should_rebase ob")
  case False
  then show thesis using that assms by (simp add: maybe_rebase_def)
next
  case True
  then have "has_top (m_bids ob)" by (simp add: should_rebase_def has_spread_def split: if_splits)
  note * = top_price_base [OF book_invD(1) [OF assms] this]
  from move_book_shift [OF assms *(1) *(2)] that True show thesis
    by (auto simp: maybe_rebase_def best_bid_price_def)
qed

lemma move_side_fields:
  assumes "move_to_new_base_price s b = Inr s'"
  shows "m_side s' = m_side s" and "m_base_price s' = b" and "m_tick_size s' = m_tick_size s"
    and "length (m_levels s') = length (m_levels s)"
  using assms by (auto simp: move_to_new_base_price_def dest: new_side_fields)

lemma move_book_inv [inv_intros]:
  assumes "move_book ob b = Inr ob'" and "book_inv ob"
  shows "book_inv ob'"
proof -
  obtain x y where x: "move_to_new_base_price (m_bids ob) b = Inr x"
    and y: "move_to_new_base_price (m_asks ob) b = Inr y" and ob': "m_bids ob' = x" "m_asks ob' = y"
    using assms(1) by (auto simp: move_book_def)
  from move_side_fields [OF x] move_side_fields [OF y] move_to_new_base_price_inv [OF x]
    move_to_new_base_price_inv [OF y] ob' assms(2)
  show ?thesis by (simp add: book_inv_def same_range_def)
qed

lemma apply_update_ok:
  assumes "book_inv ob"
  obtains ob' where "apply_update ob u = Inr ob'" and "book_inv ob'"
  using maybe_rebase_inv [OF apply_update_without_rebase_inv [OF assms]]
  unfolding apply_update_def by blast

text \<open>The book between the loops of \<^verbatim>\<open>apply_update(snapshot)\<close> and the re-centring.\<close>

definition loaded_book :: "OrderBook \<Rightarrow> OrderBookSnapShot \<Rightarrow> OrderBook" where
  "loaded_book ob sn = (reset ob)\<lparr>
     m_bids := bids.put_all (clear (m_bids ob))
                 (map (\<lambda>l. (lv_price l, lv_quantity l)) (shown_bids sn)),
     m_asks := asks.put_all (clear (m_asks ob))
                 (map (\<lambda>l. (lv_price l, lv_quantity l)) (shown_asks sn)) \<rparr>"

lemma apply_snapshot_eq:
  "snapshot_inv sn \<Longrightarrow> apply_snapshot ob sn = maybe_rebase (loaded_book ob sn)"
  by (simp add: apply_snapshot_def Let_def reset_def set_levels_eq snapshot_inv_def
      loaded_book_def shown_bids_def shown_asks_def)

lemma loaded_book_inv [inv_intros]: "book_inv ob \<Longrightarrow> book_inv (loaded_book ob sn)"
  by (simp add: loaded_book_def book_inv_def same_range_def reset_def put_all_inv clear_inv)

lemma apply_snapshot_ok:
  assumes "book_inv ob" and "snapshot_inv sn"
  obtains ob' where "apply_snapshot ob sn = Inr ob'" and "book_inv ob'"
  using maybe_rebase_inv [OF loaded_book_inv [OF assms(1)]]
  unfolding apply_snapshot_eq [OF assms(2)] by blast

section \<open>The published snapshot\<close>

definition entries :: "OrderBookSide \<Rightarrow> nat list \<Rightarrow> OrderBookLevel list" where
  "entries s is = [level (index_to_price s i) (quantity_at_index s i). i \<leftarrow> is,
                   0 < quantity_at_index s i]"

lemma entries_simps [simp]:
  "entries s [] = []"
  "entries s (i # is) =
     (if 0 < quantity_at_index s i
      then level (index_to_price s i) (quantity_at_index s i) # entries s is else entries s is)"
  "entries s (is @ js) = entries s is @ entries s js"
  by (simp_all add: entries_def)

lemma entries_empty: "(\<And>i. i \<in> set is \<Longrightarrow> quantity_at_index s i \<le> 0) \<Longrightarrow> entries s is = []"
  by (induction "is") (auto simp: not_less)

lemma fill_bids_spec:
  assumes "snapshot_inv sn" and "ss_bids_size sn = c" and "ss_max_levels sn = levels"
    and "levels \<le> 200" and "c \<le> levels"
  shows "\<exists>sn'. fill_bids s levels i c sn = Inr sn' \<and> snapshot_inv sn' \<and>
    shown_bids sn' = shown_bids sn @ take (levels - c) (entries s (rev [0..<i])) \<and>
    ss_asks sn' = ss_asks sn \<and> ss_asks_size sn' = ss_asks_size sn \<and>
    ss_max_levels sn' = levels \<and> ss_instrument sn' = ss_instrument sn"
  using assms(1,2,3,5)
proof (induction i arbitrary: c sn)
  case 0
  then show ?case by simp
next
  case (Suc i)
  show ?case
  proof (cases "c < levels \<and> 0 < quantity_at_index s i")
    case True
    let ?p = "index_to_price s i" and ?q = "quantity_at_index s i"
    obtain sn1 where sn1: "add_bid sn ?p ?q = Inr sn1" "snapshot_inv sn1"
      "shown_bids sn1 = shown_bids sn @ [level ?p ?q]" "ss_bids_size sn1 = Suc c"
      "ss_asks sn1 = ss_asks sn" "ss_asks_size sn1 = ss_asks_size sn"
      "ss_max_levels sn1 = levels" "ss_instrument sn1 = ss_instrument sn"
      using add_bid_ok [of sn ?p ?q] Suc.prems True assms(4) by auto
    have "Suc (levels - Suc c) = levels - c" using True Suc_diff_Suc by blast
    then show ?thesis
      using Suc.IH [OF sn1(2,4,7)] True sn1 by (auto simp: Let_def take_Cons')
  next
    case False
    then show ?thesis using Suc.IH [OF Suc.prems] Suc.prems by (auto simp: Let_def)
  qed
qed

lemma fill_asks_spec:
  assumes "snapshot_inv sn" and "ss_asks_size sn = c" and "ss_max_levels sn = levels"
    and "levels \<le> 200" and "c \<le> levels"
  shows "\<exists>sn'. fill_asks s levels i c sn = Inr sn' \<and> snapshot_inv sn' \<and>
    shown_asks sn' = shown_asks sn @ take (levels - c) (entries s [i..<length (m_levels s)]) \<and>
    ss_bids sn' = ss_bids sn \<and> ss_bids_size sn' = ss_bids_size sn \<and>
    ss_max_levels sn' = levels \<and> ss_instrument sn' = ss_instrument sn"
  using assms
proof (induction s levels i c sn rule: fill_asks.induct)
  case (1 s levels i c sn)
  note unf = fill_asks.simps [of s levels i c sn]
  show ?case
  proof (cases "i < length (m_levels s) \<and> c < levels")
    case False
    then show ?thesis using "1.prems" by (auto simp: unf)
  next
    case True
    then have up: "[i..<length (m_levels s)] = i # [Suc i..<length (m_levels s)]"
      by (simp add: upt_conv_Cons)
    let ?p = "index_to_price s i" and ?q = "quantity_at_index s i"
    show ?thesis
    proof (cases "?q \<le> 0")
      case q: True
      then show ?thesis
        using "1.IH"(1) [OF True refl] True "1.prems" up by (simp add: unf)
    next
      case q: False
      obtain sn1 where sn1: "add_ask sn ?p ?q = Inr sn1" "snapshot_inv sn1"
        "shown_asks sn1 = shown_asks sn @ [level ?p ?q]" "ss_asks_size sn1 = Suc c"
        "ss_bids sn1 = ss_bids sn" "ss_bids_size sn1 = ss_bids_size sn"
        "ss_max_levels sn1 = levels" "ss_instrument sn1 = ss_instrument sn"
        using add_ask_ok [of sn ?p ?q] "1.prems" True by auto
      have "Suc (levels - Suc c) = levels - c" using True Suc_diff_Suc by blast
      then show ?thesis
        using "1.IH"(2) [OF True refl q, of sn1] True q sn1 "1.prems"(4) up
        by (auto simp: unf Let_def take_Cons')
    qed
  qed
qed

text \<open>Everything above the top of the bids and below the top of the asks is empty.\<close>

lemma bid_entries_from_top:
  assumes "side_inv s" and "m_side s = Bid" and "has_top s"
  shows "entries s (rev [0..<m_top_index s + 1]) = entries s (rev [0..<length (m_levels s)])"
proof -
  have lt: "m_top_index s < length (m_levels s)" by (rule top_price_base [OF assms(1,3)])
  have top: "side_top s = Some (m_top_index s)" using assms(3) by (simp add: side_top_def)
  have "[0..<length (m_levels s)] =
        [0..<m_top_index s + 1] @ [m_top_index s + 1..<length (m_levels s)]"
    using lt by (metis Suc_eq_plus1 Suc_leI le_add_diff_inverse upt_add_eq_append zero_le)
  moreover have "entries s (rev [m_top_index s + 1..<length (m_levels s)]) = []"
    using bids.top_Some [of s "m_top_index s"] top assms(1,2)
    by (intro entries_empty) (fastforce simp: not_le)
  ultimately show ?thesis by simp
qed

lemma ask_entries_from_top:
  assumes "side_inv s" and "m_side s = Ask" and "has_top s"
  shows "entries s [m_top_index s..<length (m_levels s)] = entries s [0..<length (m_levels s)]"
proof -
  have lt: "m_top_index s < length (m_levels s)" by (rule top_price_base [OF assms(1,3)])
  have top: "side_top s = Some (m_top_index s)" using assms(3) by (simp add: side_top_def)
  have "[0..<length (m_levels s)] = [0..<m_top_index s] @ [m_top_index s..<length (m_levels s)]"
    using lt by (metis le_add_diff_inverse less_imp_le_nat upt_add_eq_append zero_le)
  moreover have "entries s [0..<m_top_index s] = []"
  proof (rule entries_empty, rule ccontr)
    fix i
    assume "i \<in> set [0..<m_top_index s]" and "\<not> quantity_at_index s i \<le> 0"
    then have "i < m_top_index s" "i < length (m_levels s)" "0 < quantity_at_index s i"
      using lt by auto
    with asks.top_Some [of s "m_top_index s"] top assms(1,2) show False by fastforce
  qed
  ultimately show ?thesis by simp
qed

lemma no_top_entries:
  assumes "side_inv s" and "\<not> has_top s"
  shows "entries s [0..<length (m_levels s)] = []"
    and "entries s (rev [0..<length (m_levels s)]) = []"
proof -
  have "\<forall>j<length (m_levels s). quantity_at_index s j \<le> 0"
    using side_top_None [OF assms(1)] assms(2) by (simp add: side_top_def)
  then show "entries s [0..<length (m_levels s)] = []"
    and "entries s (rev [0..<length (m_levels s)]) = []" by (auto intro!: entries_empty)
qed

section \<open>Properties\<close>

inductive reachable_book :: "OrderBook \<Rightarrow> bool" where
  created: "new_order_book instr b t d delta = Inr ob \<Longrightarrow> reachable_book ob"
| updated: "reachable_book ob \<Longrightarrow> apply_update ob u = Inr ob' \<Longrightarrow> reachable_book ob'"
| loaded: "reachable_book ob \<Longrightarrow> snapshot_inv sn \<Longrightarrow> apply_snapshot ob sn = Inr ob' \<Longrightarrow>
    reachable_book ob'"
| cleared: "reachable_book ob \<Longrightarrow> reachable_book (reset ob)"
| moved: "reachable_book ob \<Longrightarrow> move_book ob b = Inr ob' \<Longrightarrow> reachable_book ob'"
| base_reset: "reachable_book ob \<Longrightarrow> reachable_book (reset_book_base_price ob p)"
| delta_set: "reachable_book ob \<Longrightarrow> reachable_book (set_rebase_delta ob delta)"

lemma reachable_book_inv: "reachable_book ob \<Longrightarrow> book_inv ob"
proof (induction rule: reachable_book.induct)
  case (updated ob u ob')
  then show ?case by (metis apply_update_ok sum.inject(2))
next
  case (loaded ob sn ob')
  then show ?case by (metis apply_snapshot_ok sum.inject(2))
next
  case (delta_set ob delta)
  then show ?case by (simp add: set_rebase_delta_def book_inv_def)
qed (auto intro: inv_intros)

definition demo_book :: OrderBook where
  "demo_book = \<lparr> m_bids = demo_side, m_asks = demo_side\<lparr>m_side := Ask\<rparr>, m_instrument = Some 0,
     m_rebase_delta = - 1 \<rparr>"

lemma demo_book_reachable: "reachable_book demo_book"
proof -
  have "new_side Ask 100 1 4 = Inr (demo_side\<lparr>m_side := Ask\<rparr>)"
    using demo_side_new by (auto simp: new_side_def demo_side_def split: if_splits)
  then have "new_order_book (Some 0) 100 1 4 (- 1) = Inr demo_book"
    by (simp add: new_order_book_def demo_side_new demo_book_def)
  then show ?thesis by (rule created)
qed

text \<open>
  (C19) The entry points of a book never throw once the book exists: every level update and
  every well-formed snapshot is applied, also when it makes the book move its price range.
\<close>

theorem book_updates_never_throw:
  assumes "reachable_book ob"
  shows "(\<exists>ob'. apply_update ob u = Inr ob' \<and> reachable_book ob') \<and>
    (snapshot_inv sn \<longrightarrow> (\<exists>ob'. apply_snapshot ob sn = Inr ob' \<and> reachable_book ob'))"
  using apply_update_ok [OF reachable_book_inv [OF assms], of u]
    apply_snapshot_ok [OF reachable_book_inv [OF assms], of sn] updated [OF assms] loaded [OF assms]
  by metis

theorem book_updates_never_throw_witness:
  "(\<exists>ob'. set_bid demo_book 101 5 = Inr ob' \<and> reachable_book ob') \<and>
   (\<exists>ob'. apply_snapshot demo_book new_snapshot = Inr ob' \<and> reachable_book ob')"
  using book_updates_never_throw [OF demo_book_reachable, of "book_update demo_book Bid Update 101 5" new_snapshot]
  by (simp add: set_bid_def)

text \<open>
  The best prices are right. When the book has bids, the best bid price is a price of
  the bid side with a positive quantity, and no price with a positive bid quantity lies above
  its half-tick neighbourhood; the asks mirror this.
\<close>

theorem best_prices_are_best:
  assumes "reachable_book ob"
  shows "(has_top (m_bids ob) \<longrightarrow> 0 < get_bid_quantity ob (best_bid_price ob) \<and>
      (\<forall>p. 0 < get_bid_quantity ob p \<longrightarrow> p \<le> best_bid_price ob + m_tick_size (m_bids ob) / 2)) \<and>
    (has_top (m_asks ob) \<longrightarrow> 0 < get_ask_quantity ob (best_ask_price ob) \<and>
      (\<forall>p. 0 < get_ask_quantity ob p \<longrightarrow> best_ask_price ob - m_tick_size (m_asks ob) / 2 \<le> p))"
proof -
  note inv = book_invD [OF reachable_book_inv [OF assms]]
  have top: "0 < get_quantity s (get_top_price s)" "m_top_index s < length (m_levels s)"
    "side_top s = Some (m_top_index s)" "get_top_price s = index_to_price s (m_top_index s)"
    if "side_inv s" "has_top s" for s
  proof -
    show t: "side_top s = Some (m_top_index s)" using that(2) by (simp add: side_top_def)
    show p: "get_top_price s = index_to_price s (m_top_index s)"
      using that(2) by (simp add: get_top_price_def has_top_def)
    have "m_top_index s \<in> non_empty_levels s" using side_top_Some [OF that(1)] t by blast
    then show "m_top_index s < length (m_levels s)" "0 < get_quantity s (get_top_price s)"
      unfolding p using price_to_index_index_to_price [OF that(1)]
      by (auto simp: non_empty_levels_def get_quantity_def Let_def)
  qed
  have near: "price_to_index s p < length (m_levels s)" "0 < quantity_at_index s (price_to_index s p)"
    "\<bar>p - index_to_price s (price_to_index s p)\<bar> \<le> m_tick_size s / 2"
    if "side_inv s" "0 < get_quantity s p" for s p
    using that price_to_index_nearest [OF that(1)]
    by (auto simp: get_quantity_def Let_def valid_price_def valid_index_def quantity_at_index_def
        split: if_splits)
  have "p \<le> best_bid_price ob + m_tick_size (m_bids ob) / 2"
    if "has_top (m_bids ob)" "0 < get_bid_quantity ob p" for p
    using near [OF inv(1), of p] that top [OF inv(1)] bids.top_Some [of "m_bids ob"] inv(1,3)
      index_to_price_mono_le [OF inv(1)]
    unfolding get_bid_quantity_def best_bid_price_def by (smt (verit))
  moreover have "best_ask_price ob - m_tick_size (m_asks ob) / 2 \<le> p"
    if "has_top (m_asks ob)" "0 < get_ask_quantity ob p" for p
    using near [OF inv(2), of p] that top [OF inv(2)] asks.top_Some [of "m_asks ob"] inv(2,4)
      index_to_price_mono_le [OF inv(2)]
    unfolding get_ask_quantity_def best_ask_price_def by (smt (verit))
  ultimately show ?thesis
    using top(1) [OF inv(1)] top(1) [OF inv(2)]
    by (auto simp: get_bid_quantity_def get_ask_quantity_def best_bid_price_def best_ask_price_def)
qed

text \<open>A concrete book with one bid and one ask.\<close>

definition demo_book2 :: OrderBook where
  "demo_book2 = demo_book\<lparr> m_bids := set_level (m_bids demo_book) 99 5,
                           m_asks := set_level (m_asks demo_book) 101 7 \<rparr>"

lemma demo_ask_index: "price_to_index (demo_side\<lparr>m_side := Ask\<rparr>) p = price_to_index demo_side p"
  by (simp add: price_to_index_def)

lemma demo_book2_side:
  "m_bids demo_book2 = \<lparr> m_side = Bid, m_base_price = 100, m_tick_size = 1, m_inv_tick_size = 1,
     m_center_index = 2, m_levels = [0, 5, 0, 0], m_non_empty_words = [2], m_top_index = 1 \<rparr>"
  "m_asks demo_book2 = \<lparr> m_side = Ask, m_base_price = 100, m_tick_size = 1, m_inv_tick_size = 1,
     m_center_index = 2, m_levels = [0, 0, 0, 7], m_non_empty_words = [8], m_top_index = 3 \<rparr>"
proof -
  have "set_level demo_side 99 5 = \<lparr> m_side = Bid, m_base_price = 100, m_tick_size = 1,
     m_inv_tick_size = 1, m_center_index = 2, m_levels = [0, 5, 0, 0], m_non_empty_words = [2],
     m_top_index = 1 \<rparr>"
    unfolding set_level_def demo_side_index Let_def
    by (simp add: demo_side_def is_better_top_def set_non_empty_def Let_def WORD_BITS_def)
  then show "m_bids demo_book2 = \<lparr> m_side = Bid, m_base_price = 100, m_tick_size = 1,
     m_inv_tick_size = 1, m_center_index = 2, m_levels = [0, 5, 0, 0], m_non_empty_words = [2],
     m_top_index = 1 \<rparr>" by (simp add: demo_book2_def demo_book_def)
  have upd: "[0, 0, 0, 0 :: real][3 := 7] = [0, 0, 0, 7]" by (simp add: numeral_eq_Suc)
  have "set_level (demo_side\<lparr>m_side := Ask\<rparr>) 101 7 = \<lparr> m_side = Ask, m_base_price = 100,
     m_tick_size = 1, m_inv_tick_size = 1, m_center_index = 2, m_levels = [0, 0, 0, 7],
     m_non_empty_words = [8], m_top_index = 3 \<rparr>"
    unfolding set_level_def demo_ask_index demo_side_index Let_def
    using upd by (simp add: demo_side_def is_better_top_def set_non_empty_def Let_def WORD_BITS_def)
  then show "m_asks demo_book2 = \<lparr> m_side = Ask, m_base_price = 100, m_tick_size = 1,
     m_inv_tick_size = 1, m_center_index = 2, m_levels = [0, 0, 0, 7], m_non_empty_words = [8],
     m_top_index = 3 \<rparr>" by (simp add: demo_book2_def demo_book_def)
qed

lemma demo_book2_prices:
  "has_top (m_bids demo_book2)" "has_top (m_asks demo_book2)"
  "best_bid_price demo_book2 = 99" "best_ask_price demo_book2 = 101"
  "m_rebase_delta demo_book2 = - 1"
  by (simp_all add: demo_book2_side has_top_def INVALID_INDEX_def best_bid_price_def
      best_ask_price_def get_top_price_def index_to_price_def to_i64_def)
    (simp add: demo_book2_def demo_book_def)

lemma demo_book2_range:
  "range_min_price (m_bids demo_book2) = 98" "range_max_price (m_bids demo_book2) = 101"
  "range_min_price (m_asks demo_book2) = 98" "range_max_price (m_asks demo_book2) = 101"
  by (simp_all add: range_min_price_def range_max_price_def demo_book2_side index_to_price_def
      to_i64_def)

lemma demo_book2_reachable: "reachable_book demo_book2"
proof -
  let ?u = "book_update demo_book Bid Update 99 5"
  let ?b = "demo_book\<lparr> m_bids := set_level (m_bids demo_book) 99 5 \<rparr>"
  let ?v = "book_update ?b Ask Update 101 7"
  have "\<not> has_spread ?b"
    by (simp add: has_spread_def has_top_def demo_book_def demo_side_def)
  then have "apply_update demo_book ?u = Inr ?b"
    by (simp add: apply_update_def apply_update_without_rebase_def book_update_def
        maybe_rebase_def should_rebase_def)
  then have b: "reachable_book ?b" by (rule updated [OF demo_book_reachable])
  have "\<not> should_rebase demo_book2"
    by (simp add: should_rebase_def in_rebase_trigger_zone_def near_boundary_def
        demo_book2_prices demo_book2_range)
  then have "apply_update ?b ?v = Inr demo_book2"
    by (simp add: apply_update_def apply_update_without_rebase_def book_update_def
        maybe_rebase_def demo_book2_def)
  then show ?thesis by (rule updated [OF b])
qed

theorem best_prices_are_best_witness:
  "0 < get_bid_quantity demo_book2 99 \<and> 0 < get_ask_quantity demo_book2 101 \<and>
   \<not> 0 < get_bid_quantity demo_book2 100"
  using best_prices_are_best [OF demo_book2_reachable]
  by (auto simp: demo_book2_prices) (auto simp: demo_book2_side dest!: spec [of _ 100])

lemma published_snapshot_of_inv:
  assumes "book_inv ob" and "snapshot_inv acquired" and "levels \<le> 200"
  shows "\<exists>sn. get_order_book_snapshot ob levels acquired = Inr sn \<and> snapshot_inv sn \<and>
    ss_instrument sn = m_instrument ob \<and>
    shown_bids sn = take levels (entries (m_bids ob) (rev [0..<length (m_levels (m_bids ob))])) \<and>
    shown_asks sn = take levels (entries (m_asks ob) [0..<length (m_levels (m_asks ob))])"
proof -
  note inv = book_invD [OF assms(1)]
  let ?sn = "refresh (resize (update_instrument acquired (m_instrument ob)) levels)"
  let ?bids = "take levels (entries (m_bids ob) (rev [0..<length (m_levels (m_bids ob))]))"
  let ?asks = "take levels (entries (m_asks ob) [0..<length (m_levels (m_asks ob))])"
  have sn: "snapshot_inv ?sn" "ss_bids_size ?sn = 0" "ss_asks_size ?sn = 0"
    "ss_max_levels ?sn = levels" "ss_instrument ?sn = m_instrument ob"
    "shown_bids ?sn = []" "shown_asks ?sn = []"
    using assms(2) refresh_inv
    by (auto simp: refresh_def resize_def update_instrument_def shown_bids_def shown_asks_def)
  obtain sn1 where sn1: "(if has_top (m_bids ob)
      then fill_bids (m_bids ob) levels (m_top_index (m_bids ob) + 1) 0 ?sn else Inr ?sn) = Inr sn1"
    "snapshot_inv sn1" "shown_bids sn1 = ?bids" "shown_asks sn1 = []" "ss_asks_size sn1 = 0"
    "ss_max_levels sn1 = levels" "ss_instrument sn1 = m_instrument ob"
    using fill_bids_spec [OF sn(1,2,4) assms(3), of "m_bids ob" "m_top_index (m_bids ob) + 1"] sn
      bid_entries_from_top [OF inv(1,3)] no_top_entries(2) [OF inv(1)]
    by (cases "has_top (m_bids ob)") (auto simp: shown_asks_def)
  obtain sn2 where sn2: "(if has_top (m_asks ob)
      then fill_asks (m_asks ob) levels (m_top_index (m_asks ob)) 0 sn1 else Inr sn1) = Inr sn2"
    "snapshot_inv sn2" "shown_asks sn2 = ?asks" "shown_bids sn2 = ?bids"
    "ss_instrument sn2 = m_instrument ob"
    using fill_asks_spec [OF sn1(2,5,6) assms(3), of "m_asks ob" "m_top_index (m_asks ob)"] sn1
      ask_entries_from_top [OF inv(2,4)] no_top_entries(1) [OF inv(2)]
    by (cases "has_top (m_asks ob)") (auto simp: shown_bids_def)
  have "get_order_book_snapshot ob levels acquired = Inr sn2"
    using sn1(1) sn2(1) by (simp add: get_order_book_snapshot_def Let_def)
  with sn2 show ?thesis by blast
qed

text \<open>
  (C2) The published snapshot. With a limit of at most 200 levels, and whatever the pooled
  snapshot object held before, the snapshot shows exactly the best \<open>levels\<close> non-empty bids
  from the highest price down and the best \<open>levels\<close> non-empty asks from the lowest price up,
  each with the level's price and quantity, and names the book's instrument.
\<close>

theorem published_snapshot_is_best_levels:
  assumes "reachable_book ob" and "snapshot_inv acquired" and "levels \<le> 200"
  shows "\<exists>sn. get_order_book_snapshot ob levels acquired = Inr sn \<and> snapshot_inv sn \<and>
    ss_instrument sn = m_instrument ob \<and>
    shown_bids sn = take levels (entries (m_bids ob) (rev [0..<length (m_levels (m_bids ob))])) \<and>
    shown_asks sn = take levels (entries (m_asks ob) [0..<length (m_levels (m_asks ob))])"
  by (rule published_snapshot_of_inv [OF reachable_book_inv [OF assms(1)] assms(2,3)])

theorem published_snapshot_is_best_levels_witness:
  "\<exists>sn. get_order_book_snapshot demo_book2 20 new_snapshot = Inr sn \<and>
     shown_bids sn = [level 99 5] \<and> shown_asks sn = [level 101 7]"
proof -
  have "[0..<length (m_levels (m_bids demo_book2))] = [0, 1, 2, 3]"
    "[0..<length (m_levels (m_asks demo_book2))] = [0, 1, 2, 3]"
    by (simp_all add: demo_book2_side upt_rec numeral_eq_Suc)
  then have "entries (m_bids demo_book2) (rev [0..<length (m_levels (m_bids demo_book2))]) =
      [level 99 5]"
    "entries (m_asks demo_book2) [0..<length (m_levels (m_asks demo_book2))] = [level 101 7]"
    by (simp_all add: demo_book2_side quantity_at_index_def index_to_price_def to_i64_def)
  then show ?thesis
    using published_snapshot_is_best_levels [OF demo_book2_reachable new_snapshot_inv, of 20]
    by auto
qed

text \<open>
  The 200-entry arrays of a snapshot are never grown, and \<^verbatim>\<open>resize\<close> only changes the
  limit: asking for more than 200 levels from a book with more than 200 non-empty bids writes
  past the end of the array.
\<close>

theorem snapshot_beyond_200_levels_overflows:
  assumes "reachable_book ob" and "snapshot_inv acquired" and "200 < levels"
    and "200 < length (entries (m_bids ob) (rev [0..<length (m_levels (m_bids ob))]))"
  shows "get_order_book_snapshot ob levels acquired = Inl UB_out_of_bounds"
proof -
  note inv = book_invD [OF reachable_book_inv [OF assms(1)]]
  have loop: "fill_bids s levels i c sn = Inl UB_out_of_bounds"
    if "length (ss_bids sn) = 200" "ss_bids_size sn = c" "ss_max_levels sn = levels" "c \<le> 200"
      "200 < c + length (entries s (rev [0..<i]))" for s i c sn
    using that
  proof (induction i arbitrary: c sn)
    case (Suc i)
    show ?case
    proof (cases "quantity_at_index s i \<le> 0")
      case True
      then show ?thesis using Suc.IH [of sn c] Suc.prems assms(3) by simp
    next
      case q: False
      show ?thesis
      proof (cases "c = 200")
        case True
        then show ?thesis using q Suc.prems assms(3) by (simp add: add_bid_def Let_def)
      next
        case False
        let ?sn = "sn\<lparr> ss_bids := (ss_bids sn)[c := level (index_to_price s i) (quantity_at_index s i)],
                       ss_bids_size := c + 1 \<rparr>"
        have "fill_bids s levels i (c + 1) ?sn = Inl UB_out_of_bounds"
          by (rule Suc.IH) (use q False Suc.prems in auto)
        then show ?thesis using q False Suc.prems assms(3) by (simp add: add_bid_def Let_def)
      qed
    qed
  qed simp
  have ht: "has_top (m_bids ob)"
    using no_top_entries(2) [OF inv(1)] assms(4) by (cases "has_top (m_bids ob)") simp_all
  have "fill_bids (m_bids ob) levels (m_top_index (m_bids ob) + 1) 0
      (refresh (resize (update_instrument acquired (m_instrument ob)) levels)) = Inl UB_out_of_bounds"
    by (rule loop) (use assms(2,4) bid_entries_from_top [OF inv(1,3) ht]
        in \<open>auto simp: snapshot_inv_def refresh_def resize_def update_instrument_def\<close>)
  with ht show ?thesis by (simp add: get_order_book_snapshot_def Let_def)
qed

text \<open>A book with 201 bids, for the witness.\<close>

lemma reachable_put_bids:
  assumes "reachable_book ob" and "\<not> has_top (m_asks ob)"
  shows "reachable_book (ob\<lparr> m_bids := bids.put_all (m_bids ob) pqs \<rparr>)"
  using assms
proof (induction pqs arbitrary: ob)
  case (Cons pq pqs)
  let ?ob = "ob\<lparr> m_bids := set_level (m_bids ob) (fst pq) (snd pq) \<rparr>"
  have "apply_update ob (book_update ob Bid Update (fst pq) (snd pq)) = Inr ?ob"
    using Cons.prems(2) by (simp add: apply_update_def apply_update_without_rebase_def
        book_update_def maybe_rebase_def should_rebase_def has_spread_def)
  then have "reachable_book ?ob" by (rule updated [OF Cons.prems(1)])
  from Cons.IH [OF this] Cons.prems(2) show ?case by simp
qed simp

lemma length_entries: "length (entries s is) = length (filter (\<lambda>i. 0 < quantity_at_index s i) is)"
  by (induction "is") auto

lemma full_side_entries:
  assumes "side_inv s" and "m_side s = Bid"
    and "pqs = map (\<lambda>i. (index_to_price s i, 1)) [0..<length (m_levels s)]"
  shows "length (entries (bids.put_all s pqs) (rev [0..<length (m_levels s)])) = length (m_levels s)"
proof -
  have "quantity_at_index (bids.put_all s pqs) i = 1" if i: "i < length (m_levels s)" for i
  proof -
    have mem: "(index_to_price s i, 1) \<in> set (filter (\<lambda>pq. price_to_index s (fst pq) = i) (rev pqs))"
      using i price_to_index_index_to_price [OF assms(1)] by (auto simp: assms(3))
    then obtain pq rest where
      f: "filter (\<lambda>pq. price_to_index s (fst pq) = i) (rev pqs) = pq # rest"
      by (cases "filter (\<lambda>pq. price_to_index s (fst pq) = i) (rev pqs)") auto
    then have "pq \<in> set pqs" by (metis filter_eq_ConsD in_set_conv_decomp set_rev)
    then have "snd pq = 1" by (auto simp: assms(3))
    then show ?thesis using bids.qty_put_all [of s i pqs] assms(1,2) i f by simp
  qed
  then show ?thesis by (simp add: length_entries filter_True)
qed

theorem snapshot_beyond_200_levels_overflows_witness:
  "\<exists>ob. reachable_book ob \<and> get_order_book_snapshot ob 201 new_snapshot = Inl UB_out_of_bounds"
proof -
  obtain b where b: "new_side Bid 0 1 201 = Inr b"
    by (auto simp: new_side_def MAX_LEVELS_def)
  obtain a where a: "new_side Ask 0 1 201 = Inr a"
    by (auto simp: new_side_def MAX_LEVELS_def)
  let ?ob = "\<lparr> m_bids = b, m_asks = a, m_instrument = None, m_rebase_delta = 0 \<rparr>"
  let ?pqs = "map (\<lambda>i. (index_to_price b i, 1)) [0..<length (m_levels b)]"
  have "new_order_book None 0 1 201 0 = Inr ?ob" by (simp add: new_order_book_def a b)
  then have "reachable_book ?ob" by (rule created)
  moreover have "\<not> has_top (m_asks ?ob)" using a by (auto simp: new_side_def has_top_def split: if_splits)
  ultimately have r: "reachable_book (?ob\<lparr> m_bids := bids.put_all (m_bids ?ob) ?pqs \<rparr>)"
    by (rule reachable_put_bids)
  have "length (m_levels b) = 201" and "m_side b = Bid" using new_side_fields [OF b] by auto
  then have "200 < length (entries (bids.put_all b ?pqs) (rev [0..<length (m_levels b)]))"
    using full_side_entries [OF new_side_inv [OF b] _ refl] by simp
  then have "get_order_book_snapshot (?ob\<lparr> m_bids := bids.put_all (m_bids ?ob) ?pqs \<rparr>) 201
      new_snapshot = Inl UB_out_of_bounds"
    by (intro snapshot_beyond_200_levels_overflows [OF r new_snapshot_inv]) simp_all
  with r show ?thesis by blast
qed

text \<open>
  A move by \<open>d\<close> ticks puts the best level of a side \<open>d\<close> slots lower, when that slot exists.
\<close>

lemma shifted_top:
  assumes inv: "side_inv s" "side_inv s'" and sh: "shifted s s' d" and sd: "m_side s' = m_side s"
    and lv: "\<And>j. j < length (m_levels s) \<Longrightarrow> m_levels s' ! j =
      (if 0 \<le> int j + d \<and> nat (int j + d) \<in> non_empty_levels s
       then m_levels s ! nat (int j + d) else 0)"
    and top: "has_top s" and k: "int k = int (m_top_index s) - d" "k < length (m_levels s)"
  shows "m_top_index s' = k" and "has_top s'" and "get_top_price s' = get_top_price s"
    and "get_top_quantity s' = get_top_quantity s"
proof -
  have len: "length (m_levels s') = length (m_levels s)" using sh by (simp add: shifted_def)
  have ne: "j \<in> non_empty_levels s' \<longleftrightarrow>
      j < length (m_levels s) \<and> 0 \<le> int j + d \<and> nat (int j + d) \<in> non_empty_levels s" for j
    using lv [of j] len by (auto simp: non_empty_levels_def split: if_splits)
  have t: "side_top s = Some (m_top_index s)" using top by (simp add: side_top_def)
  have kd: "int k + d = int (m_top_index s)" using k by simp
  then have kn: "nat (int k + d) = m_top_index s" by simp
  have tmem: "m_top_index s \<in> non_empty_levels s" using side_top_Some [OF inv(1)] t by blast
  have kmem: "k \<in> non_empty_levels s'" using ne kd kn k(2) tmem by simp
  have "if m_side s' = Bid then j \<le> k else k \<le> j" if j: "j \<in> non_empty_levels s'" for j
  proof -
    from j ne have "nat (int j + d) \<in> non_empty_levels s" "0 \<le> int j + d" by blast+
    with side_top_Some [OF inv(1), of "m_top_index s"] t sd kd show ?thesis by fastforce
  qed
  then have "side_top s' = Some k" using side_top_Some [OF inv(2)] kmem by blast
  then show tk: "m_top_index s' = k" and ht: "has_top s'"
    by (auto simp: side_top_def split: if_splits)
  have lt: "m_top_index s < length (m_levels s)" using tmem by (simp add: non_empty_levels_def)
  have mx: "m_top_index s \<le> MAX_LEVELS" "k \<le> MAX_LEVELS"
    using lt k(2) side_invD(4) [OF inv(1)] by linarith+
  have ti: "real (m_top_index s) = real k + of_int d"
    using kd by (metis of_int_add of_int_of_nat_eq)
  show "get_top_price s' = get_top_price s"
    using top ht tk mx sh inv ti by (simp add: get_top_price_def has_top_def index_to_price_eq
        shifted_def algebra_simps)
  show "get_top_quantity s' = get_top_quantity s"
    using top ht tk len lt k(2) lv [OF k(2)] kn kd tmem
    by (simp add: get_top_quantity_def has_top_def)
qed

text \<open>
  (C17) Re-centring. When the book decides to move its price range, the move succeeds and the
  best bid keeps its price and quantity, now at the centre of the range. The best ask keeps
  its price and quantity exactly when it is less than the upper half of the range away from
  the best bid; an ask further away is dropped from the book.
\<close>

theorem rebase_keeps_best_prices:
  assumes "reachable_book ob" and "should_rebase ob"
  shows "\<exists>ob'. maybe_rebase ob = Inr ob' \<and> reachable_book ob' \<and>
    m_base_price (m_bids ob') = best_bid_price ob \<and>
    m_top_index (m_bids ob') = m_center_index (m_bids ob') \<and>
    best_bid_price ob' = best_bid_price ob \<and> best_bid_quantity ob' = best_bid_quantity ob \<and>
    (let n = length (m_levels (m_bids ob));
         gap = int (m_top_index (m_asks ob)) - int (m_top_index (m_bids ob)) in
     if - int (n div 2) \<le> gap \<and> gap < int (n - n div 2)
     then has_top (m_asks ob') \<and> best_ask_price ob' = best_ask_price ob \<and>
          best_ask_quantity ob' = best_ask_quantity ob
     else int (n - n div 2) \<le> gap \<longrightarrow> \<not> has_top (m_asks ob'))"
proof -
  note binv = reachable_book_inv [OF assms(1)]
  note inv = book_invD [OF binv]
  have ht: "has_top (m_bids ob)" "has_top (m_asks ob)"
    using assms(2) by (auto simp: should_rebase_def has_spread_def split: if_splits)
  define d where "d = int (m_top_index (m_bids ob)) - int (m_center_index (m_bids ob))"
  let ?n = "length (m_levels (m_bids ob))"
  let ?gap = "int (m_top_index (m_asks ob)) - int (m_top_index (m_bids ob))"
  note base = top_price_base [OF inv(1) ht(1), folded d_def]
  obtain ob' where ob': "move_book ob (best_bid_price ob) = Inr ob'" "book_inv ob'"
    and sh: "shifted (m_bids ob) (m_bids ob') d" "shifted (m_asks ob) (m_asks ob') d"
    and lb: "\<And>j. j < ?n \<Longrightarrow> m_levels (m_bids ob') ! j =
      (if 0 \<le> int j + d \<and> nat (int j + d) \<in> non_empty_levels (m_bids ob)
       then m_levels (m_bids ob) ! nat (int j + d) else 0)"
    and la: "\<And>j. j < length (m_levels (m_asks ob)) \<Longrightarrow> m_levels (m_asks ob') ! j =
      (if 0 \<le> int j + d \<and> nat (int j + d) \<in> non_empty_levels (m_asks ob)
       then m_levels (m_asks ob) ! nat (int j + d) else 0)"
    using move_book_shift [OF binv base(1) base(2)] unfolding best_bid_price_def by metis
  note inv' = book_invD [OF ob'(2)]
  have len: "length (m_levels (m_asks ob)) = ?n" using inv(5) by (simp add: same_range_def)
  have c: "m_center_index (m_bids ob) = ?n div 2" "m_center_index (m_bids ob) < ?n"
    using side_invD(5) [OF inv(1)] side_inv_size(2) [OF inv(1)] by auto
  have cd: "int (m_center_index (m_bids ob)) = int (m_top_index (m_bids ob)) - d"
    by (simp add: d_def)
  note bid = shifted_top [OF inv(1) inv'(1) sh(1) _ lb ht(1) cd c(2)]
  have sides: "m_side (m_bids ob') = m_side (m_bids ob)" "m_side (m_asks ob') = m_side (m_asks ob)"
    using inv inv' by simp_all
  have "has_top (m_asks ob') \<and> get_top_price (m_asks ob') = get_top_price (m_asks ob) \<and>
      get_top_quantity (m_asks ob') = get_top_quantity (m_asks ob)"
    if g: "- int (?n div 2) \<le> ?gap" "?gap < int (?n - ?n div 2)"
  proof -
    let ?k = "nat (int (m_top_index (m_asks ob)) - d)"
    have "0 \<le> int (m_top_index (m_asks ob)) - d" "int (m_top_index (m_asks ob)) - d < int ?n"
      using g c by (auto simp: d_def)
    then have "int ?k = int (m_top_index (m_asks ob)) - d" "?k < length (m_levels (m_asks ob))"
      using len by auto
    from shifted_top [OF inv(2) inv'(2) sh(2) sides(2) la ht(2) this] show ?thesis by blast
  qed
  moreover have "\<not> has_top (m_asks ob')" if g: "int (?n - ?n div 2) \<le> ?gap"
  proof
    assume "has_top (m_asks ob')"
    then have "side_top (m_asks ob') = Some (m_top_index (m_asks ob'))"
      by (simp add: side_top_def)
    then have m: "m_top_index (m_asks ob') \<in> non_empty_levels (m_asks ob')" (is "?j \<in> _")
      using side_top_Some [OF inv'(2)] by blast
    then have j: "?j < ?n" using len sh(2) by (simp add: non_empty_levels_def shifted_def)
    from m la [of ?j] j len have "nat (int ?j + d) \<in> non_empty_levels (m_asks ob)"
      "0 \<le> int ?j + d" by (auto simp: non_empty_levels_def split: if_splits)
    moreover have "side_top (m_asks ob) = Some (m_top_index (m_asks ob))"
      using ht(2) by (simp add: side_top_def)
    ultimately have "int (m_top_index (m_asks ob)) \<le> int ?j + d"
      using side_top_Some [OF inv(2), of "m_top_index (m_asks ob)"] inv(4) by fastforce
    with g c j show False by (simp add: d_def)
  qed
  ultimately show ?thesis
    using ob'(1) assms moved [OF assms(1) ob'(1)] bid [OF sides(1)] sh(1) base(1)
    by (auto simp: maybe_rebase_def best_bid_price_def best_ask_price_def best_bid_quantity_def
        best_ask_quantity_def shifted_def Let_def)
qed

theorem rebase_keeps_best_prices_witness:
  "\<exists>ob'. maybe_rebase (set_rebase_delta demo_book2 (1 / 4)) = Inr ob' \<and>
     best_bid_price ob' = 99 \<and> \<not> has_top (m_asks ob')"
proof -
  let ?ob = "set_rebase_delta demo_book2 (1 / 4)"
  have r: "reachable_book ?ob" by (rule delta_set [OF demo_book2_reachable])
  have f: "m_bids ?ob = m_bids demo_book2" "m_asks ?ob = m_asks demo_book2"
    "m_rebase_delta ?ob = 1 / 4" "best_bid_price ?ob = 99" "best_ask_price ?ob = 101"
    using demo_book2_prices
    by (simp_all add: set_rebase_delta_def best_bid_price_def best_ask_price_def)
  have "price_to_index (m_asks demo_book2) 101 = 3"
    by (simp add: price_to_index_def demo_book2_side to_i64_def Let_def
        llround_of_int [of 1, simplified])
  then have "should_rebase ?ob"
    using f demo_book2_prices
    by (simp add: should_rebase_def has_spread_def in_rebase_trigger_zone_def near_boundary_def
        demo_book2_range valid_price_def valid_index_def)
      (simp add: demo_book2_side)
  from rebase_keeps_best_prices [OF r this] f show ?thesis
    by (auto simp: Let_def demo_book2_side)
qed

text \<open>
  (C18) Loading a snapshot replaces the book: before any re-centring, the quantity at a price
  in range is that of the last snapshot entry stored at the same level, and zero when no
  entry is, on either side; then the book re-centres itself if its best prices ask for it.
\<close>

theorem apply_snapshot_replaces_book:
  assumes "reachable_book ob" and "snapshot_inv sn"
  shows "\<exists>ob1. apply_snapshot ob sn = maybe_rebase ob1 \<and>
    (\<forall>p. valid_price (m_bids ob) p \<longrightarrow> get_bid_quantity ob1 p =
       (case filter (\<lambda>l. price_to_index (m_bids ob) (lv_price l) = price_to_index (m_bids ob) p)
               (rev (shown_bids sn)) of [] \<Rightarrow> 0 | l # _ \<Rightarrow> lv_quantity l)) \<and>
    (\<forall>p. valid_price (m_asks ob) p \<longrightarrow> get_ask_quantity ob1 p =
       (case filter (\<lambda>l. price_to_index (m_asks ob) (lv_price l) = price_to_index (m_asks ob) p)
               (rev (shown_asks sn)) of [] \<Rightarrow> 0 | l # _ \<Rightarrow> lv_quantity l))"
proof -
  note inv = book_invD [OF reachable_book_inv [OF assms(1)]]
  let ?pq = "\<lambda>l. (lv_price l, lv_quantity l)"
  have side: "get_quantity (bids.put_all (clear s) (map ?pq ls)) p =
      (case filter (\<lambda>l. price_to_index s (lv_price l) = price_to_index s p) (rev ls)
       of [] \<Rightarrow> 0 | l # _ \<Rightarrow> lv_quantity l)"
    if "side_inv s" "valid_price s p"
      and law: "\<And>i. i < length (m_levels s) \<Longrightarrow>
        quantity_at_index (bids.put_all (clear s) (map ?pq ls)) i =
        (case filter (\<lambda>pq. price_to_index (clear s) (fst pq) = i) (rev (map ?pq ls))
         of [] \<Rightarrow> quantity_at_index (clear s) i | pq # _ \<Rightarrow> snd pq)" for s ls p
  proof -
    have idx: "price_to_index (clear s) = price_to_index s"
      by (rule ext) (simp add: price_to_index_def clear_def)
    have pidx: "price_to_index (bids.put_all s' pqs) = price_to_index s'" for s' pqs
      by (induction pqs arbitrary: s') simp_all
    have i: "price_to_index s p < length (m_levels s)"
      using that(2) by (simp add: valid_price_def valid_index_def)
    have z: "quantity_at_index (clear s) (price_to_index s p) = 0"
      using i by (simp add: quantity_at_index_def clear_def)
    have "get_quantity (bids.put_all (clear s) (map ?pq ls)) p =
        quantity_at_index (bids.put_all (clear s) (map ?pq ls)) (price_to_index s p)"
      using i by (simp add: get_quantity_def quantity_at_index_def Let_def pidx idx)
    also have "\<dots> = (case filter (\<lambda>l. price_to_index s (lv_price l) = price_to_index s p) (rev ls)
       of [] \<Rightarrow> 0 | l # _ \<Rightarrow> lv_quantity l)"
      using law [OF i] z
      by (simp add: idx rev_map filter_map o_def) (auto split: list.splits)
    finally show ?thesis .
  qed
  have "get_bid_quantity (loaded_book ob sn) p =
       (case filter (\<lambda>l. price_to_index (m_bids ob) (lv_price l) = price_to_index (m_bids ob) p)
               (rev (shown_bids sn)) of [] \<Rightarrow> 0 | l # _ \<Rightarrow> lv_quantity l)"
    if "valid_price (m_bids ob) p" for p
    using side [OF inv(1) that] bids.qty_put_all [of "clear (m_bids ob)"] clear_inv [OF inv(1)] inv(3)
    by (simp add: get_bid_quantity_def loaded_book_def)
  moreover have "get_ask_quantity (loaded_book ob sn) p =
       (case filter (\<lambda>l. price_to_index (m_asks ob) (lv_price l) = price_to_index (m_asks ob) p)
               (rev (shown_asks sn)) of [] \<Rightarrow> 0 | l # _ \<Rightarrow> lv_quantity l)"
    if "valid_price (m_asks ob) p" for p
    using side [OF inv(2) that] asks.qty_put_all [of "clear (m_asks ob)"] clear_inv [OF inv(2)] inv(4)
    by (simp add: get_ask_quantity_def loaded_book_def)
  ultimately show ?thesis using apply_snapshot_eq [OF assms(2)] by blast
qed

theorem apply_snapshot_replaces_book_witness:
  "\<exists>ob1. apply_snapshot demo_book2 new_snapshot = maybe_rebase ob1 \<and> get_bid_quantity ob1 99 = 0"
proof -
  have "valid_price (m_bids demo_book2) 99"
    by (simp add: valid_price_def valid_index_def price_to_index_def demo_book2_side to_i64_def
        Let_def llround_of_int [of "-1", simplified])
  then show ?thesis
    using apply_snapshot_replaces_book [OF demo_book2_reachable new_snapshot_inv]
    by (auto simp: shown_bids_def new_snapshot_def)
qed

end
