(* ===== verification/Order_Book_Manager.thy ===== *)
theory Order_Book_Manager
  imports Order_Book
begin

text \<open>
  The order book manager (\<^verbatim>\<open>server_app/order_book/order_book_manager.h\<close> and
  \<^verbatim>\<open>.cpp\<close>): one book per instrument, created by the first data for the instrument, and
  the publication of a fresh snapshot to every registered callback after each update.

  The coroutines run on a single event base, so a handler is one atomic step. A handler takes
  the pooled snapshot object it will fill (\<open>acquired\<close>) and returns the new state and the
  calls it makes, in order; \<open>precision\<close> reads \<^verbatim>\<open>Instrument::price_precision\<close> through an
  instrument address. The stage timing of \<^verbatim>\<open>PipelineTraceBuffer\<close> is left out.
\<close>

record 'cb OrderBookManager =
  m_update_callbacks :: "'cb list"
  m_order_books :: "nat option \<rightharpoonup> OrderBook"
  m_depth :: nat
  m_publish_levels :: nat
  m_manager_tick_size :: real

definition new_manager :: "'cb OrderBookManager" where
  "new_manager = \<lparr> m_update_callbacks = [], m_order_books = Map.empty, m_depth = 10000,
     m_publish_levels = 20, m_manager_tick_size = 1 / 100 \<rparr>"

definition register_update :: "'cb OrderBookManager \<Rightarrow> 'cb \<Rightarrow> 'cb OrderBookManager" where
  "register_update m callback = m\<lparr> m_update_callbacks := m_update_callbacks m @ [callback] \<rparr>"

definition set_config ::
  "'cb OrderBookManager \<Rightarrow> real \<Rightarrow> nat \<Rightarrow> real \<Rightarrow> nat \<Rightarrow> 'cb OrderBookManager" where
  "set_config m tick_size depth rebase_delta publish_levels =
     m\<lparr> m_manager_tick_size := tick_size, m_depth := depth, m_publish_levels := publish_levels \<rparr>"

text \<open>
  The three overloads of \<^verbatim>\<open>get_or_create_order_book\<close> differ in the base price of a new
  book only. A book that is not there is created with the instrument's tick, read through the
  instrument pointer.
\<close>

definition get_or_create_order_book ::
  "(nat \<Rightarrow> real) \<Rightarrow> 'cb OrderBookManager \<Rightarrow> nat option \<Rightarrow> (cpp_error + real) \<Rightarrow>
   cpp_error + ('cb OrderBookManager \<times> OrderBook)" where
  "get_or_create_order_book precision m instr base =
     (case m_order_books m instr of
        Some ob \<Rightarrow> Inr (m, ob)
      | None \<Rightarrow> sum_bind base (\<lambda>base_price.
          case instr of
            None \<Rightarrow> Inl UB_null_pointer
          | Some i \<Rightarrow> sum_bind (new_order_book_default instr base_price (precision i) (m_depth m))
              (\<lambda>ob. Inr (m\<lparr> m_order_books := (m_order_books m)(instr \<mapsto> ob) \<rparr>, ob))))"

definition get_snapshot_reference_price :: "OrderBookSnapShot \<Rightarrow> cpp_error + real" where
  "get_snapshot_reference_price sn =
     (if ss_bids_size sn > 0 then sum_bind (vec_at (ss_bids sn) 0) (\<lambda>l. Inr (lv_price l))
      else if ss_asks_size sn > 0 then sum_bind (vec_at (ss_asks sn) 0) (\<lambda>l. Inr (lv_price l))
      else Inr 0)"

definition get_order_book :: "'cb OrderBookManager \<Rightarrow> nat option \<Rightarrow> OrderBook option" where
  "get_order_book m instr = m_order_books m instr"

definition store_book ::
  "'cb OrderBookManager \<Rightarrow> nat option \<Rightarrow> OrderBook \<Rightarrow> 'cb OrderBookManager" where
  "store_book m instr ob = m\<lparr> m_order_books := (m_order_books m)(instr \<mapsto> ob) \<rparr>"

type_synonym 'cb calls = "('cb \<times> OrderBookSnapShot) list"

definition run_update_snapshot ::
  "(nat \<Rightarrow> real) \<Rightarrow> 'cb OrderBookManager \<Rightarrow> OrderBookSnapShot option \<Rightarrow> OrderBookSnapShot \<Rightarrow>
   cpp_error + ('cb OrderBookManager \<times> 'cb calls)" where
  "run_update_snapshot precision m snapshot acquired =
     (case snapshot of
        None \<Rightarrow> Inr (m, [])
      | Some sn \<Rightarrow>
          if ss_instrument sn = None then Inr (m, [])
          else sum_bind (get_or_create_order_book precision m (ss_instrument sn)
                           (get_snapshot_reference_price sn)) (\<lambda>(m1, ob).
            sum_bind (apply_snapshot ob sn) (\<lambda>ob1.
            sum_bind (get_order_book_snapshot ob1 (m_publish_levels m1) acquired) (\<lambda>out.
              Inr (store_book m1 (ss_instrument sn) ob1,
                   map (\<lambda>cb. (cb, out)) (m_update_callbacks m1))))))"

definition run_update_level ::
  "(nat \<Rightarrow> real) \<Rightarrow> 'cb OrderBookManager \<Rightarrow> OrderBookUpdate \<Rightarrow> OrderBookSnapShot \<Rightarrow>
   cpp_error + ('cb OrderBookManager \<times> 'cb calls)" where
  "run_update_level precision m u acquired =
     (if up_instrument u = None then Inr (m, [])
      else sum_bind (get_or_create_order_book precision m (up_instrument u) (Inr (up_price u)))
        (\<lambda>(m1, ob).
        sum_bind (apply_update ob u) (\<lambda>ob1.
        sum_bind (get_order_book_snapshot ob1 (m_publish_levels m1) acquired) (\<lambda>out.
          Inr (store_book m1 (up_instrument u) ob1,
               map (\<lambda>cb. (cb, out\<lparr> ss_trace_id := up_trace_id u \<rparr>)) (m_update_callbacks m1))))))"

text \<open>The loop over a batch: an update without an instrument is skipped.\<close>

definition apply_batch :: "OrderBook \<Rightarrow> OrderBookUpdate list \<Rightarrow> cpp_error + OrderBook" where
  "apply_batch ob us =
     sum_fold (\<lambda>ob u. if up_instrument u = None then Inr ob else apply_update ob u) ob us"

definition run_update_batch ::
  "(nat \<Rightarrow> real) \<Rightarrow> 'cb OrderBookManager \<Rightarrow> OrderBookUpdate list \<Rightarrow> OrderBookSnapShot \<Rightarrow>
   cpp_error + ('cb OrderBookManager \<times> 'cb calls)" where
  "run_update_batch precision m updates acquired =
     (case updates of
        [] \<Rightarrow> Inr (m, [])
      | u # _ \<Rightarrow>
          sum_bind (get_or_create_order_book precision m (up_instrument u) (Inr (up_price u)))
            (\<lambda>(m1, ob).
            sum_bind (apply_batch ob updates) (\<lambda>ob1.
            sum_bind (get_order_book_snapshot ob1 (m_publish_levels m1) acquired) (\<lambda>out.
              Inr (store_book m1 (up_instrument u) ob1,
                   map (\<lambda>cb. (cb, out\<lparr> ss_trace_id := up_trace_id u \<rparr>))
                     (m_update_callbacks m1))))))"

section \<open>Invariant\<close>

definition manager_inv :: "'cb OrderBookManager \<Rightarrow> bool" where
  "manager_inv m \<longleftrightarrow> m_order_books m None = None \<and>
     (\<forall>i ob. m_order_books m i = Some ob \<longrightarrow> reachable_book ob) \<and>
     0 < m_depth m \<and> m_depth m \<le> MAX_LEVELS \<and> m_publish_levels m \<le> 200"

lemma new_manager_inv: "manager_inv new_manager"
  by (simp add: manager_inv_def new_manager_def MAX_LEVELS_def)

lemma get_or_create_ok:
  assumes "manager_inv m" and "0 < precision i"
  obtains m1 ob where "get_or_create_order_book precision m (Some i) (Inr b) = Inr (m1, ob)"
    and "reachable_book ob" and "manager_inv m1"
    and "m1 = m \<or> m1 = store_book m (Some i) ob"
proof (cases "m_order_books m (Some i)")
  case (Some ob)
  then show thesis
    using that [of m ob] assms(1) by (auto simp: get_or_create_order_book_def manager_inv_def)
next
  case None
  obtain ob where ob: "new_order_book_default (Some i) b (precision i) (m_depth m) = Inr ob"
    using assms by (auto simp: new_order_book_default_def new_order_book_def new_side_def
        manager_inv_def)
  then have r: "reachable_book ob" unfolding new_order_book_default_def by (rule created)
  show thesis
  proof (rule that)
    show "get_or_create_order_book precision m (Some i) (Inr b) = Inr (store_book m (Some i) ob, ob)"
      using None ob by (simp add: get_or_create_order_book_def store_book_def)
    show "manager_inv (store_book m (Some i) ob)"
      using assms(1) r by (auto simp: manager_inv_def store_book_def split: if_splits)
  qed (use r in auto)
qed

lemma apply_batch_reachable:
  "reachable_book ob \<Longrightarrow> \<exists>ob'. apply_batch ob us = Inr ob' \<and> reachable_book ob'"
proof (induction us arbitrary: ob)
  case Nil
  then show ?case by (simp add: apply_batch_def)
next
  case (Cons u us)
  show ?case
  proof (cases "up_instrument u")
    case None
    then show ?thesis using Cons by (simp add: apply_batch_def)
  next
    case (Some i)
    obtain ob1 where "apply_update ob u = Inr ob1" "reachable_book ob1"
      using apply_update_ok [OF reachable_book_inv [OF Cons.prems]] updated [OF Cons.prems] by metis
    then show ?thesis using Cons.IH [of ob1] Some by (simp add: apply_batch_def)
  qed
qed

lemma snapshot_of_reachable:
  assumes "reachable_book ob" and "snapshot_inv acquired" and "levels \<le> 200"
  obtains sn where "get_order_book_snapshot ob levels acquired = Inr sn"
    and "shown_bids sn = take levels (entries (m_bids ob) (rev [0..<length (m_levels (m_bids ob))]))"
    and "shown_asks sn = take levels (entries (m_asks ob) [0..<length (m_levels (m_asks ob))])"
  using published_snapshot_of_inv [OF reachable_book_inv [OF assms(1)] assms(2,3)] by blast

section \<open>Properties\<close>

text \<open>
  (C20) A level update for an instrument succeeds, creates the instrument's book when there
  is none, changes no other book, and calls every registered callback once, in the order of
  registration, each with one and the same snapshot: the best levels of the updated book,
  tagged with the trace id of the update.
\<close>

theorem level_update_publishes_book:
  assumes "manager_inv m" and "up_instrument u = Some i" and "0 < precision i"
    and "snapshot_inv acquired"
  shows "\<exists>m' ob out. run_update_level precision m u acquired =
      Inr (m', map (\<lambda>cb. (cb, out)) (m_update_callbacks m)) \<and> manager_inv m' \<and>
    m_order_books m' = (m_order_books m)(Some i \<mapsto> ob) \<and>
    (\<forall>ob0. m_order_books m (Some i) = Some ob0 \<longrightarrow> apply_update ob0 u = Inr ob) \<and>
    ss_trace_id out = up_trace_id u \<and>
    shown_bids out = take (m_publish_levels m)
      (entries (m_bids ob) (rev [0..<length (m_levels (m_bids ob))])) \<and>
    shown_asks out = take (m_publish_levels m)
      (entries (m_asks ob) [0..<length (m_levels (m_asks ob))])"
proof -
  obtain m1 ob where g: "get_or_create_order_book precision m (Some i) (Inr (up_price u)) = Inr (m1, ob)"
    "reachable_book ob" "manager_inv m1" "m1 = m \<or> m1 = store_book m (Some i) ob"
    using get_or_create_ok [OF assms(1), of precision i "up_price u"] assms(3) by metis
  have old: "ob0 = ob" if "m_order_books m (Some i) = Some ob0" for ob0
    using that g(1) by (simp add: get_or_create_order_book_def)
  obtain ob1 where ob1: "apply_update ob u = Inr ob1" "reachable_book ob1"
    using apply_update_ok [OF reachable_book_inv [OF g(2)]] updated [OF g(2)] by metis
  have m1: "m_publish_levels m1 = m_publish_levels m" "m_update_callbacks m1 = m_update_callbacks m"
    "m_order_books (store_book m1 (Some i) ob1) = (m_order_books m)(Some i \<mapsto> ob1)"
    using g(4) by (auto simp: store_book_def)
  obtain sn where sn: "get_order_book_snapshot ob1 (m_publish_levels m1) acquired = Inr sn"
    "shown_bids sn = take (m_publish_levels m)
      (entries (m_bids ob1) (rev [0..<length (m_levels (m_bids ob1))]))"
    "shown_asks sn = take (m_publish_levels m)
      (entries (m_asks ob1) [0..<length (m_levels (m_asks ob1))])"
    using snapshot_of_reachable [OF ob1(2) assms(4), of "m_publish_levels m1"] m1(1) assms(1)
    by (auto simp: manager_inv_def)
  let ?m' = "store_book m1 (Some i) ob1" and ?out = "sn\<lparr> ss_trace_id := up_trace_id u \<rparr>"
  have run: "run_update_level precision m u acquired =
      Inr (?m', map (\<lambda>cb. (cb, ?out)) (m_update_callbacks m))"
    using g(1) ob1(1) sn(1) assms(2) m1(2) by (simp add: run_update_level_def)
  have inv: "manager_inv ?m'"
    using g(3) ob1(2) by (auto simp: manager_inv_def store_book_def split: if_splits)
  show ?thesis
    by (rule exI [of _ ?m'], rule exI [of _ ob1], rule exI [of _ ?out])
      (use run inv m1(3) sn(2,3) old ob1(1) in \<open>auto simp: shown_bids_def shown_asks_def\<close>)
qed

definition demo_update :: OrderBookUpdate where
  "demo_update = \<lparr> up_instrument = Some 7, up_trace_id = 42, up_side = Bid, up_type = Update,
     up_price = 100, up_quantity = 3 \<rparr>"

theorem level_update_publishes_book_witness:
  "\<exists>m' out. run_update_level (\<lambda>_. 1) (register_update new_manager (0 :: nat)) demo_update
      new_snapshot = Inr (m', [(0, out)]) \<and> ss_trace_id out = 42"
proof -
  have "manager_inv (register_update new_manager (0 :: nat))"
    using new_manager_inv by (simp add: manager_inv_def register_update_def)
  from level_update_publishes_book [OF this, of demo_update 7 "\<lambda>_. 1" new_snapshot]
  show ?thesis by (auto simp: demo_update_def register_update_def new_manager_def)
qed

text \<open>
  A batch goes to one book: the updates of a batch are applied, in order, to the book of
  the first update's instrument, whichever instrument the later updates name; only updates
  without an instrument are skipped. No other book changes.
\<close>

theorem batch_goes_to_first_book:
  assumes "manager_inv m" and "up_instrument u = Some i" and "0 < precision i"
    and "snapshot_inv acquired"
  shows "\<exists>m' ob ob' out. run_update_batch precision m (u # us) acquired =
      Inr (m', map (\<lambda>cb. (cb, out)) (m_update_callbacks m)) \<and> manager_inv m' \<and>
    (\<forall>ob0. m_order_books m (Some i) = Some ob0 \<longrightarrow> ob0 = ob) \<and>
    sum_fold apply_update ob (filter (\<lambda>u. up_instrument u \<noteq> None) (u # us)) = Inr ob' \<and>
    m_order_books m' = (m_order_books m)(Some i \<mapsto> ob')"
proof -
  obtain m1 ob where g: "get_or_create_order_book precision m (Some i) (Inr (up_price u)) = Inr (m1, ob)"
    "reachable_book ob" "manager_inv m1" "m1 = m \<or> m1 = store_book m (Some i) ob"
    using get_or_create_ok [OF assms(1), of precision i "up_price u"] assms(3) by metis
  have old: "ob0 = ob" if "m_order_books m (Some i) = Some ob0" for ob0
    using that g(1) by (simp add: get_or_create_order_book_def)
  have filt: "apply_batch ob us' = sum_fold apply_update ob (filter (\<lambda>u. up_instrument u \<noteq> None) us')"
    for ob us'
  proof (induction us' arbitrary: ob)
    case (Cons v vs)
    then show ?case by (cases "apply_update ob v") (auto simp: apply_batch_def)
  qed (simp add: apply_batch_def)
  obtain ob1 where ob1: "apply_batch ob (u # us) = Inr ob1" "reachable_book ob1"
    using apply_batch_reachable [OF g(2)] by blast
  have m1: "m_publish_levels m1 = m_publish_levels m" "m_update_callbacks m1 = m_update_callbacks m"
    "m_order_books (store_book m1 (Some i) ob1) = (m_order_books m)(Some i \<mapsto> ob1)"
    using g(4) by (auto simp: store_book_def)
  have "m_publish_levels m1 \<le> 200" using m1(1) assms(1) by (simp add: manager_inv_def)
  then obtain sn where sn: "get_order_book_snapshot ob1 (m_publish_levels m1) acquired = Inr sn"
    using snapshot_of_reachable [OF ob1(2) assms(4)] by metis
  let ?m' = "store_book m1 (Some i) ob1" and ?out = "sn\<lparr> ss_trace_id := up_trace_id u \<rparr>"
  have run: "run_update_batch precision m (u # us) acquired =
      Inr (?m', map (\<lambda>cb. (cb, ?out)) (m_update_callbacks m))"
    using g(1) ob1(1) sn(1) assms(2) m1(2) by (simp add: run_update_batch_def)
  have inv: "manager_inv ?m'"
    using g(3) ob1(2) by (auto simp: manager_inv_def store_book_def split: if_splits)
  show ?thesis
    by (rule exI [of _ ?m'], rule exI [of _ ob], rule exI [of _ ob1], rule exI [of _ ?out])
      (use run inv m1(3) old ob1(1) filt [of ob "u # us"] in \<open>simp del: filter.simps\<close>)
qed

theorem batch_goes_to_first_book_witness:
  "\<exists>m' out. run_update_batch (\<lambda>_. 1) (register_update new_manager (0 :: nat))
      [demo_update, demo_update\<lparr> up_instrument := Some 8 \<rparr>] new_snapshot = Inr (m', [(0, out)]) \<and>
    m_order_books m' (Some 8) = None"
proof -
  have "manager_inv (register_update new_manager (0 :: nat))"
    using new_manager_inv by (simp add: manager_inv_def register_update_def)
  from batch_goes_to_first_book [OF this, of demo_update 7 "\<lambda>_. 1" new_snapshot
      "[demo_update\<lparr> up_instrument := Some 8 \<rparr>]"]
  show ?thesis by (fastforce simp: demo_update_def register_update_def new_manager_def)
qed

text \<open>
  Missing instruments. A snapshot or a level update without an instrument is ignored.
  A batch whose first update has no instrument is not: there is never a book for the null
  instrument, so the handler reads the tick size through the null pointer.
\<close>

lemma null_instrument_handling:
  assumes "manager_inv m"
  shows "(ss_instrument sn = None \<longrightarrow>
      run_update_snapshot precision m (Some sn) acquired = Inr (m, [])) \<and>
    (up_instrument u = None \<longrightarrow> run_update_level precision m u acquired = Inr (m, [])) \<and>
    (up_instrument u = None \<longrightarrow>
      run_update_batch precision m (u # us) acquired = Inl UB_null_pointer)"
  using assms
  by (simp add: run_update_snapshot_def run_update_level_def run_update_batch_def
      get_or_create_order_book_def manager_inv_def)

end
