(* ===== verification/Latency_Stats.thy ===== *)
theory Latency_Stats
  imports Prelude "HOL-Library.Multiset"
begin

text \<open>
  The latency histogram of \<^verbatim>\<open>src/core/metric/latency_stat.h\<close>: 496 buckets, exact below
  8 ns and with eight sub-buckets per power of two above, the recording of a delay and the
  percentile query. The first part is the code as one thread runs it; the second runs
  \<^verbatim>\<open>record\<close> on many threads, one atomic operation per step, in every interleaving.
\<close>

section \<open>Definitions\<close>

definition SUB_BUCKET_BITS :: nat where "SUB_BUCKET_BITS = 3"
definition SUB_BUCKET_COUNT :: nat where "SUB_BUCKET_COUNT = 2 ^ SUB_BUCKET_BITS"
definition FIRST_LOG_BUCKET :: nat where "FIRST_LOG_BUCKET = SUB_BUCKET_COUNT"
definition LOG_RANGE_COUNT :: nat where "LOG_RANGE_COUNT = 64 - SUB_BUCKET_BITS"
definition BUCKET_COUNT :: nat where
  "BUCKET_COUNT = FIRST_LOG_BUCKET + LOG_RANGE_COUNT * SUB_BUCKET_COUNT"

lemmas bucket_consts = SUB_BUCKET_BITS_def SUB_BUCKET_COUNT_def FIRST_LOG_BUCKET_def
  LOG_RANGE_COUNT_def BUCKET_COUNT_def

record LatencyStats =
  buckets :: "u64 list"
  rec_count :: u64
  total_delay_ns :: u64
  max_delay_ns :: u64

definition new_stats :: LatencyStats where
  "new_stats = \<lparr>buckets = replicate BUCKET_COUNT 0, rec_count = 0, total_delay_ns = 0,
                max_delay_ns = 0\<rparr>"

definition bucket_index :: "u64 \<Rightarrow> int" where
  "bucket_index ns =
     (if ns < of_nat FIRST_LOG_BUCKET then uint ns
      else
        let exponent = 63 - int (countl_zero ns);
            shift = exponent - int SUB_BUCKET_BITS;
            sub_bucket = uint (drop_bit (nat shift) ns AND (of_nat SUB_BUCKET_COUNT - 1))
        in int FIRST_LOG_BUCKET + (exponent - int SUB_BUCKET_BITS) * int SUB_BUCKET_COUNT
             + sub_bucket)"

definition bucket_upper_bound_ns :: "int \<Rightarrow> u64" where
  "bucket_upper_bound_ns idx =
     (if idx \<le> 0 then 0
      else if idx < int FIRST_LOG_BUCKET then of_int idx
      else
        let offset = idx - int FIRST_LOG_BUCKET;
            exponent = int SUB_BUCKET_BITS + offset div int SUB_BUCKET_COUNT;
            sub_bucket = offset mod int SUB_BUCKET_COUNT;
            shift = exponent - int SUB_BUCKET_BITS;
            step = push_bit (nat shift) (1 :: u64);
            lower = push_bit (nat exponent) 1 + push_bit (nat shift) (of_int sub_bucket)
        in lower OR (step - 1))"

text \<open>
  The compare-and-exchange loop of \<^verbatim>\<open>record\<close> on one thread stores the larger value; with
  other threads it is \<open>rec_step\<close> below.
\<close>

definition record_delay :: "LatencyStats \<Rightarrow> u64 \<Rightarrow> LatencyStats" where
  "record_delay s delay_ns =
     (let i = nat (bucket_index delay_ns);
          s1 = s\<lparr>buckets := (buckets s)[i := buckets s ! i + 1]\<rparr>;
          s2 = s1\<lparr>total_delay_ns := total_delay_ns s1 + delay_ns\<rparr>;
          old_max = max_delay_ns s2;
          s3 = (if old_max < delay_ns then s2\<lparr>max_delay_ns := delay_ns\<rparr> else s2)
      in s3\<lparr>rec_count := rec_count s3 + 1\<rparr>)"

text \<open>The second loop of \<^verbatim>\<open>percentile\<close>: bucket \<open>i\<close> is the head of the list.\<close>

fun percentile_scan :: "u64 \<Rightarrow> u64 \<Rightarrow> nat \<Rightarrow> u64 list \<Rightarrow> u64" where
  "percentile_scan target cumulative i [] = bucket_upper_bound_ns (int BUCKET_COUNT - 1)"
| "percentile_scan target cumulative i (b # bs) =
     (let cumulative' = cumulative + b
      in if target \<le> cumulative' then bucket_upper_bound_ns (int i)
         else percentile_scan target cumulative' (Suc i) bs)"

definition percentile :: "LatencyStats \<Rightarrow> real \<Rightarrow> u64" where
  "percentile s p =
     (if \<not> (0 < p \<and> p \<le> 1) then 0
      else
        let snapshot = buckets s;
            total = foldl (+) 0 snapshot
        in if total = 0 then 0
           else
             let target = of_int \<lceil>real (unat total) * p\<rceil>
             in percentile_scan target 0 0 snapshot)"

section \<open>Buckets\<close>

lemma unat_floor_log:
  assumes "w \<noteq> (0 :: u64)"
  shows "2 ^ (63 - countl_zero w) \<le> unat w" and "unat w < 2 * 2 ^ (63 - countl_zero w)"
proof -
  define n where "n = 63 - countl_zero w"
  have n: "n < 64" "bit w n" "\<And>j. n < j \<Longrightarrow> \<not> bit w j"
    using countl_zero_spec [OF assms] by (auto simp: n_def)
  have "bit (unat w) n" using n(2) by (simp add: bit_unsigned_iff)
  then have "odd (unat w div 2 ^ n)" by (simp add: bit_iff_odd)
  then have "0 < unat w div 2 ^ n" by (cases "unat w div 2 ^ n") auto
  then show "2 ^ (63 - countl_zero w) \<le> unat w" by (simp add: n_def div_greater_zero_iff)
  have "take_bit (Suc n) w = w"
  proof (rule bit_word_eqI)
    fix k
    show "bit (take_bit (Suc n) w) k = bit w k"
      using n(3) [of k] by (cases "n < k") (auto simp: bit_take_bit_iff)
  qed
  then have "unat w = take_bit (Suc n) (unat w)" by (metis unsigned_take_bit_eq)
  moreover have "take_bit (Suc n) (unat w) < 2 ^ Suc n" by (rule take_bit_nat_less_exp)
  ultimately have "unat w < 2 ^ Suc n" by (metis)
  then show "unat w < 2 * 2 ^ (63 - countl_zero w)" by (simp add: n_def)
qed

text \<open>The exponent above the sub-bucket bits, i.e. the shift the code computes.\<close>

definition log_shift :: "u64 \<Rightarrow> nat" where
  "log_shift ns = 60 - countl_zero ns"

lemma log_shift_bounds:
  assumes "8 \<le> unat ns"
  shows "8 * 2 ^ log_shift ns \<le> unat ns" and "unat ns < 16 * 2 ^ log_shift ns"
    and "log_shift ns \<le> 60" and "countl_zero ns \<le> 60"
proof -
  have nz: "ns \<noteq> 0" using assms by auto
  have small: "countl_zero ns \<le> 60"
  proof (rule ccontr)
    assume "\<not> countl_zero ns \<le> 60"
    then have "63 - countl_zero ns \<le> 2" by simp
    then have "2 * 2 ^ (63 - countl_zero ns) \<le> (2 :: nat) * 2 ^ 2"
      by (intro mult_left_mono power_increasing) auto
    with unat_floor_log(2) [OF nz] assms show False by simp
  qed
  then have "63 - countl_zero ns = 3 + log_shift ns" by (simp add: log_shift_def)
  then have "2 ^ (63 - countl_zero ns) = 8 * (2 :: nat) ^ log_shift ns" by (simp add: power_add)
  with unat_floor_log [OF nz] small
  show "8 * 2 ^ log_shift ns \<le> unat ns" and "unat ns < 16 * 2 ^ log_shift ns"
    and "log_shift ns \<le> 60" and "countl_zero ns \<le> 60"
    by (auto simp: log_shift_def)
qed

lemma unat_div_shift_bounds:
  assumes "8 \<le> unat ns"
  shows "8 \<le> unat ns div 2 ^ log_shift ns" and "unat ns div 2 ^ log_shift ns < 16"
  using log_shift_bounds(1, 2) [OF assms]
  by (simp_all add: less_eq_div_iff_mult_less_eq div_less_iff_less_mult)

lemma bucket_index_small:
  "unat ns < 8 \<Longrightarrow> bucket_index ns = int (unat ns)"
  by (simp add: bucket_index_def bucket_consts word_less_nat_alt)

lemma bucket_index_large:
  assumes "8 \<le> unat ns"
  shows "bucket_index ns = int (8 * log_shift ns + unat ns div 2 ^ log_shift ns)"
proof -
  let ?q = "unat ns div 2 ^ log_shift ns"
  have shift: "63 - int (countl_zero ns) - 3 = int (log_shift ns)"
    using log_shift_bounds(4) [OF assms] by (simp add: log_shift_def)
  have "unat (drop_bit (log_shift ns) ns AND (7 :: u64)) = unat (take_bit 3 (drop_bit (log_shift ns) ns))"
    by (simp add: take_bit_eq_mask mask_eq_exp_minus_1)
  also have "\<dots> = take_bit 3 (drop_bit (log_shift ns) (unat ns))"
    by (simp only: unsigned_take_bit_eq unat_drop_bit_eq)
  also have "\<dots> = ?q mod 8" by (simp add: take_bit_eq_mod drop_bit_eq_div)
  also have "\<dots> = ?q - 8" using unat_div_shift_bounds [OF assms] by (simp add: mod_if)
  finally have sub: "uint (drop_bit (log_shift ns) ns AND (7 :: u64)) = int (?q - 8)"
    by (metis uint_nat)
  have "\<not> ns < 8" using assms by (simp add: word_less_nat_alt)
  then show ?thesis
    using shift sub unat_div_shift_bounds(1) [OF assms]
    by (simp add: bucket_index_def bucket_consts Let_def)
qed

lemma bucket_upper_small:
  assumes "0 \<le> i" and "i < 8"
  shows "unat (bucket_upper_bound_ns i) = nat i"
proof -
  have "unat (of_int i :: u64) = nat i"
    using assms by (simp add: unsigned_of_int take_bit_int_eq_self)
  with assms show ?thesis by (auto simp: bucket_upper_bound_ns_def bucket_consts)
qed

text \<open>Bucket \<open>8 s + q\<close>, for \<open>8 \<le> q < 16\<close>, ends at \<open>(q + 1) 2\<^sup>s - 1\<close>.\<close>

lemma bucket_upper_large:
  assumes "8 \<le> q" and "q < 16" and "s \<le> 60"
  shows "unat (bucket_upper_bound_ns (int (8 * s + q))) = Suc q * 2 ^ s - 1"
proof -
  have div: "(int (8 * s + q) - 8) div 8 = int s" and mod: "(int (8 * s + q) - 8) mod 8 = int (q - 8)"
    using assms by presburger+
  have "push_bit (s + 3) 1 + push_bit s (of_int (int (q - 8)) :: u64) = push_bit s (of_nat q)"
    using assms(1) by (simp add: push_bit_eq_mult power_add algebra_simps of_nat_diff)
  moreover have "push_bit s (1 :: u64) - 1 = mask s" by (simp add: mask_eq_exp_minus_1)
  ultimately have "bucket_upper_bound_ns (int (8 * s + q)) = push_bit s (of_nat q) OR mask s"
    using div mod assms by (simp add: bucket_upper_bound_ns_def bucket_consts Let_def nat_add_distrib add.commute)
  moreover have "unat (push_bit s (of_nat q :: u64) OR mask s) = push_bit s q OR mask s"
  proof -
    have "q * 2 ^ s < 16 * 2 ^ s" using assms(2) by simp
    also have "\<dots> \<le> 16 * (2 :: nat) ^ 60" using assms(3) by (intro mult_left_mono power_increasing) auto
    finally have q: "push_bit s q < 2 ^ 64" by (simp add: push_bit_eq_mult)
    then have "unat (of_nat (push_bit s q) :: u64) = push_bit s q"
      by (simp add: unsigned_of_nat take_bit_nat_eq_self)
    then have "unat (push_bit s (of_nat q :: u64)) = push_bit s q"
      by (simp only: of_nat_push_bit)
    moreover have "unat (mask s :: u64) = mask s"
      by (rule bit_eqI) (use assms(3) in \<open>auto simp: bit_unsigned_iff bit_mask_iff\<close>)
    ultimately show ?thesis by (simp add: unsigned_or_eq)
  qed
  moreover have "push_bit s q OR mask s = push_bit s q + mask s"
    by (rule disjunctive_add_eq_or [symmetric], rule bit_eqI) (auto simp: bit_and_iff bit_push_bit_iff bit_mask_iff)
  ultimately show ?thesis
    by (simp add: push_bit_eq_mult mask_eq_exp_minus_1 algebra_simps)
qed

lemma upper_before_large:
  assumes "8 \<le> q" and "q < 16" and "s \<le> 60"
  shows "unat (bucket_upper_bound_ns (int (8 * s + q) - 1)) = q * 2 ^ s - 1"
proof (cases "q = 8")
  case False
  then have "int (8 * s + q) - 1 = int (8 * s + (q - 1))" using assms(1) by simp
  with bucket_upper_large [of "q - 1" s] False assms show ?thesis by simp
next
  case q: True
  show ?thesis
  proof (cases s)
    case 0
    with q bucket_upper_small [of 7] show ?thesis by simp
  next
    case (Suc r)
    then have "int (8 * s + q) - 1 = int (8 * r + 15)" using q by simp
    then have "unat (bucket_upper_bound_ns (int (8 * s + q) - 1)) = Suc 15 * 2 ^ r - 1"
      using bucket_upper_large [of 15 r] Suc assms(3) by (simp del: of_nat_add of_nat_mult)
    with Suc q show ?thesis by simp
  qed
qed

lemma bucket_index_bounds: "0 \<le> bucket_index ns" "bucket_index ns < int BUCKET_COUNT"
proof -
  have "bucket_index ns < 496 \<and> 0 \<le> bucket_index ns"
  proof (cases "unat ns < 8")
    case True
    then show ?thesis by (simp add: bucket_index_small del: of_nat_unat)
  next
    case False
    then show ?thesis
      using unat_div_shift_bounds [of ns] log_shift_bounds(3) [of ns]
      by (simp add: bucket_index_large)
  qed
  then show "0 \<le> bucket_index ns" "bucket_index ns < int BUCKET_COUNT"
    by (simp_all add: bucket_consts)
qed

lemma upper_of_index_large:
  assumes "8 \<le> unat ns"
  shows "unat (bucket_upper_bound_ns (bucket_index ns))
           = Suc (unat ns div 2 ^ log_shift ns) * 2 ^ log_shift ns - 1"
  using bucket_upper_large [OF unat_div_shift_bounds [OF assms] log_shift_bounds(3) [OF assms]]
  by (simp only: bucket_index_large [OF assms])

lemma delay_le_upper: "unat ns \<le> unat (bucket_upper_bound_ns (bucket_index ns))"
proof (cases "unat ns < 8")
  case True
  then show ?thesis by (simp add: bucket_index_small bucket_upper_small del: of_nat_unat)
next
  case False
  have "unat ns < Suc (unat ns div 2 ^ log_shift ns) * 2 ^ log_shift ns"
    using dividend_less_div_times [of "2 ^ log_shift ns" "unat ns"] by (simp add: algebra_simps)
  with False show ?thesis by (simp add: upper_of_index_large del: mult_Suc)
qed

lemma upper_before_delay:
  assumes "bucket_index ns \<noteq> 0"
  shows "unat (bucket_upper_bound_ns (bucket_index ns - 1)) < unat ns"
proof (cases "unat ns < 8")
  case True
  with assms bucket_upper_small [of "int (unat ns) - 1"] show ?thesis
    by (simp add: bucket_index_small del: of_nat_unat)
next
  case False
  let ?q = "unat ns div 2 ^ log_shift ns"
  have "unat (bucket_upper_bound_ns (bucket_index ns - 1)) = ?q * 2 ^ log_shift ns - 1"
    using upper_before_large [OF unat_div_shift_bounds log_shift_bounds(3), of ns ns] False
    by (simp only: bucket_index_large not_less)
  moreover have "?q * 2 ^ log_shift ns \<le> unat ns" by (rule div_times_less_eq_dividend)
  ultimately show ?thesis using False by linarith
qed

lemma upper_error:
  "unat (bucket_upper_bound_ns (bucket_index ns)) \<le> unat ns + unat ns div 8"
  "unat ns < 16 \<Longrightarrow> unat (bucket_upper_bound_ns (bucket_index ns)) = unat ns"
proof -
  let ?u = "unat (bucket_upper_bound_ns (bucket_index ns))"
  have "?u \<le> unat ns + unat ns div 8 \<and> (unat ns < 16 \<longrightarrow> ?u = unat ns)"
  proof (cases "unat ns < 8")
    case True
    then show ?thesis by (simp add: bucket_index_small bucket_upper_small del: of_nat_unat)
  next
    case False
    then have big: "8 \<le> unat ns" by simp
    have "unat ns div 2 ^ log_shift ns * 2 ^ log_shift ns \<le> unat ns"
      by (rule div_times_less_eq_dividend)
    moreover have "2 ^ log_shift ns \<le> unat ns div 8"
      using log_shift_bounds(1) [OF big] by (simp add: less_eq_div_iff_mult_less_eq mult.commute)
    moreover have "?u = unat ns div 2 ^ log_shift ns * 2 ^ log_shift ns + 2 ^ log_shift ns - 1"
      by (simp add: upper_of_index_large [OF big])
    ultimately have "?u \<le> unat ns + unat ns div 8" by linarith
    moreover have "log_shift ns = 0" if "unat ns < 16"
    proof -
      have "(2 :: nat) ^ log_shift ns < 2 ^ 1" using log_shift_bounds(1) [OF big] that by simp
      then have "log_shift ns < 1" by (rule power_less_imp_less_exp [rotated]) simp
      then show ?thesis by simp
    qed
    ultimately show ?thesis by (simp add: upper_of_index_large [OF big])
  qed
  then show "?u \<le> unat ns + unat ns div 8" "unat ns < 16 \<Longrightarrow> ?u = unat ns" by simp_all
qed

lemma bucket_index_mono:
  assumes "(a :: u64) \<le> b"
  shows "bucket_index a \<le> bucket_index b"
proof (cases "bucket_index b = int BUCKET_COUNT - 1")
  case True
  with bucket_index_bounds(2) [of a] show ?thesis by simp
next
  case False
  have le: "unat a \<le> unat b" using assms by (simp add: word_le_nat_alt)
  show ?thesis
  proof (cases "unat a < 8")
    case True
    then show ?thesis using le unat_div_shift_bounds(1) [of b]
      by (cases "unat b < 8") (auto simp: bucket_index_small bucket_index_large simp del: of_nat_unat)
  next
    case big: False
    let ?r = "log_shift a" and ?s = "log_shift b"
    have rs: "?r \<le> ?s"
    proof (rule ccontr)
      assume "\<not> ?r \<le> ?s"
      then have "2 * 2 ^ ?s \<le> (2 :: nat) ^ ?r" using power_increasing [of "Suc ?s" ?r "2 :: nat"] by simp
      with log_shift_bounds(2) [of b] log_shift_bounds(1) [of a] le big show False by simp
    qed
    have "8 * ?r + unat a div 2 ^ ?r \<le> 8 * ?s + unat b div 2 ^ ?s"
    proof (cases "?r = ?s")
      case True
      then show ?thesis using div_le_mono [OF le] by simp
    next
      case False
      with rs unat_div_shift_bounds [of a] unat_div_shift_bounds [of b] big le show ?thesis by simp
    qed
    then show ?thesis using big le by (simp add: bucket_index_large del: of_nat_add of_nat_mult)
  qed
qed

text \<open>
  Every 64-bit delay falls into one of the 496 buckets, never above the bound reported
  for that bucket and above the bound of the bucket before it, so the buckets partition the
  whole range; the reported bound exceeds the delay by at most one eighth of it (the 12.5%
  the class comment promises), and not at all below 16 ns.
\<close>

theorem bucket_contains_delay:
  "0 \<le> bucket_index ns \<and> bucket_index ns < int BUCKET_COUNT \<and>
   ns \<le> bucket_upper_bound_ns (bucket_index ns) \<and>
   (bucket_index ns = 0 \<or> bucket_upper_bound_ns (bucket_index ns - 1) < ns) \<and>
   unat (bucket_upper_bound_ns (bucket_index ns)) \<le> unat ns + unat ns div 8 \<and>
   (bucket_upper_bound_ns (bucket_index ns) = ns \<or> 16 \<le> ns) \<and>
   bucket_upper_bound_ns (int BUCKET_COUNT - 1) = - 1"
proof (intro conjI)
  show "0 \<le> bucket_index ns" "bucket_index ns < int BUCKET_COUNT" by (fact bucket_index_bounds)+
  show "ns \<le> bucket_upper_bound_ns (bucket_index ns)"
    by (simp add: word_le_nat_alt delay_le_upper)
  show "bucket_index ns = 0 \<or> bucket_upper_bound_ns (bucket_index ns - 1) < ns"
    using upper_before_delay [of ns] by (auto simp: word_less_nat_alt)
  show "unat (bucket_upper_bound_ns (bucket_index ns)) \<le> unat ns + unat ns div 8"
    by (fact upper_error)
  show "bucket_upper_bound_ns (bucket_index ns) = ns \<or> 16 \<le> ns"
    using upper_error(2) [of ns] by (auto simp: word_le_nat_alt not_le [symmetric] word_unat_eq_iff)
  show "bucket_upper_bound_ns (int BUCKET_COUNT - 1) = - 1" by code_simp
qed

section \<open>Recording and percentiles\<close>

definition record_all :: "LatencyStats \<Rightarrow> u64 list \<Rightarrow> LatencyStats" where
  "record_all = foldl record_delay"

text \<open>How many of the delays fall into a bucket below \<open>k\<close>.\<close>

definition below_bucket :: "u64 list \<Rightarrow> nat \<Rightarrow> nat" where
  "below_bucket ds k = length (filter (\<lambda>d. bucket_index d < int k) ds)"

definition in_bucket :: "u64 list \<Rightarrow> nat \<Rightarrow> nat" where
  "in_bucket ds k = length (filter (\<lambda>d. bucket_index d = int k) ds)"

lemma below_bucket_Suc: "below_bucket ds (Suc k) = below_bucket ds k + in_bucket ds k"
  by (induction ds) (auto simp: below_bucket_def in_bucket_def)

lemma below_bucket_all: "below_bucket ds BUCKET_COUNT = length ds"
  by (simp add: below_bucket_def bucket_index_bounds(2))

lemma below_bucket_le: "below_bucket ds k \<le> length ds"
  by (simp add: below_bucket_def)

lemma below_bucket_mono: "i \<le> j \<Longrightarrow> below_bucket ds i \<le> below_bucket ds j"
  by (induction rule: inc_induct) (simp_all add: below_bucket_Suc)

lemma buckets_record_all:
  "buckets (record_all new_stats ds) = map (\<lambda>i. of_nat (in_bucket ds i)) [0..<BUCKET_COUNT]"
proof (induction ds rule: rev_induct)
  case Nil
  show ?case by (simp add: record_all_def new_stats_def in_bucket_def map_replicate_const)
next
  case (snoc d ds)
  have "buckets (record_all new_stats (ds @ [d]))
          = (let bs = buckets (record_all new_stats ds); i = nat (bucket_index d)
             in bs[i := bs ! i + 1])"
    by (simp add: record_all_def record_delay_def Let_def)
  also have "\<dots> = map (\<lambda>i. of_nat (in_bucket (ds @ [d]) i)) [0..<BUCKET_COUNT]"
    using bucket_index_bounds [of d]
    by (intro nth_equalityI)
      (auto simp: snoc.IH in_bucket_def nth_list_update Let_def simp del: upt_Suc)
  finally show ?case .
qed

lemma foldl_plus_eq_sum_list: "foldl (+) a xs = a + sum_list (xs :: u64 list)"
  by (induction xs arbitrary: a) (auto simp: add.assoc)

lemma total_record_all: "foldl (+) 0 (buckets (record_all new_stats ds)) = of_nat (length ds)"
proof -
  have "sum_list (map (\<lambda>i. of_nat (in_bucket ds i)) [0..<k]) = (of_nat (below_bucket ds k) :: u64)" for k
    by (induction k) (auto simp: below_bucket_Suc, simp add: below_bucket_def bucket_index_bounds(1) leD)
  then show ?thesis
    by (simp add: foldl_plus_eq_sum_list buckets_record_all below_bucket_all)
qed

lemma percentile_scan_finds:
  assumes "i \<le> j" and "j < BUCKET_COUNT" and "length ds < 2 ^ 64" and "k < 2 ^ 64"
    and "k \<le> below_bucket ds (Suc j)" and "below_bucket ds j < k"
  shows "percentile_scan (of_nat k) (of_nat (below_bucket ds i)) i
           (map (\<lambda>i. of_nat (in_bucket ds i)) [i..<BUCKET_COUNT]) = bucket_upper_bound_ns (int j)"
  using assms(1)
proof (induction rule: inc_induct)
  case base
  have "of_nat k \<le> (of_nat (below_bucket ds (Suc j)) :: u64)"
    using assms(3, 4, 5) below_bucket_le [of ds "Suc j"]
    by (simp add: word_le_nat_alt unsigned_of_nat take_bit_nat_eq_self)
  then show ?case
    by (simp add: upt_conv_Cons [OF assms(2)] below_bucket_Suc Let_def)
next
  case (step m)
  have "below_bucket ds (Suc m) \<le> below_bucket ds j"
    using step.hyps by (simp add: below_bucket_mono)
  with assms(6) have "\<not> of_nat k \<le> (of_nat (below_bucket ds (Suc m)) :: u64)"
    using assms(4) by (simp add: word_le_nat_alt unsigned_of_nat take_bit_nat_eq_self)
  with step.IH show ?case
    using step.hyps assms(2)
    by (simp add: upt_conv_Cons below_bucket_Suc Let_def del: upt_Suc)
qed

text \<open>In a sorted list, counting with a threshold is counting a prefix.\<close>

lemma length_filter_prefix:
  assumes "k \<le> length xs"
  shows "(\<And>i. i < k \<Longrightarrow> P (xs ! i)) \<Longrightarrow> k \<le> length (filter P xs)"
    and "(\<And>i. k \<le> i \<Longrightarrow> i < length xs \<Longrightarrow> \<not> P (xs ! i)) \<Longrightarrow> length (filter P xs) \<le> k"
proof -
  have split: "length (filter P xs) = length (filter P (take k xs)) + length (filter P (drop k xs))"
    by (metis append_take_drop_id filter_append length_append)
  show "k \<le> length (filter P xs)" if "\<And>i. i < k \<Longrightarrow> P (xs ! i)"
  proof -
    have "\<forall>x \<in> set (take k xs). P x" using that assms by (auto simp: in_set_conv_nth)
    then have "filter P (take k xs) = take k xs" by (simp add: filter_id_conv)
    with split assms show ?thesis by simp
  qed
  show "length (filter P xs) \<le> k" if "\<And>i. k \<le> i \<Longrightarrow> i < length xs \<Longrightarrow> \<not> P (xs ! i)"
  proof -
    have "\<forall>x \<in> set (drop k xs). \<not> P x" using that by (auto simp: in_set_conv_nth)
    then have "filter P (drop k xs) = []" by (simp add: filter_empty_conv)
    with split length_filter_le [of P "take k xs"] assms show ?thesis by simp
  qed
qed

lemma rank_in_bucket:
  assumes "0 < k" and "k \<le> length ds"
  defines "j \<equiv> nat (bucket_index (sort ds ! (k - 1)))"
  shows "k \<le> below_bucket ds (Suc j)" and "below_bucket ds j < k"
proof -
  let ?x = "sort ds ! (k - 1)"
  have j: "int j = bucket_index ?x" using bucket_index_bounds(1) by (simp add: j_def)
  have sorted: "sort ds ! i \<le> sort ds ! i'" if "i \<le> i'" "i' < length ds" for i i'
    using that by (intro sorted_nth_mono) auto
  have count: "below_bucket ds n = length (filter (\<lambda>d. bucket_index d < int n) (sort ds))" for n
    unfolding below_bucket_def by (metis mset_filter mset_sort size_mset)
  show "k \<le> below_bucket ds (Suc j)"
    unfolding count
  proof (rule length_filter_prefix(1))
    fix i assume "i < k"
    then have "bucket_index (sort ds ! i) \<le> bucket_index ?x"
      using assms by (intro bucket_index_mono sorted) auto
    then show "bucket_index (sort ds ! i) < int (Suc j)" using j by simp
  qed (use assms in simp)
  have "below_bucket ds j \<le> k - 1"
    unfolding count
  proof (rule length_filter_prefix(2))
    fix i assume "k - 1 \<le> i" "i < length (sort ds)"
    then have "bucket_index ?x \<le> bucket_index (sort ds ! i)"
      using assms by (intro bucket_index_mono sorted) auto
    then show "\<not> bucket_index (sort ds ! i) < int j" using j by simp
  qed (use assms in simp)
  then show "below_bucket ds j < k" using assms(1) by simp
qed

text \<open>
  (C26) After recording a non-empty list of fewer than \<open>2\<^sup>64\<close> delays, the percentile \<open>p\<close> in
  \<open>(0, 1]\<close> is the bound of the bucket that holds the \<open>\<lceil>n p\<rceil>\<close>-th smallest delay: it is never
  below that delay and at most one eighth above it. A \<open>p\<close> outside the range, or an empty
  histogram, gives 0.
\<close>

theorem percentile_is_rank_bucket:
  assumes "ds \<noteq> []" and "length ds < 2 ^ 64" and "0 < p" and "p \<le> 1"
  defines "x \<equiv> sort ds ! (nat \<lceil>real (length ds) * p\<rceil> - 1)"
  shows "percentile (record_all new_stats ds) p = bucket_upper_bound_ns (bucket_index x) \<and>
    x \<le> percentile (record_all new_stats ds) p \<and>
    unat (percentile (record_all new_stats ds) p) \<le> unat x + unat x div 8 \<and>
    (p' \<le> 0 \<or> 1 < p' \<longrightarrow> percentile s p' = 0) \<and>
    percentile new_stats p' = 0"
proof -
  define n k where "n = length ds" and "k = nat \<lceil>real n * p\<rceil>"
  have n: "0 < n" "n < 2 ^ 64" using assms(1, 2) by (auto simp: n_def)
  have "0 < real n * p" "real n * p \<le> real n" using n assms(3, 4) by (auto simp: mult_left_le)
  then have k: "0 < k" "k \<le> n" "\<lceil>real n * p\<rceil> = int k"
    by (auto simp: k_def ceiling_le_iff zero_less_ceiling nat_le_iff)
  let ?j = "nat (bucket_index x)"
  have x: "x = sort ds ! (k - 1)" by (simp add: x_def k_def n_def)
  have total: "unat (of_nat n :: u64) = n" using n(2) by (simp add: unsigned_of_nat take_bit_nat_eq_self)
  then have "of_nat n \<noteq> (0 :: u64)" using n(1) by auto
  then have "percentile (record_all new_stats ds) p
      = percentile_scan (of_int \<lceil>real (unat (of_nat n :: u64)) * p\<rceil>) 0 0 (buckets (record_all new_stats ds))"
    using assms(3, 4) by (simp add: percentile_def Let_def total_record_all n_def del: of_nat_unat)
  also have "\<dots> = percentile_scan (of_nat k) 0 0 (map (\<lambda>i. of_nat (in_bucket ds i)) [0..<BUCKET_COUNT])"
    by (simp only: total k(3) buckets_record_all of_int_of_nat_eq)
  also have "\<dots> = bucket_upper_bound_ns (int ?j)"
    using percentile_scan_finds [of 0 ?j ds k] rank_in_bucket [of k ds] k n bucket_index_bounds [of x]
    by (simp add: x n_def below_bucket_def leD bucket_index_bounds(1) nat_less_iff)
  finally have *: "percentile (record_all new_stats ds) p = bucket_upper_bound_ns (bucket_index x)"
    by (simp add: bucket_index_bounds(1))
  moreover have "x \<le> percentile (record_all new_stats ds) p"
    by (simp add: * word_le_nat_alt delay_le_upper)
  moreover have "unat (percentile (record_all new_stats ds) p) \<le> unat x + unat x div 8"
    by (simp add: * upper_error(1))
  moreover have "percentile s p' = 0" if "p' \<le> 0 \<or> 1 < p'" using that by (auto simp: percentile_def)
  moreover have "percentile new_stats p' = 0"
    using total_record_all [of "[]"] by (simp add: percentile_def record_all_def)
  ultimately show ?thesis by blast
qed

theorem percentile_is_rank_bucket_witness:
  "percentile (record_all new_stats [5, 100, 7]) (1 / 2) = 7 \<and>
   (100 :: u64) \<le> percentile (record_all new_stats [5, 100, 7]) 1 \<and>
   unat (percentile (record_all new_stats [5, 100, 7]) 1) \<le> 112 \<and>
   percentile new_stats 2 = 0"
proof -
  have sort: "sort [5, 100, 7 :: u64] = [5, 7, 100]" by simp
  have ceil: "\<lceil>3 / 2 :: real\<rceil> = 2" by linarith
  have index: "bucket_upper_bound_ns (bucket_index 7) = 7" by code_simp
  note p = percentile_is_rank_bucket [where ds = "[5, 100, 7]"]
  have "percentile (record_all new_stats [5, 100, 7]) (1 / 2) = 7"
    using p [where p = "1 / 2"] by (simp add: sort ceil index)
  moreover have "(100 :: u64) \<le> percentile (record_all new_stats [5, 100, 7]) 1 \<and>
      unat (percentile (record_all new_stats [5, 100, 7]) 1) \<le> 112"
    using p [where p = 1 and p' = 2 and s = new_stats] by (auto simp: sort)
  moreover have "percentile new_stats 2 = 0"
    using p [where p = 1 and p' = 2] by simp
  ultimately show ?thesis by simp
qed

section \<open>Concurrent recording\<close>

text \<open>
  The program counter of a thread inside \<^verbatim>\<open>record\<close>, between two atomic operations. Every
  operation of the code is one atomic access to one counter (relaxed order), so the steps of
  different threads interleave freely. The weak compare-and-exchange may fail spuriously;
  it then reloads \<^verbatim>\<open>old_max\<close>.
\<close>

datatype rec_pc = At_bucket | At_total | At_load_max | At_loop u64 | At_count | Finished

type_synonym recorder = "u64 \<times> rec_pc"

inductive rec_step :: "LatencyStats \<times> recorder list \<Rightarrow> LatencyStats \<times> recorder list \<Rightarrow> bool" where
  add_bucket: "i < length ts \<Longrightarrow> ts ! i = (d, At_bucket) \<Longrightarrow> b = nat (bucket_index d) \<Longrightarrow>
    rec_step (s, ts) (s\<lparr>buckets := (buckets s)[b := buckets s ! b + 1]\<rparr>, ts[i := (d, At_total)])"
| add_total: "i < length ts \<Longrightarrow> ts ! i = (d, At_total) \<Longrightarrow>
    rec_step (s, ts) (s\<lparr>total_delay_ns := total_delay_ns s + d\<rparr>, ts[i := (d, At_load_max)])"
| load_max: "i < length ts \<Longrightarrow> ts ! i = (d, At_load_max) \<Longrightarrow>
    rec_step (s, ts) (s, ts[i := (d, At_loop (max_delay_ns s))])"
| loop_exit: "i < length ts \<Longrightarrow> ts ! i = (d, At_loop old) \<Longrightarrow> \<not> old < d \<Longrightarrow>
    rec_step (s, ts) (s, ts[i := (d, At_count)])"
| cas_success: "i < length ts \<Longrightarrow> ts ! i = (d, At_loop old) \<Longrightarrow> old < d \<Longrightarrow> max_delay_ns s = old \<Longrightarrow>
    rec_step (s, ts) (s\<lparr>max_delay_ns := d\<rparr>, ts[i := (d, At_count)])"
| cas_failure: "i < length ts \<Longrightarrow> ts ! i = (d, At_loop old) \<Longrightarrow> old < d \<Longrightarrow>
    rec_step (s, ts) (s, ts[i := (d, At_loop (max_delay_ns s))])"
| add_count: "i < length ts \<Longrightarrow> ts ! i = (d, At_count) \<Longrightarrow>
    rec_step (s, ts) (s\<lparr>rec_count := rec_count s + 1\<rparr>, ts[i := (d, Finished)])"

definition start_recorders :: "u64 list \<Rightarrow> LatencyStats \<times> recorder list" where
  "start_recorders ds = (new_stats, map (\<lambda>d. (d, At_bucket)) ds)"

text \<open>What each thread has contributed so far.\<close>

fun gave_bucket :: "nat \<Rightarrow> recorder \<Rightarrow> u64" where
  "gave_bucket b (d, pc) = (if pc \<noteq> At_bucket \<and> nat (bucket_index d) = b then 1 else 0)"

fun gave_total :: "recorder \<Rightarrow> u64" where
  "gave_total (d, pc) = (if pc = At_bucket \<or> pc = At_total then 0 else d)"

fun gave_count :: "recorder \<Rightarrow> u64" where
  "gave_count (d, pc) = (if pc = Finished then 1 else 0)"

text \<open>The maximum a thread knows is not above the counter, and past the loop its own delay is not.\<close>

fun max_ok :: "u64 \<Rightarrow> recorder \<Rightarrow> bool" where
  "max_ok m (d, pc) = (case pc of At_loop old \<Rightarrow> old \<le> m
     | At_count \<Rightarrow> d \<le> m | Finished \<Rightarrow> d \<le> m | _ \<Rightarrow> True)"

definition max_oks :: "u64 \<Rightarrow> recorder list \<Rightarrow> bool" where
  "max_oks m ts = (\<forall>t \<in> set ts. max_ok m t)"

definition rec_inv :: "u64 list \<Rightarrow> LatencyStats \<times> recorder list \<Rightarrow> bool" where
  "rec_inv ds c = (case c of (s, ts) \<Rightarrow>
     map fst ts = ds \<and>
     buckets s = map (\<lambda>b. sum_list (map (gave_bucket b) ts)) [0..<BUCKET_COUNT] \<and>
     total_delay_ns s = sum_list (map gave_total ts) \<and>
     rec_count s = sum_list (map gave_count ts) \<and>
     max_oks (max_delay_ns s) ts \<and>
     max_delay_ns s \<in> insert 0 (set ds))"

lemma sum_list_map_update:
  "i < length ts \<Longrightarrow> sum_list (map f (ts[i := t])) = sum_list (map f ts) + (f t - f (ts ! i) :: u64)"
  by (induction ts arbitrary: i) (auto split: nat.splits simp: nth_Cons')

lemma map_fst_update:
  "i < length ts \<Longrightarrow> ts ! i = (d, pc) \<Longrightarrow> map fst (ts[i := (d, pc')]) = map fst ts"
  by (metis fst_conv list_update_id map_update)

lemma max_oks_update: "max_oks m ts \<Longrightarrow> max_ok m t \<Longrightarrow> max_oks m (ts[i := t])"
  using set_update_subset_insert [of ts i t] by (auto simp: max_oks_def simp del: max_ok.simps)

lemma max_oks_mono: "max_oks m ts \<Longrightarrow> m \<le> m' \<Longrightarrow> max_oks m' ts"
  by (fastforce simp: max_oks_def split: rec_pc.splits)

lemma max_oks_nth: "max_oks m ts \<Longrightarrow> i < length ts \<Longrightarrow> ts ! i = t \<Longrightarrow> max_ok m t"
  by (auto simp: max_oks_def simp del: max_ok.simps)

lemmas rec_inv_simps = rec_inv_def sum_list_map_update map_fst_update max_oks_update

lemma rec_inv_start: "rec_inv ds (start_recorders ds)"
proof -
  have "sum_list (map (\<lambda>x. 0 :: u64) ds) = 0" by (induction ds) auto
  then show ?thesis
    by (auto simp: rec_inv_def start_recorders_def new_stats_def comp_def max_oks_def
        intro!: nth_equalityI simp del: upt_Suc)
qed

lemma rec_inv_step:
  assumes "rec_step c c'" and "rec_inv ds c"
  shows "rec_inv ds c'"
  using assms
proof (induction rule: rec_step.induct)
  case (add_bucket i ts d b s)
  have "b < BUCKET_COUNT" using bucket_index_bounds [of d] add_bucket.hyps(3) by simp
  with add_bucket show ?case
    by (auto simp: rec_inv_simps nth_list_update intro!: nth_equalityI simp del: upt_Suc)
next
  case (cas_success i ts d old s)
  then have "max_oks d ts" by (auto simp: rec_inv_def intro: max_oks_mono)
  moreover have "d \<in> set ds"
    using cas_success by (auto simp: rec_inv_def in_set_conv_nth intro!: exI [of _ i])
  ultimately show ?case
    using cas_success by (auto simp: rec_inv_simps)
next
  case (loop_exit i ts d old s)
  then have "max_ok (max_delay_ns s) (d, At_loop old)"
    using max_oks_nth [of "max_delay_ns s" ts i] by (simp add: rec_inv_def)
  with loop_exit show ?case by (auto simp: rec_inv_simps)
next
  case (add_count i ts d s)
  then have "max_ok (max_delay_ns s) (d, At_count)"
    using max_oks_nth [of "max_delay_ns s" ts i] by (simp add: rec_inv_def)
  with add_count show ?case by (auto simp: rec_inv_simps)
qed (auto simp: rec_inv_simps)

lemma rec_inv_reachable:
  "rec_step\<^sup>*\<^sup>* (start_recorders ds) c \<Longrightarrow> rec_inv ds c"
  by (induction rule: rtranclp_induct) (auto intro: rec_inv_start rec_inv_step)

lemma record_all_fields:
  "rec_count (record_all new_stats ds) = of_nat (length ds)"
  "total_delay_ns (record_all new_stats ds) = sum_list ds"
  "max_delay_ns (record_all new_stats ds) = fold max ds 0"
proof (induction ds rule: rev_induct)
  case Nil
  { case 1 show ?case by (simp add: record_all_def new_stats_def) }
  { case 2 show ?case by (simp add: record_all_def new_stats_def) }
  { case 3 show ?case by (simp add: record_all_def new_stats_def) }
next
  case (snoc d ds)
  { case 1 show ?case using snoc by (simp add: record_all_def record_delay_def Let_def) }
  { case 2 show ?case using snoc by (simp add: record_all_def record_delay_def Let_def) }
  { case 3 show ?case using snoc by (auto simp: record_all_def record_delay_def Let_def max.absorb1 max.absorb2) }
qed

lemma fold_max_unique:
  assumes "(m :: u64) \<in> insert 0 (set ds)" and "\<forall>d \<in> set ds. d \<le> m"
  shows "m = fold max ds 0"
proof -
  have "fold max ds 0 = Max (insert 0 (set ds))" by (simp add: Max.set_eq_fold [symmetric])
  moreover have "Max (insert 0 (set ds)) = m" using assms by (intro Max_eqI) auto
  ultimately show ?thesis by simp
qed

text \<open>A thread that runs alone performs \<^const>\<open>record_delay\<close>.\<close>

lemma record_delay_is_run:
  assumes "i < length ts" and "ts ! i = (d, At_bucket)"
  shows "rec_step\<^sup>*\<^sup>* (s, ts) (record_delay s d, ts[i := (d, Finished)])"
proof -
  let ?b = "nat (bucket_index d)"
  let ?s1 = "s\<lparr>buckets := (buckets s)[?b := buckets s ! ?b + 1]\<rparr>"
  let ?s2 = "?s1\<lparr>total_delay_ns := total_delay_ns ?s1 + d\<rparr>"
  let ?s3 = "if max_delay_ns ?s2 < d then ?s2\<lparr>max_delay_ns := d\<rparr> else ?s2"
  have "rec_step (s, ts) (?s1, ts[i := (d, At_total)])"
    using assms by (intro rec_step.add_bucket) auto
  moreover have "rec_step (?s1, ts[i := (d, At_total)]) (?s2, ts[i := (d, At_load_max)])"
    using rec_step.add_total [of i "ts[i := (d, At_total)]" d ?s1] assms by simp
  moreover have "rec_step (?s2, ts[i := (d, At_load_max)]) (?s2, ts[i := (d, At_loop (max_delay_ns ?s2))])"
    using rec_step.load_max [of i "ts[i := (d, At_load_max)]" d ?s2] assms by simp
  moreover have "rec_step (?s2, ts[i := (d, At_loop (max_delay_ns ?s2))]) (?s3, ts[i := (d, At_count)])"
    using rec_step.cas_success [of i "ts[i := (d, At_loop (max_delay_ns ?s2))]" d _ ?s2]
      rec_step.loop_exit [of i "ts[i := (d, At_loop (max_delay_ns ?s2))]" d _ ?s2] assms by simp
  moreover have "rec_step (?s3, ts[i := (d, At_count)])
      (?s3\<lparr>rec_count := rec_count ?s3 + 1\<rparr>, ts[i := (d, Finished)])"
    using rec_step.add_count [of i "ts[i := (d, At_count)]" d ?s3] assms by simp
  ultimately show ?thesis
    unfolding record_delay_def Let_def
    by (meson converse_rtranclp_into_rtranclp rtranclp.rtrancl_refl)
qed

text \<open>
  (C27) However the atomic operations of concurrent \<^verbatim>\<open>record\<close> calls interleave, once all of
  them have finished the histogram, the count, the total and the maximum are those of
  recording the same delays one after the other: no update is lost.
\<close>

theorem concurrent_recording_is_sequential:
  assumes "rec_step\<^sup>*\<^sup>* (start_recorders ds) (s, ts)" and "\<forall>t \<in> set ts. snd t = Finished"
  shows "s = record_all new_stats ds"
proof -
  from rec_inv_reachable [OF assms(1)] have inv: "rec_inv ds (s, ts)" .
  have ts: "ts = map (\<lambda>d. (d, Finished)) ds"
    using inv assms(2) by (auto simp: rec_inv_def intro!: nth_equalityI simp: prod_eq_iff)
  have "sum_list (map (gave_bucket b) ts) = of_nat (in_bucket ds b)" for b
    unfolding ts using bucket_index_bounds(1)
    by (induction ds) (auto simp: in_bucket_def)
  moreover have "sum_list (map gave_total ts) = sum_list ds" by (simp add: ts comp_def)
  moreover have "sum_list (map gave_count ts) = of_nat (length ds)"
    unfolding ts by (induction ds) auto
  moreover have "max_delay_ns s = fold max ds 0"
    by (rule fold_max_unique) (use inv in \<open>auto simp: rec_inv_def max_oks_def ts\<close>)
  ultimately show ?thesis
    using inv by (simp add: rec_inv_def buckets_record_all record_all_fields)
qed

theorem concurrent_recording_is_sequential_witness:
  "\<exists>s ts. rec_step\<^sup>*\<^sup>* (start_recorders [5, 900]) (s, ts) \<and> (\<forall>t \<in> set ts. snd t = Finished) \<and>
     s = record_all new_stats [5, 900] \<and> max_delay_ns s = 900"
proof -
  let ?s = "record_delay (record_delay new_stats 900) 5"
  let ?ts = "[(5, Finished), (900, Finished)]"
  have "rec_step\<^sup>*\<^sup>* (new_stats, [(5, At_bucket), (900, At_bucket)])
          (record_delay new_stats 900, [(5, At_bucket), (900, Finished)])"
    using record_delay_is_run [of 1 "[(5, At_bucket), (900, At_bucket)]" 900] by simp
  also have "rec_step\<^sup>*\<^sup>* \<dots> (?s, ?ts)"
    using record_delay_is_run [of 0 "[(5, At_bucket), (900, Finished)]" 5] by simp
  finally have run: "rec_step\<^sup>*\<^sup>* (start_recorders [5, 900]) (?s, ?ts)"
    by (simp add: start_recorders_def)
  have "max_delay_ns ?s = 900" by (simp add: record_delay_def Let_def new_stats_def)
  moreover have "?s = record_all new_stats [5, 900]"
    by (rule concurrent_recording_is_sequential [OF run]) simp
  ultimately show ?thesis using run by (intro exI [of _ ?s] exI [of _ ?ts]) simp
qed

end
