(* ===== verification/WebSocket_Frame.thy ===== *)
theory WebSocket_Frame
  imports Prelude
begin

text \<open>
  WebSocket framing of \<^verbatim>\<open>src/core/network/https_client_websocket\<close>: the frame builder
  (\<^verbatim>\<open>websocket_frame_builder\<close>), with the random masking key as an argument, and the incremental
  frame parser (\<^verbatim>\<open>websocket_frame_parser\<close>). Bytes are \<^typ>\<open>byte\<close>, a payload pointer is an
  optional byte list with a separate 64-bit size, \<^verbatim>\<open>size_t\<close> sums that can wrap are taken
  modulo \<open>2\<^sup>64\<close>. The lemmas show that parsing inverts building for any fragmentation of the
  byte stream and that the parser's result does not depend on the fragmentation.
\<close>

section \<open>Frame builder\<close>

datatype Opcode = Continuation | Text | Binary | Close | Ping | Pong

fun opcode_value :: "Opcode \<Rightarrow> byte" where
  "opcode_value Continuation = 0x0"
| "opcode_value Text = 0x1"
| "opcode_value Binary = 0x2"
| "opcode_value Close = 0x8"
| "opcode_value Ping = 0x9"
| "opcode_value Pong = 0xA"

type_synonym mask_key = "byte \<times> byte \<times> byte \<times> byte"

fun key_bytes :: "mask_key \<Rightarrow> byte list" where
  "key_bytes (k0, k1, k2, k3) = [k0, k1, k2, k3]"

definition append_u16_be :: "byte list \<Rightarrow> 16 word \<Rightarrow> byte list" where
  "append_u16_be out v = out @ [ucast (drop_bit 8 v AND 0xFF), ucast (v AND 0xFF)]"

definition append_u64_be :: "byte list \<Rightarrow> u64 \<Rightarrow> byte list" where
  "append_u64_be out v = out @
     [ucast (drop_bit 56 v AND 0xFF), ucast (drop_bit 48 v AND 0xFF), ucast (drop_bit 40 v AND 0xFF),
      ucast (drop_bit 32 v AND 0xFF), ucast (drop_bit 24 v AND 0xFF), ucast (drop_bit 16 v AND 0xFF),
      ucast (drop_bit 8 v AND 0xFF), ucast (v AND 0xFF)]"

definition is_control_opcode :: "Opcode \<Rightarrow> bool" where
  "is_control_opcode opcode \<longleftrightarrow> 0x8 \<le> opcode_value opcode"

definition append_payload_length :: "byte list \<Rightarrow> u64 \<Rightarrow> bool \<Rightarrow> byte list" where
  "append_payload_length out payload_size use_mask =
     (let mask_bit = (if use_mask then 0x80 else 0x00 :: byte)
      in if payload_size \<le> 125 then out @ [mask_bit OR ucast payload_size]
         else if payload_size \<le> 65535
         then append_u16_be (out @ [mask_bit OR 126]) (ucast payload_size)
         else append_u64_be (out @ [mask_bit OR 127]) payload_size)"

definition append_masking_key :: "byte list \<Rightarrow> mask_key \<Rightarrow> byte list" where
  "append_masking_key out key = out @ key_bytes key"

definition append_payload_masked :: "byte list \<Rightarrow> byte list \<Rightarrow> u64 \<Rightarrow> mask_key \<Rightarrow> byte list" where
  "append_payload_masked out payload payload_size key =
     out @ map (\<lambda>i. payload ! i XOR key_bytes key ! (i AND 0x3)) [0..<unat payload_size]"

definition append_payload_unmasked :: "byte list \<Rightarrow> byte list option \<Rightarrow> u64 \<Rightarrow> byte list" where
  "append_payload_unmasked out payload payload_size =
     (case payload of
        None \<Rightarrow> out
      | Some bytes \<Rightarrow> if payload_size = 0 then out else out @ take (unat payload_size) bytes)"

text \<open>
  \<open>key\<close> is what \<^verbatim>\<open>generate_masking_key\<close> draws. A payload shorter than the announced size
  would be read out of bounds.
\<close>

definition build_frame ::
  "mask_key \<Rightarrow> Opcode \<Rightarrow> byte list option \<Rightarrow> u64 \<Rightarrow> bool \<Rightarrow> bool \<Rightarrow> cpp_error + byte list" where
  "build_frame key opcode payload payload_size fin use_mask =
     (if payload = None \<and> payload_size > 0
      then Inl (Runtime_error ''WebSocketFrameBuilder payload is null'')
      else if is_control_opcode opcode \<and> \<not> fin
      then Inl (Runtime_error ''Control frame must not be fragmented'')
      else if is_control_opcode opcode \<and> payload_size > 125
      then Inl (Runtime_error ''Control frame payload must be <= 125'')
      else if length (case_option [] id payload) < unat payload_size then Inl UB_out_of_bounds
      else
        let first_byte = (if fin then 0x80 else 0x00) OR opcode_value opcode;
            out = append_payload_length [first_byte] payload_size use_mask
        in Inr (if use_mask
                then append_payload_masked (append_masking_key out key)
                       (case_option [] id payload) payload_size key
                else append_payload_unmasked out payload payload_size))"

definition build_frame_string ::
  "mask_key \<Rightarrow> Opcode \<Rightarrow> byte list \<Rightarrow> bool \<Rightarrow> bool \<Rightarrow> cpp_error + byte list" where
  "build_frame_string key opcode payload fin use_mask =
     build_frame key opcode (Some payload) (of_nat (length payload)) fin use_mask"

definition build_frame_vector ::
  "mask_key \<Rightarrow> Opcode \<Rightarrow> byte list \<Rightarrow> bool \<Rightarrow> bool \<Rightarrow> cpp_error + byte list" where
  "build_frame_vector key opcode payload fin use_mask =
     (if payload = [] then build_frame key opcode None 0 fin use_mask
      else build_frame key opcode (Some payload) (of_nat (length payload)) fin use_mask)"

definition build_text :: "mask_key \<Rightarrow> byte list \<Rightarrow> bool \<Rightarrow> bool \<Rightarrow> cpp_error + byte list" where
  "build_text key text fin use_mask = build_frame_string key Text text fin use_mask"

definition build_binary :: "mask_key \<Rightarrow> byte list \<Rightarrow> bool \<Rightarrow> bool \<Rightarrow> cpp_error + byte list" where
  "build_binary key payload fin use_mask = build_frame_vector key Binary payload fin use_mask"

definition build_ping :: "mask_key \<Rightarrow> byte list \<Rightarrow> bool \<Rightarrow> cpp_error + byte list" where
  "build_ping key payload use_mask = build_frame_string key Ping payload True use_mask"

definition build_pong :: "mask_key \<Rightarrow> byte list \<Rightarrow> bool \<Rightarrow> cpp_error + byte list" where
  "build_pong key payload use_mask = build_frame_string key Pong payload True use_mask"

definition build_close :: "mask_key \<Rightarrow> bool \<Rightarrow> cpp_error + byte list" where
  "build_close key use_mask = build_frame key Close None 0 True use_mask"

definition build_close_reason ::
  "mask_key \<Rightarrow> 16 word \<Rightarrow> byte list \<Rightarrow> bool \<Rightarrow> cpp_error + byte list" where
  "build_close_reason key close_code reason use_mask =
     build_frame_vector key Close
       ([ucast (drop_bit 8 close_code AND 0xFF), ucast (close_code AND 0xFF)] @ reason) True use_mask"

section \<open>Frame parser\<close>

record Frame =
  fin :: bool
  rsv1 :: bool
  rsv2 :: bool
  rsv3 :: bool
  masked :: bool
  opcode :: byte
  payload :: "byte list"

definition is_control_frame :: "Frame \<Rightarrow> bool" where
  "is_control_frame f \<longleftrightarrow> 0x8 \<le> opcode f"

record WebSocketFrameParser =
  m_buffer :: "byte list"
  m_parse_offset :: nat

definition new_parser :: WebSocketFrameParser where
  "new_parser = \<lparr>m_buffer = [], m_parse_offset = 0\<rparr>"

definition buffered_size :: "WebSocketFrameParser \<Rightarrow> nat" where
  "buffered_size s = length (m_buffer s) - m_parse_offset s"

definition feed :: "WebSocketFrameParser \<Rightarrow> byte list \<Rightarrow> WebSocketFrameParser" where
  "feed s data = (if data = [] then s else s\<lparr>m_buffer := m_buffer s @ data\<rparr>)"

definition clear_parser :: "WebSocketFrameParser \<Rightarrow> WebSocketFrameParser" where
  "clear_parser s = s\<lparr>m_buffer := [], m_parse_offset := 0\<rparr>"

definition read_u16_be :: "byte list \<Rightarrow> 16 word" where
  "read_u16_be p = push_bit 8 (ucast (p ! 0)) OR ucast (p ! 1)"

definition read_u64_be :: "byte list \<Rightarrow> u64" where
  "read_u64_be p =
     push_bit 56 (ucast (p ! 0)) OR push_bit 48 (ucast (p ! 1)) OR push_bit 40 (ucast (p ! 2)) OR
     push_bit 32 (ucast (p ! 3)) OR push_bit 24 (ucast (p ! 4)) OR push_bit 16 (ucast (p ! 5)) OR
     push_bit 8 (ucast (p ! 6)) OR ucast (p ! 7)"

text \<open>The length field: the payload length and the header size after it, or \<open>None\<close> to wait.\<close>

definition read_payload_len :: "byte list \<Rightarrow> (u64 \<times> nat) option" where
  "read_payload_len p =
     (let available = length p;
          payload_len = ucast (p ! 1 AND 0x7F) :: u64;
          header_size = 2
      in if payload_len = 126 then
           (if available < header_size + 2 then None
            else Some (ucast (read_u16_be (drop header_size p)), header_size + 2))
         else if payload_len = 127 then
           (if available < header_size + 8 then None
            else Some (read_u64_be (drop header_size p), header_size + 8))
         else Some (payload_len, header_size))"

text \<open>
  The largest \<^verbatim>\<open>std::vector<char>\<close>; \<^verbatim>\<open>resize\<close> beyond it throws. The parser's own test for
  payloads larger than \<^verbatim>\<open>size_t\<close> compares a 64-bit value with the largest 64-bit value.
\<close>

definition MAX_VECTOR_SIZE :: nat where
  "MAX_VECTOR_SIZE = 2 ^ 63 - 1"

definition try_parse_one_frame ::
  "WebSocketFrameParser \<Rightarrow> cpp_error + (Frame option \<times> WebSocketFrameParser)" where
  "try_parse_one_frame s =
     (let available = length (m_buffer s) - m_parse_offset s;
          p = drop (m_parse_offset s) (m_buffer s)
      in if available < 2 then Inr (None, s)
         else
           let b0 = p ! 0; b1 = p ! 1;
               frame = \<lparr>fin = (b0 AND 0x80 \<noteq> 0), rsv1 = (b0 AND 0x40 \<noteq> 0), rsv2 = (b0 AND 0x20 \<noteq> 0),
                        rsv3 = (b0 AND 0x10 \<noteq> 0), masked = (b1 AND 0x80 \<noteq> 0),
                        opcode = b0 AND 0x0F, payload = []\<rparr>
           in case read_payload_len p of
                None \<Rightarrow> Inr (None, s)
              | Some (payload_len, header_size) \<Rightarrow>
                  if masked frame \<and> available < header_size + 4 then Inr (None, s)
                  else
                    let masking_key = (if masked frame then take 4 (drop header_size p) else [0, 0, 0, 0]);
                        header_size = (if masked frame then header_size + 4 else header_size)
                    in if unat payload_len > SIZE_MOD - 1
                       then Inl (Runtime_error ''WebSocketFrameParser payload too large'')
                       else
                         let total_size = (header_size + unat payload_len) mod SIZE_MOD
                         in if available < total_size then Inr (None, s)
                            else if unat payload_len > MAX_VECTOR_SIZE
                            then Inl (Length_error ''vector::_M_default_append'')
                            else
                              let payload_ptr = drop header_size p;
                                  bytes = (if \<not> masked frame then take (unat payload_len) payload_ptr
                                           else map (\<lambda>i. payload_ptr ! i XOR masking_key ! (i AND 0x3))
                                                  [0..<unat payload_len])
                              in Inr (Some (frame\<lparr>payload := bytes\<rparr>),
                                      s\<lparr>m_parse_offset := m_parse_offset s + total_size\<rparr>))"

definition compact :: "WebSocketFrameParser \<Rightarrow> WebSocketFrameParser" where
  "compact s =
     (if m_parse_offset s > 0 then
        (if m_parse_offset s = length (m_buffer s) then s\<lparr>m_buffer := [], m_parse_offset := 0\<rparr>
         else if m_parse_offset s \<ge> 4096 \<or> m_parse_offset s > length (m_buffer s) div 2
         then s\<lparr>m_buffer := drop (m_parse_offset s) (m_buffer s), m_parse_offset := 0\<rparr>
         else s)
      else s)"

section \<open>Byte order\<close>

lemma byte_and_ff: "(x AND 0xFF) = take_bit 8 (x :: 'a::len word)"
  by (simp add: take_bit_eq_mask mask_eq_exp_minus_1)

lemma read_append_u16_be:
  "read_u16_be (append_u16_be [] v @ rest) = v"
  unfolding read_u16_be_def append_u16_be_def byte_and_ff
  by (rule bit_word_eqI) (auto simp: bit_simps)

lemma read_append_u64_be:
  "read_u64_be (append_u64_be [] v @ rest) = v"
proof (rule bit_word_eqI)
  fix n assume n: "n < LENGTH(64)"
  have part: "bit (push_bit k (ucast (ucast (take_bit 8 (drop_bit k v)) :: byte)) :: u64) n
      \<longleftrightarrow> k \<le> n \<and> n < k + 8 \<and> bit v n" for k
    using n by (auto simp: bit_simps)
  have part0: "bit (ucast (ucast (take_bit 8 v) :: byte) :: u64) n \<longleftrightarrow> n < 8 \<and> bit v n"
    using n by (auto simp: bit_simps)
  have "n < 8 \<or> (8 \<le> n \<and> n < 16) \<or> (16 \<le> n \<and> n < 24) \<or> (24 \<le> n \<and> n < 32) \<or> (32 \<le> n \<and> n < 40)
      \<or> (40 \<le> n \<and> n < 48) \<or> (48 \<le> n \<and> n < 56) \<or> (56 \<le> n \<and> n < 64)"
    using n by auto
  then show "bit (read_u64_be (append_u64_be [] v @ rest)) n = bit v n"
    unfolding read_u64_be_def append_u64_be_def byte_and_ff
    by (simp add: bit_or_iff part part0 del: bit_push_bit_iff) auto
qed

section \<open>One frame\<close>

text \<open>The parser as a function of the bytes it has not consumed yet.\<close>

abbreviation pending :: "WebSocketFrameParser \<Rightarrow> byte list" where
  "pending s \<equiv> drop (m_parse_offset s) (m_buffer s)"

definition parse_one :: "byte list \<Rightarrow> cpp_error + (Frame \<times> nat) option" where
  "parse_one p =
     (case try_parse_one_frame \<lparr>m_buffer = p, m_parse_offset = 0\<rparr> of
        Inl e \<Rightarrow> Inl e
      | Inr (None, s) \<Rightarrow> Inr None
      | Inr (Some f, s) \<Rightarrow> Inr (Some (f, m_parse_offset s)))"

lemma try_parse_via_parse_one:
  "try_parse_one_frame s =
     (case parse_one (pending s) of
        Inl e \<Rightarrow> Inl e
      | Inr None \<Rightarrow> Inr (None, s)
      | Inr (Some (f, n)) \<Rightarrow> Inr (Some f, s\<lparr>m_parse_offset := m_parse_offset s + n\<rparr>))"
  unfolding parse_one_def try_parse_one_frame_def
  by (simp add: Let_def split: option.split prod.split)

text \<open>
  What the parser reads once the whole header is there: the mask bit, the header size with the
  masking key, and the frame of a payload of the given length.
\<close>

definition has_mask :: "byte list \<Rightarrow> bool" where
  "has_mask p \<longleftrightarrow> p ! 1 AND 0x80 \<noteq> 0"

definition read_frame :: "byte list \<Rightarrow> nat \<Rightarrow> nat \<Rightarrow> Frame" where
  "read_frame p h len =
     \<lparr>fin = (p ! 0 AND 0x80 \<noteq> 0), rsv1 = (p ! 0 AND 0x40 \<noteq> 0), rsv2 = (p ! 0 AND 0x20 \<noteq> 0),
      rsv3 = (p ! 0 AND 0x10 \<noteq> 0), masked = has_mask p, opcode = p ! 0 AND 0x0F,
      payload =
        (if has_mask p
         then map (\<lambda>i. p ! (h + 4 + i) XOR p ! (h + i mod 4)) [0..<len]
         else take len (drop h p))\<rparr>"

lemma and_3_eq_mod_4: "(i AND 3) = i mod (4 :: nat)"
  using take_bit_eq_mask [of 2 i] by (simp add: mask_eq_exp_minus_1 take_bit_eq_mod)

lemma read_payload_len_header:
  "read_payload_len p = Some (len, h) \<Longrightarrow> 2 \<le> length p \<Longrightarrow> 2 \<le> h \<and> h \<le> 10 \<and> h \<le> length p"
  by (auto simp: read_payload_len_def Let_def split: if_splits)

lemma parse_one_eq:
  "parse_one p =
     (if length p < 2 then Inr None
      else case read_payload_len p of
        None \<Rightarrow> Inr None
      | Some (len, h) \<Rightarrow>
          let h' = (if has_mask p then h + 4 else h)
          in if length p < h' \<or> length p < (h' + unat len) mod SIZE_MOD then Inr None
             else if MAX_VECTOR_SIZE < unat len then Inl (Length_error ''vector::_M_default_append'')
             else Inr (Some (read_frame p h (unat len), h' + unat len)))"
proof (cases "length p < 2")
  case True
  then show ?thesis by (simp add: parse_one_def try_parse_one_frame_def)
next
  case long: False
  show ?thesis
  proof (cases "read_payload_len p")
    case None
    with long show ?thesis by (simp add: parse_one_def try_parse_one_frame_def Let_def)
  next
    case (Some x)
    obtain len h where x: "x = (len, h)" by (cases x)
    have h: "2 \<le> h" "h \<le> 10" "h \<le> length p" using read_payload_len_header [of p len h] Some x long by auto
    have "unat len < 2 ^ LENGTH(64)" by (rule unsigned_less)
    then have small: "\<not> unat len > SIZE_MOD - 1" by (simp add: SIZE_MOD_def)
    have wrap: "(h' + unat len) mod SIZE_MOD = h' + unat len"
      if "unat len \<le> MAX_VECTOR_SIZE" "h' \<le> 14" for h' :: nat
      using that by (simp add: SIZE_MOD_def MAX_VECTOR_SIZE_def)
    have key: "take 4 (drop h p) ! (i AND 3) = p ! (h + i mod 4)" if "h + 4 \<le> length p" for i
    proof -
      have "i mod 4 < 4" by simp
      with that show ?thesis by (simp add: and_3_eq_mod_4 del: pos_mod_bound)
    qed
    show ?thesis
    proof (cases "has_mask p")
      case m: True
      show ?thesis
        using long Some x h small key m m [unfolded has_mask_def] wrap [of "h + 4"]
        by (auto simp: parse_one_def try_parse_one_frame_def Let_def read_frame_def add.assoc)
    next
      case m: False
      show ?thesis
        using long Some x h small m m [unfolded has_mask_def] wrap [of h]
        by (auto simp: parse_one_def try_parse_one_frame_def Let_def read_frame_def)
    qed
  qed
qed

lemma parse_one_Some_bounds:
  assumes "parse_one p = Inr (Some (f, n))"
  shows "2 \<le> n" and "n \<le> length p"
proof -
  have long: "\<not> length p < 2" using assms by (auto simp: parse_one_eq)
  with assms obtain len h where rd: "read_payload_len p = Some (len, h)"
    by (auto simp: parse_one_eq split: option.splits)
  have h: "2 \<le> h" "h \<le> 10" using read_payload_len_header [OF rd] long by auto
  let ?h = "if has_mask p then h + 4 else h"
  have n: "n = ?h + unat len" "unat len \<le> MAX_VECTOR_SIZE" "(?h + unat len) mod SIZE_MOD \<le> length p"
    using assms long rd by (auto simp: parse_one_eq Let_def split: if_splits)
  moreover have "(?h + unat len) mod SIZE_MOD = ?h + unat len"
    using n(2) h by (simp add: SIZE_MOD_def MAX_VECTOR_SIZE_def)
  ultimately show "2 \<le> n" and "n \<le> length p" using h by (auto split: if_splits)
qed

lemma read_payload_len_append:
  assumes "read_payload_len p = Some x" and "2 \<le> length p"
  shows "read_payload_len (p @ q) = Some x"
  using assms
  by (auto simp: read_payload_len_def Let_def nth_append read_u16_be_def read_u64_be_def split: if_splits)

lemma read_frame_append:
  assumes "2 \<le> length p" and "(if has_mask p then h + 4 else h) + len \<le> length p"
  shows "read_frame (p @ q) h len = read_frame p h len"
proof -
  have m: "has_mask (p @ q) = has_mask p" using assms(1) by (simp add: has_mask_def nth_append)
  have p0: "(p @ q) ! 0 = p ! 0" using assms(1) by (cases p) auto
  show ?thesis
  proof (cases "has_mask p")
    case True
    have "(p @ q) ! (h + 4 + i) XOR (p @ q) ! (h + i mod 4) = p ! (h + 4 + i) XOR p ! (h + i mod 4)"
      if "i < len" for i
    proof -
      have "i mod 4 < 4" by simp
      then have "h + 4 + i < length p" "h + i mod 4 < length p" using that assms(2) True by auto
      then show ?thesis by (simp only: nth_append if_True)
    qed
    then have "map (\<lambda>i. (p @ q) ! (h + 4 + i) XOR (p @ q) ! (h + i mod 4)) [0..<len]
        = map (\<lambda>i. p ! (h + 4 + i) XOR p ! (h + i mod 4)) [0..<len]"
      by (intro map_cong) auto
    with m True p0 show ?thesis by (simp add: read_frame_def)
  next
    case False
    with m assms p0 show ?thesis by (simp add: read_frame_def)
  qed
qed

text \<open>Once the parser has a frame or an error, more bytes do not change it.\<close>

lemma parse_one_append:
  assumes "parse_one p \<noteq> Inr None"
  shows "parse_one (p @ q) = parse_one p"
proof -
  have long: "\<not> length p < 2" using assms by (auto simp: parse_one_eq)
  with assms obtain len h where rd: "read_payload_len p = Some (len, h)"
    by (auto simp: parse_one_eq split: option.splits)
  have rd': "read_payload_len (p @ q) = Some (len, h)"
    using read_payload_len_append [OF rd] long by simp
  have m: "has_mask (p @ q) = has_mask p" using long by (simp add: has_mask_def nth_append)
  let ?h = "if has_mask p then h + 4 else h"
  have av: "?h \<le> length p" "(?h + unat len) mod SIZE_MOD \<le> length p"
    using assms long rd by (auto simp: parse_one_eq Let_def split: if_splits)
  show ?thesis
  proof (cases "MAX_VECTOR_SIZE < unat len")
    case True
    with long rd rd' m av show ?thesis by (simp add: parse_one_eq Let_def)
  next
    case False
    have one: "parse_one p = Inr (Some (read_frame p h (unat len), ?h + unat len))"
      using False long rd av by (simp add: parse_one_eq Let_def)
    have "?h + unat len \<le> length p" by (rule parse_one_Some_bounds(2) [OF one])
    then have "read_frame (p @ q) h (unat len) = read_frame p h (unat len)"
      using long by (intro read_frame_append) auto
    with False long rd' m av one show ?thesis by (simp add: parse_one_eq Let_def)
  qed
qed

section \<open>The parse loop\<close>

lemma try_parse_one_frame_advances:
  assumes "try_parse_one_frame s = Inr (Some f, s')"
  shows "buffered_size s' < buffered_size s"
  using assms parse_one_Some_bounds [of "pending s"]
  by (fastforce simp: try_parse_via_parse_one buffered_size_def split: sum.splits option.splits)

function parse_loop ::
  "WebSocketFrameParser \<Rightarrow> Frame list \<Rightarrow> WebSocketFrameParser \<times> (cpp_error + Frame list)" where
  "parse_loop s frames =
     (case try_parse_one_frame s of
        Inl e \<Rightarrow> (s, Inl e)
      | Inr (None, s') \<Rightarrow> (s', Inr frames)
      | Inr (Some f, s') \<Rightarrow> parse_loop s' (frames @ [f]))"
  by pat_completeness auto
termination
  by (relation "measure (buffered_size \<circ> fst)") (auto dest: try_parse_one_frame_advances)

declare parse_loop.simps [simp del]

text \<open>
  An exception of the loop leaves the object where the loop was: the frames found before it
  are lost with the local vector.
\<close>

definition parse_frames ::
  "WebSocketFrameParser \<Rightarrow> WebSocketFrameParser \<times> (cpp_error + Frame list)" where
  "parse_frames s =
     (case parse_loop s [] of
        (s', Inl e) \<Rightarrow> (s', Inl e)
      | (s', Inr frames) \<Rightarrow> (compact s', Inr frames))"

text \<open>The frames at the front of a byte sequence, and the bytes after them.\<close>

lemma parse_one_drop_less: "parse_one p = Inr (Some (f, n)) \<Longrightarrow> length p - n < length p"
  using parse_one_Some_bounds by fastforce

function decode :: "byte list \<Rightarrow> Frame list \<times> byte list" where
  "decode p =
     (case parse_one p of
        Inr (Some (f, n)) \<Rightarrow> (let (fs, r) = decode (drop n p) in (f # fs, r))
      | _ \<Rightarrow> ([], p))"
  by pat_completeness auto
termination
  by (relation "measure length") (auto dest: parse_one_drop_less)

declare decode.simps [simp del]

lemma decode_Some:
  "parse_one p = Inr (Some (f, n)) \<Longrightarrow> decode p = (f # fst (decode (drop n p)), snd (decode (drop n p)))"
  by (subst decode.simps) (simp add: case_prod_beta)

lemma decode_stop: "\<nexists>f n. parse_one p = Inr (Some (f, n)) \<Longrightarrow> decode p = ([], p)"
  by (subst decode.simps) (auto split: sum.split option.split)

lemma decode_rest: "parse_one (snd (decode p)) \<noteq> Inr (Some x)"
proof (induction p rule: decode.induct)
  case (1 p)
  show ?case
  proof (cases "\<exists>f n. parse_one p = Inr (Some (f, n))")
    case True
    then obtain f n where "parse_one p = Inr (Some (f, n))" by blast
    with 1 [OF this refl refl] show ?thesis by (simp add: decode_Some)
  next
    case False
    with decode_stop [OF False] show ?thesis by (cases x) simp
  qed
qed

lemma decode_append:
  "decode (p @ q) = (fst (decode p) @ fst (decode (snd (decode p) @ q)), snd (decode (snd (decode p) @ q)))"
proof (induction p rule: decode.induct)
  case (1 p)
  show ?case
  proof (cases "\<exists>f n. parse_one p = Inr (Some (f, n))")
    case True
    then obtain f n where one: "parse_one p = Inr (Some (f, n))" by blast
    then have two: "parse_one (p @ q) = Inr (Some (f, n))" using parse_one_append [of p q] by simp
    have "n \<le> length p" by (rule parse_one_Some_bounds(2) [OF one])
    then have "drop n (p @ q) = drop n p @ q" by simp
    with 1 [OF one refl refl] one two show ?thesis by (simp add: decode_Some)
  next
    case False
    with decode_stop [OF False] show ?thesis by simp
  qed
qed

definition parser_inv :: "WebSocketFrameParser \<Rightarrow> bool" where
  "parser_inv s \<longleftrightarrow> m_parse_offset s \<le> length (m_buffer s)"

text \<open>What a run of the loop delivers from the pending bytes.\<close>

definition outcome :: "byte list \<Rightarrow> cpp_error + Frame list" where
  "outcome p = (case parse_one (snd (decode p)) of Inl e \<Rightarrow> Inl e | Inr _ \<Rightarrow> Inr (fst (decode p)))"

lemma parse_loop_decode:
  assumes "parser_inv s"
  shows "\<exists>s'. parse_loop s frames =
     (s', map_sum id (\<lambda>fs. frames @ fs) (outcome (pending s))) \<and> parser_inv s' \<and>
     pending s' = snd (decode (pending s))"
  using assms
proof (induction s frames rule: parse_loop.induct)
  case (1 s frames)
  show ?case
  proof (cases "parse_one (pending s)")
    case (Inl e)
    then have "decode (pending s) = ([], pending s)" by (simp add: decode_stop)
    with Inl 1(2) show ?thesis
      by (subst parse_loop.simps) (simp add: try_parse_via_parse_one outcome_def)
  next
    case (Inr r)
    show ?thesis
    proof (cases r)
      case None
      with Inr have "decode (pending s) = ([], pending s)" by (simp add: decode_stop)
      with Inr None 1(2) show ?thesis
        by (subst parse_loop.simps) (simp add: try_parse_via_parse_one outcome_def)
    next
      case (Some x)
      obtain f n where x: "x = (f, n)" by (cases x)
      let ?s' = "s\<lparr>m_parse_offset := m_parse_offset s + n\<rparr>"
      have one: "parse_one (pending s) = Inr (Some (f, n))" using Inr Some x by simp
      then have step: "try_parse_one_frame s = Inr (Some f, ?s')" by (simp add: try_parse_via_parse_one)
      have "n \<le> length (pending s)" by (rule parse_one_Some_bounds(2) [OF one])
      then have inv: "parser_inv ?s'" using 1(2) by (simp add: parser_inv_def)
      have rest: "pending ?s' = drop n (pending s)" by (simp add: add.commute)
      have out: "outcome (pending s) = map_sum id ((#) f) (outcome (pending ?s'))"
        using one rest by (simp add: outcome_def decode_Some split: sum.split)
      have loop: "parse_loop s frames = parse_loop ?s' (frames @ [f])"
        by (subst parse_loop.simps) (simp add: step)
      from 1(1) [OF step refl refl inv] show ?thesis
        unfolding loop out rest using one
        by (simp add: sum.map_comp comp_def decode_Some sum.map_id0 [symmetric])
    qed
  qed
qed

lemma compact_keeps: "parser_inv s \<Longrightarrow> pending (compact s) = pending s \<and> parser_inv (compact s)"
  by (auto simp: compact_def parser_inv_def)

lemma feed_pending: "parser_inv s \<Longrightarrow> pending (feed s data) = pending s @ data \<and> parser_inv (feed s data)"
  by (auto simp: feed_def parser_inv_def)

lemma parse_frames_decode:
  assumes "parser_inv s"
  shows "\<exists>s'. parse_frames s = (s', outcome (pending s)) \<and> parser_inv s' \<and>
     pending s' = snd (decode (pending s))"
  using parse_loop_decode [OF assms, of "[]"] compact_keeps
  by (cases "outcome (pending s)") (auto simp: parse_frames_def)

section \<open>A stream received in pieces\<close>

text \<open>Each piece that arrives is fed and parsed, as in \<^verbatim>\<open>wait_for_tcp_data\<close>.\<close>

fun receive ::
  "WebSocketFrameParser \<Rightarrow> byte list list \<Rightarrow> WebSocketFrameParser \<times> (cpp_error + Frame list)" where
  "receive s [] = (s, Inr [])"
| "receive s (data # rest) =
     (case parse_frames (feed s data) of
        (s', Inl e) \<Rightarrow> (s', Inl e)
      | (s', Inr frames) \<Rightarrow>
          (case receive s' rest of (s'', r) \<Rightarrow> (s'', map_sum id ((@) frames) r)))"

lemma outcome_append:
  "outcome (p @ q) =
     (case outcome p of Inl e \<Rightarrow> Inl e | Inr fs \<Rightarrow> map_sum id ((@) fs) (outcome (snd (decode p) @ q)))"
proof (cases "parse_one (snd (decode p))")
  case (Inl e)
  then have "parse_one (snd (decode p) @ q) = Inl e" by (simp add: parse_one_append)
  moreover from this have "decode (snd (decode p) @ q) = ([], snd (decode p) @ q)"
    by (intro decode_stop) simp
  ultimately show ?thesis using Inl by (simp add: outcome_def decode_append [of p q])
next
  case (Inr x)
  then show ?thesis by (simp add: outcome_def decode_append [of p q] split: sum.split)
qed

lemma outcome_Inr_waits:
  assumes "outcome p = Inr fs"
  shows "parse_one (snd (decode p)) = Inr None"
proof (cases "parse_one (snd (decode p))")
  case (Inr r)
  with decode_rest [of p] show ?thesis by (cases r) auto
qed (use assms in \<open>simp add: outcome_def\<close>)

lemma outcome_waiting: "parse_one p = Inr None \<Longrightarrow> outcome p = Inr []"
  using decode_stop [of p] by (simp add: outcome_def)

lemma receive_outcome:
  assumes "parser_inv s" and "parse_one (pending s) = Inr None"
  shows "\<exists>s'. receive s chunks = (s', outcome (pending s @ concat chunks)) \<and>
    (\<forall>fs. outcome (pending s @ concat chunks) = Inr fs \<longrightarrow>
       parser_inv s' \<and> pending s' = snd (decode (pending s @ concat chunks)))"
  using assms
proof (induction chunks arbitrary: s)
  case Nil
  then show ?case using outcome_waiting [of "pending s"] decode_stop [of "pending s"] by simp
next
  case (Cons c chunks)
  define p where "p = pending s @ c"
  have cat: "pending s @ concat (c # chunks) = p @ concat chunks" by (simp add: p_def)
  have fed: "pending (feed s c) = p" "parser_inv (feed s c)" using feed_pending Cons.prems by (auto simp: p_def)
  from parse_frames_decode [OF fed(2)] obtain s1 where
    s1: "parse_frames (feed s c) = (s1, outcome p)" "parser_inv s1" "pending s1 = snd (decode p)"
    unfolding fed by blast
  show ?case
  proof (cases "outcome p")
    case (Inl e)
    then have "outcome (p @ concat chunks) = Inl e" by (simp add: outcome_append)
    with s1 Inl show ?thesis unfolding cat by simp
  next
    case (Inr fs)
    have out: "outcome (p @ concat chunks) = map_sum id ((@) fs) (outcome (pending s1 @ concat chunks))"
      using Inr s1(3) by (simp add: outcome_append)
    have "parse_one (pending s1) = Inr None" using outcome_Inr_waits [OF Inr] s1(3) by simp
    from Cons.IH [OF s1(2) this] obtain s2 where
      s2: "receive s1 chunks = (s2, outcome (pending s1 @ concat chunks))"
        "\<forall>fs. outcome (pending s1 @ concat chunks) = Inr fs \<longrightarrow>
           parser_inv s2 \<and> pending s2 = snd (decode (pending s1 @ concat chunks))"
      by blast
    have "snd (decode (p @ concat chunks)) = snd (decode (pending s1 @ concat chunks))"
      using s1(3) by (simp add: decode_append [of p])
    with s1(1) s2 out Inr show ?thesis unfolding cat
      by (cases "outcome (pending s1 @ concat chunks)") auto
  qed
qed

lemma new_parser_ready: "parser_inv new_parser" "pending new_parser = []" "parse_one [] = Inr None"
  by (simp_all add: parser_inv_def new_parser_def parse_one_eq)

lemma receive_new: "snd (receive new_parser chunks) = outcome (concat chunks)"
  using receive_outcome [of new_parser chunks] new_parser_ready by auto

section \<open>Parsing what was built\<close>

lemma bit_0x80: "bit (0x80 :: byte) n \<longleftrightarrow> n = 7"
proof -
  have "(0x80 :: byte) = push_bit 7 1" by simp
  then show ?thesis by (simp only: bit_push_bit_iff bit_1_iff possible_bit_word) auto
qed

lemma bit_0x7F: "bit (0x7F :: byte) n \<longleftrightarrow> n < 7"
proof -
  have "(0x7F :: byte) = mask 7" by (simp add: mask_eq_exp_minus_1)
  then show ?thesis by (simp only: bit_mask_iff possible_bit_word) auto
qed

lemma small_byte:
  assumes "(y :: byte) < 128"
  shows "y AND 0x80 = 0" and "y AND 0x7F = y" and "(0x80 OR y) AND 0x7F = y" and "(0x80 OR y) AND 0x80 = 0x80"
proof -
  have y: "take_bit 7 y = y"
    using assms by (simp add: word_unat_eq_iff unsigned_take_bit_eq take_bit_nat_eq_self word_less_nat_alt)
  have bits: "bit y n \<Longrightarrow> n < 7" for n using y by (metis bit_take_bit_iff)
  note bit_of = bit_and_iff bit_or_iff bit_0x80 bit_0x7F
  show "y AND 0x80 = 0" by (rule bit_word_eqI, simp only: bit_of) (auto dest: bits)
  show "y AND 0x7F = y" by (rule bit_word_eqI, simp only: bit_of) (auto dest: bits)
  show "(0x80 OR y) AND 0x7F = y" by (rule bit_word_eqI, simp only: bit_of) (auto dest: bits)
  show "(0x80 OR y) AND 0x80 = 0x80" by (rule bit_word_eqI, simp only: bit_of) (auto dest: bits)
qed

lemma ucast_small:
  assumes "(n :: u64) \<le> 127"
  shows "ucast n < (128 :: byte)" and "ucast (ucast n :: byte) = n"
proof -
  have n: "unat n \<le> 127" using assms by (simp add: word_le_nat_alt)
  then have "unat (ucast n :: byte) = unat n"
    by (simp add: unsigned_ucast_eq take_bit_nat_eq_self)
  with n show "ucast n < (128 :: byte)" and "ucast (ucast n :: byte) = n"
    by (simp_all add: word_less_nat_alt word_unat_eq_iff unsigned_ucast_eq unsigned_take_bit_eq take_bit_nat_eq_self)
qed

lemma ucast_16:
  assumes "(n :: u64) \<le> 65535"
  shows "ucast (ucast n :: 16 word) = n"
proof -
  have n: "unat n \<le> 65535" using assms by (simp add: word_le_nat_alt)
  then show ?thesis by (simp add: word_unat_eq_iff unsigned_ucast_eq unsigned_take_bit_eq take_bit_nat_eq_self)
qed

lemma append_u16_be_eq: "append_u16_be out v = out @ append_u16_be [] v"
  and append_u64_be_eq: "append_u64_be out w = out @ append_u64_be [] w"
  and length_append_u16_be: "length (append_u16_be [] v) = 2"
  and length_append_u64_be: "length (append_u64_be [] w) = 8"
  by (simp_all add: append_u16_be_def append_u64_be_def)

lemma read_len_built:
  fixes sz :: u64
  shows "read_payload_len (append_payload_length [b0] sz m @ rest)
           = Some (sz, length (append_payload_length [b0] sz m))"
    and "has_mask (append_payload_length [b0] sz m @ rest) = m"
    and "(append_payload_length [b0] sz m @ rest) ! 0 = b0"
    and "2 \<le> length (append_payload_length [b0] sz m)"
proof -
  consider (one) "sz \<le> 125" | (two) "\<not> sz \<le> 125" "sz \<le> 65535" | (eight) "\<not> sz \<le> 125" "\<not> sz \<le> 65535"
    by blast
  then have "read_payload_len (append_payload_length [b0] sz m @ rest)
           = Some (sz, length (append_payload_length [b0] sz m)) \<and>
      has_mask (append_payload_length [b0] sz m @ rest) = m \<and>
      (append_payload_length [b0] sz m @ rest) ! 0 = b0 \<and> 2 \<le> length (append_payload_length [b0] sz m)"
  proof cases
    case one
    then have le: "sz \<le> 127" by (simp add: word_le_nat_alt)
    note small = small_byte [OF ucast_small(1) [OF le]] ucast_small(2) [OF le]
    have "sz \<noteq> 126" "sz \<noteq> 127" using one by auto
    with one small show ?thesis
      by (cases m) (simp_all add: append_payload_length_def read_payload_len_def has_mask_def Let_def)
  next
    case two
    note small = small_byte [of 126]
    from two small ucast_16 [OF two(2)] read_append_u16_be [of "ucast sz" rest] show ?thesis
      by (cases m) (simp_all add: append_payload_length_def read_payload_len_def has_mask_def Let_def
          append_u16_be_eq [of "_ # _"] length_append_u16_be)
  next
    case eight
    note small = small_byte [of 127]
    from eight small read_append_u64_be [of sz rest] show ?thesis
      by (cases m) (simp_all add: append_payload_length_def read_payload_len_def has_mask_def Let_def
          append_u64_be_eq [of "_ # _"] length_append_u64_be)
  qed
  then show "read_payload_len (append_payload_length [b0] sz m @ rest)
           = Some (sz, length (append_payload_length [b0] sz m))"
    and "has_mask (append_payload_length [b0] sz m @ rest) = m"
    and "(append_payload_length [b0] sz m @ rest) ! 0 = b0"
    and "2 \<le> length (append_payload_length [b0] sz m)" by blast+
qed

definition sent_frame :: "Opcode \<Rightarrow> byte list \<Rightarrow> bool \<Rightarrow> bool \<Rightarrow> Frame" where
  "sent_frame op bytes fn m =
     \<lparr>fin = fn, rsv1 = False, rsv2 = False, rsv3 = False, masked = m,
      opcode = opcode_value op, payload = bytes\<rparr>"

definition first_byte_of :: "Opcode \<Rightarrow> bool \<Rightarrow> byte" where
  "first_byte_of op fn = (if fn then 0x80 else 0x00) OR opcode_value op"

lemma first_byte_bits:
  "(first_byte_of op fn AND 0x80 \<noteq> 0) = fn" "first_byte_of op fn AND 0x40 = 0"
  "first_byte_of op fn AND 0x20 = 0" "first_byte_of op fn AND 0x10 = 0"
  "first_byte_of op fn AND 0x0F = opcode_value op"
  by (cases op; cases fn; simp add: first_byte_of_def)+

text \<open>When building succeeds, and the bytes it gives.\<close>

lemma build_frame_string_eq:
  assumes "length bytes < 2 ^ 64"
  shows "build_frame_string key op bytes fn m =
    (if is_control_opcode op \<and> \<not> fn then Inl (Runtime_error ''Control frame must not be fragmented'')
     else if is_control_opcode op \<and> length bytes > 125
     then Inl (Runtime_error ''Control frame payload must be <= 125'')
     else Inr (append_payload_length [first_byte_of op fn] (of_nat (length bytes)) m @
       (if m then key_bytes key @ map (\<lambda>i. bytes ! i XOR key_bytes key ! (i mod 4)) [0..<length bytes]
        else bytes)))"
proof -
  have sz: "unat (of_nat (length bytes) :: u64) = length bytes"
    using assms by (simp add: unsigned_of_nat take_bit_nat_eq_self)
  have "(125 :: u64) < of_nat (length bytes) \<longleftrightarrow> 125 < length bytes"
    using sz by (simp add: word_less_nat_alt)
  moreover have "bytes = []" if "of_nat (length bytes) = (0 :: u64)" using that sz by auto
  ultimately show ?thesis
    using sz
    by (auto simp: build_frame_string_def build_frame_def Let_def first_byte_of_def and_3_eq_mod_4
        append_payload_masked_def append_masking_key_def append_payload_unmasked_def
        length_0_conv [symmetric] simp del: length_0_conv)
qed

lemma build_frame_vector_eq: "build_frame_vector key op bytes fn m = build_frame_string key op bytes fn m"
  by (cases "bytes = []")
    (auto simp: build_frame_vector_def build_frame_string_def build_frame_def Let_def
      append_payload_masked_def append_payload_unmasked_def)

lemma length_key_bytes: "length (key_bytes key) = 4"
  by (cases key) simp

lemma parse_one_built:
  assumes "build_frame_string key op bytes fn m = Inr wire" and "length bytes \<le> MAX_VECTOR_SIZE"
  shows "parse_one (wire @ rest) = Inr (Some (sent_frame op bytes fn m, length wire))"
proof -
  let ?n = "length bytes"
  have n: "?n < 2 ^ 64" using assms(2) by (simp add: MAX_VECTOR_SIZE_def)
  then have sz: "unat (of_nat ?n :: u64) = ?n" by (simp add: unsigned_of_nat take_bit_nat_eq_self)
  define hdr where "hdr = append_payload_length [first_byte_of op fn] (of_nat ?n) m"
  define body where "body = map (\<lambda>i. bytes ! i XOR key_bytes key ! (i mod 4)) [0..<?n]"
  let ?tail = "if m then key_bytes key @ body else bytes"
  have wire: "wire = hdr @ ?tail"
    using assms(1) by (auto simp: build_frame_string_eq [OF n] hdr_def body_def split: if_splits)
  note built = read_len_built(1, 2, 3) [of "first_byte_of op fn" "of_nat ?n" m "?tail @ rest", folded hdr_def]
    and two = read_len_built(4) [of "first_byte_of op fn" "of_nat ?n" m, folded hdr_def]
  have rd: "read_payload_len (wire @ rest) = Some (of_nat ?n, length hdr)"
    and hm: "has_mask (wire @ rest) = m" and b0: "(wire @ rest) ! 0 = first_byte_of op fn"
    using built by (simp_all add: wire)
  have len: "length wire = (if m then length hdr + 4 else length hdr) + ?n"
    by (simp add: wire body_def length_key_bytes)
  have "length hdr \<le> 10"
    using read_payload_len_header [OF rd] two by (simp add: wire)
  have masked: "map (\<lambda>i. (wire @ rest) ! (length hdr + 4 + i) XOR (wire @ rest) ! (length hdr + i mod 4)) [0..<?n] = bytes"
    if m
  proof (rule nth_equalityI)
    fix i assume "i < length (map (\<lambda>i. (wire @ rest) ! (length hdr + 4 + i) XOR (wire @ rest) ! (length hdr + i mod 4)) [0..<?n])"
    then have i: "i < ?n" by simp
    have "(wire @ rest) ! (length hdr + 4 + i) = body ! i"
      using that i by (simp add: wire nth_append length_key_bytes body_def)
    moreover have "(wire @ rest) ! (length hdr + i mod 4) = key_bytes key ! (i mod 4)"
      using that by (simp add: wire nth_append length_key_bytes)
    ultimately show "map (\<lambda>i. (wire @ rest) ! (length hdr + 4 + i) XOR (wire @ rest) ! (length hdr + i mod 4)) [0..<?n] ! i = bytes ! i"
      using i by (simp add: body_def xor.assoc)
  qed simp
  have frame: "read_frame (wire @ rest) (length hdr) ?n = sent_frame op bytes fn m"
    using masked by (simp add: read_frame_def sent_frame_def hm b0 first_byte_bits) (simp add: wire)
  have "(length wire) mod SIZE_MOD = length wire"
    using len \<open>length hdr \<le> 10\<close> assms(2) by (simp add: SIZE_MOD_def MAX_VECTOR_SIZE_def split: if_splits)
  with rd hm frame sz assms(2) len two show ?thesis
    by (simp add: parse_one_eq Let_def split: if_splits)
qed

lemma decode_built:
  assumes "list_all2 (\<lambda>(key, op, bytes, fn, m) w.
             build_frame_string key op bytes fn m = Inr w \<and> length bytes \<le> MAX_VECTOR_SIZE) msgs wire"
  shows "decode (concat wire) = (map (\<lambda>(key, op, bytes, fn, m). sent_frame op bytes fn m) msgs, [])"
  using assms
proof (induction rule: list_all2_induct)
  case Nil
  show ?case using decode_stop [of "[]"] new_parser_ready(3) by simp
next
  case (Cons x msgs w wire)
  obtain key op bytes fn m where x: "x = (key, op, bytes, fn, m)" by (cases x)
  with Cons.hyps have "parse_one (w @ concat wire) = Inr (Some (sent_frame op bytes fn m, length w))"
    by (intro parse_one_built) auto
  with Cons.IH x show ?case by (simp add: decode_Some)
qed

lemma oversized_header_throws:
  assumes "length header = 10" and "header ! 1 = 127"
    and "2 ^ 64 - 10 \<le> unat (read_u64_be (drop 2 header))"
  shows "parse_one header = Inl (Length_error ''vector::_M_default_append'')"
proof -
  define u where "u = unat (read_u64_be (drop 2 header))"
  have "u < 2 ^ LENGTH(64)" unfolding u_def by (rule unsigned_less)
  then have "10 + u - 2 ^ 64 \<le> 10" "(10 + u) mod 2 ^ 64 = 10 + u - 2 ^ 64"
    using assms(3) by (simp_all add: u_def [symmetric] le_mod_geq)
  then have "(10 + u) mod SIZE_MOD \<le> 10" by (simp add: SIZE_MOD_def)
  moreover have "read_payload_len header = Some (read_u64_be (drop 2 header), 10)" "\<not> has_mask header"
    using assms(1, 2) by (simp_all add: read_payload_len_def Let_def has_mask_def)
  moreover have "MAX_VECTOR_SIZE < u"
    using assms(3) by (simp add: MAX_VECTOR_SIZE_def u_def)
  ultimately show ?thesis using assms(1) by (simp add: parse_one_eq Let_def u_def)
qed

section \<open>Properties\<close>



text \<open>
  (C11) Frames built by the builder, with any masking keys, and sent one after the other are
  received as exactly those frames, in order, with the original payloads, whatever the
  fragmentation of the stream, and no byte is left in the buffer.
\<close>

theorem built_frames_are_received:
  assumes "list_all2 (\<lambda>(key, op, bytes, fn, m) w.
             build_frame_string key op bytes fn m = Inr w \<and> length bytes \<le> MAX_VECTOR_SIZE) msgs wire"
    and "concat chunks = concat wire"
  shows "snd (receive new_parser chunks)
           = Inr (map (\<lambda>(key, op, bytes, fn, m). sent_frame op bytes fn m) msgs) \<and>
         buffered_size (fst (receive new_parser chunks)) = 0"
proof (intro conjI)
  note dec = decode_built [OF assms(1)]
  have out: "outcome (concat chunks) = Inr (map (\<lambda>(key, op, bytes, fn, m). sent_frame op bytes fn m) msgs)"
    by (simp add: outcome_def assms(2) dec new_parser_ready(3))
  then show "snd (receive new_parser chunks)
      = Inr (map (\<lambda>(key, op, bytes, fn, m). sent_frame op bytes fn m) msgs)"
    by (simp add: receive_new)
  have "pending (fst (receive new_parser chunks)) = []"
    using receive_outcome [of new_parser chunks] new_parser_ready out dec assms(2) by auto
  then show "buffered_size (fst (receive new_parser chunks)) = 0"
    by (simp add: buffered_size_def)
qed

theorem built_frames_are_received_witness:
  "snd (receive new_parser [[0x81, 0x82, 1, 2, 3], [4, 105, 107, 0x89], [0x00]])
     = Inr [sent_frame Text [104, 105] True True, sent_frame Ping [] True False] \<and>
   buffered_size (fst (receive new_parser [[0x81, 0x82, 1, 2, 3], [4, 105, 107, 0x89], [0x00]])) = 0"
proof -
  let ?msgs = "[((1, 2, 3, 4), Text, [104, 105], True, True), ((0, 0, 0, 0), Ping, [], True, False)]"
  let ?wire = "[[0x81, 0x82, 1, 2, 3, 4, 105, 107], [0x89, 0x00]]"
  have "build_frame_string (1, 2, 3, 4) Text [104, 105] True True = Inr [0x81, 0x82, 1, 2, 3, 4, 105, 107]"
    by code_simp
  moreover have "build_frame_string (0, 0, 0, 0) Ping [] True False = Inr [0x89, 0x00]"
    by code_simp
  ultimately have "list_all2 (\<lambda>(key, op, bytes, fn, m) w.
      build_frame_string key op bytes fn m = Inr w \<and> length bytes \<le> MAX_VECTOR_SIZE) ?msgs ?wire"
    by (simp add: MAX_VECTOR_SIZE_def)
  from built_frames_are_received [OF this, of "[[0x81, 0x82, 1, 2, 3], [4, 105, 107, 0x89], [0x00]]"]
  show ?thesis by simp
qed

text \<open>
  A header that announces a payload of \<open>2\<^sup>64 - k\<close> bytes, with \<open>k\<close> at most the size of the
  header, makes the sum of header and payload wrap around: the parser does not wait for the
  payload but throws from \<^verbatim>\<open>vector::resize\<close>, its own test for large payloads never fires,
  the frames before it in the same batch are lost, and every later call throws again,
  whatever else arrives.
\<close>

theorem oversized_length_poisons_parser:
  assumes "length header = 10" and "header ! 1 = 127"
    and "2 ^ 64 - 10 \<le> unat (read_u64_be (drop 2 header))"
    and "parser_inv s" and "snd (decode (pending s)) = header @ tail"
  shows "\<exists>s'. parse_frames s = (s', Inl (Length_error ''vector::_M_default_append'')) \<and>
     pending s' = header @ tail \<and>
     snd (parse_frames (feed s' later)) = Inl (Length_error ''vector::_M_default_append'')"
proof -
  note bad = oversized_header_throws [OF assms(1, 2, 3)]
  have again: "parse_one (header @ xs) = Inl (Length_error ''vector::_M_default_append'')" for xs
    using bad parse_one_append [of header xs] by simp
  then have stop: "decode (header @ xs) = ([], header @ xs)" for xs by (intro decode_stop) simp
  from parse_frames_decode [OF assms(4)] assms(5) again obtain s' where
    s': "parse_frames s = (s', Inl (Length_error ''vector::_M_default_append''))"
      "parser_inv s'" "pending s' = header @ tail"
    by (auto simp: outcome_def)
  have fed: "pending (feed s' later) = header @ (tail @ later)" "parser_inv (feed s' later)"
    using feed_pending [OF s'(2), of later] s'(3) by auto
  have "outcome (pending (feed s' later)) = Inl (Length_error ''vector::_M_default_append'')"
    unfolding outcome_def fed(1) stop snd_conv again by simp
  with parse_frames_decode [OF fed(2)] s' show ?thesis by auto
qed

theorem oversized_length_poisons_parser_witness:
  "\<exists>s'. parse_frames (feed new_parser [0x89, 0x00, 0x81, 127, 255, 255, 255, 255, 255, 255, 255, 255])
      = (s', Inl (Length_error ''vector::_M_default_append'')) \<and>
     pending s' = [0x81, 127, 255, 255, 255, 255, 255, 255, 255, 255] \<and>
     snd (parse_frames (feed s' [0x89, 0x00])) = Inl (Length_error ''vector::_M_default_append'')"
proof -
  let ?h = "[0x81, 127, 255, 255, 255, 255, 255, 255, 255, 255] :: byte list"
  let ?s = "feed new_parser ([0x89, 0x00] @ ?h)"
  have "build_frame_string (0, 0, 0, 0) Ping [] True False = Inr [0x89, 0x00]" by code_simp
  from parse_one_built [OF this]
  have ping: "parse_one ([0x89, 0x00] @ ?h) = Inr (Some (sent_frame Ping [] True False, 2))" by simp
  have big: "2 ^ 64 - 10 \<le> unat (read_u64_be (drop 2 ?h))" by (simp add: read_u64_be_def)
  then have "parse_one ?h = Inl (Length_error ''vector::_M_default_append'')"
    by (intro oversized_header_throws) simp_all
  then have "decode ?h = ([], ?h)" by (intro decode_stop) simp
  with ping have "snd (decode (pending ?s)) = ?h @ []"
    using new_parser_ready feed_pending [of new_parser] by (simp add: decode_Some)
  moreover have "parser_inv ?s" using new_parser_ready feed_pending by blast
  ultimately show ?thesis
    using oversized_length_poisons_parser [OF _ _ big, of ?s "[]" "[0x89, 0x00]"] by simp
qed

end
