(* ===== verification/WebSocket_Session.thy ===== *)
theory WebSocket_Session
  imports WebSocket_Frame
begin

text \<open>
  The client side of a WebSocket connection
  (\<^verbatim>\<open>https_client_websocket_session\<close>, \<^verbatim>\<open>https_client_websocket\<close> and the data queue of
  \<^verbatim>\<open>tcp_connection\<close>). The session is the coroutine \<^verbatim>\<open>wait_for_tcp_data\<close>: one call of
  \<open>on_tcp_data\<close> is one turn of its loop. Messages given to the user's callback and frames
  written to the socket are kept in order as lists. The masking keys that the random
  generator draws are an argument \<open>gen\<close>, the \<open>n\<close>-th key being \<open>gen n\<close>. An exception that
  leaves the coroutine reaches \<^verbatim>\<open>promise_type::unhandled_exception\<close>, which terminates the
  process (\<^verbatim>\<open>base_task.h\<close>).
\<close>

section \<open>TCP data queue\<close>

text \<open>
  \<^verbatim>\<open>m_waiting_data_value\<close> is the suspended reader, by a number. A completed read resumes
  later on the event loop, so it is an output of the operation: the reader with its data, or
  with \<open>None\<close> when its \<^verbatim>\<open>FutureValue\<close> is overwritten and completes with the default, the empty
  string.
\<close>

record TCPConnection =
  m_waiting_data_value :: "nat option"
  m_pending_data_queue :: "byte list list"

type_synonym completion = "nat \<times> byte list option"

definition new_tcp :: TCPConnection where
  "new_tcp = \<lparr>m_waiting_data_value = None, m_pending_data_queue = []\<rparr>"

definition wait_for_data :: "TCPConnection \<Rightarrow> nat \<Rightarrow> completion list \<times> TCPConnection" where
  "wait_for_data c reader =
     (case m_pending_data_queue c of
        d # ds \<Rightarrow> ([(reader, Some d)], c\<lparr>m_pending_data_queue := ds\<rparr>)
      | [] \<Rightarrow> (case m_waiting_data_value c of None \<Rightarrow> [] | Some old \<Rightarrow> [(old, None)],
               c\<lparr>m_waiting_data_value := Some reader\<rparr>))"

definition on_response_received :: "TCPConnection \<Rightarrow> byte list \<Rightarrow> completion list \<times> TCPConnection" where
  "on_response_received c buffer =
     (case m_waiting_data_value c of
        Some reader \<Rightarrow> ([(reader, Some buffer)], c\<lparr>m_waiting_data_value := None\<rparr>)
      | None \<Rightarrow> ([], c\<lparr>m_pending_data_queue := m_pending_data_queue c @ [buffer]\<rparr>))"

datatype tcp_event = Arrives "byte list" | Reads nat

fun tcp_run :: "TCPConnection \<Rightarrow> tcp_event list \<Rightarrow> completion list \<times> TCPConnection" where
  "tcp_run c [] = ([], c)"
| "tcp_run c (e # es) =
     (case (case e of Arrives d \<Rightarrow> on_response_received c d | Reads reader \<Rightarrow> wait_for_data c reader) of
        (out, c') \<Rightarrow> (case tcp_run c' es of (out', c'') \<Rightarrow> (out @ out', c'')))"

definition tcp_inv :: "TCPConnection \<Rightarrow> bool" where
  "tcp_inv c \<longleftrightarrow> m_waiting_data_value c = None \<or> m_pending_data_queue c = []"

definition arrivals :: "tcp_event list \<Rightarrow> byte list list" where
  "arrivals es = concat (map (\<lambda>e. case e of Arrives d \<Rightarrow> [d] | Reads _ \<Rightarrow> []) es)"

definition given :: "completion list \<Rightarrow> byte list list" where
  "given out = concat (map (\<lambda>(r, d). case d of None \<Rightarrow> [] | Some x \<Rightarrow> [x]) out)"

lemma tcp_run_fifo:
  assumes "tcp_inv c"
  shows "given (fst (tcp_run c es)) @ m_pending_data_queue (snd (tcp_run c es))
           = m_pending_data_queue c @ arrivals es"
    and "tcp_inv (snd (tcp_run c es))"
proof -
  have "given (fst (tcp_run c es)) @ m_pending_data_queue (snd (tcp_run c es))
          = m_pending_data_queue c @ arrivals es \<and> tcp_inv (snd (tcp_run c es))"
    using assms
  proof (induction es arbitrary: c)
    case Nil
    then show ?case by (simp add: given_def arrivals_def)
  next
    case (Cons e es)
    show ?case
    proof (cases e)
      case (Arrives d)
      then show ?thesis
        using Cons.IH [of "snd (on_response_received c d)"] Cons.prems
        by (auto simp: on_response_received_def tcp_inv_def given_def arrivals_def
            split: option.splits prod.splits)
    next
      case (Reads reader)
      then show ?thesis
        using Cons.IH [of "snd (wait_for_data c reader)"] Cons.prems
        by (auto simp: wait_for_data_def tcp_inv_def given_def arrivals_def
            split: option.splits list.splits prod.splits)
    qed
  qed
  then show "given (fst (tcp_run c es)) @ m_pending_data_queue (snd (tcp_run c es))
           = m_pending_data_queue c @ arrivals es" and "tcp_inv (snd (tcp_run c es))" by auto
qed

section \<open>Session\<close>

record HttpsClientWebsocketSession =
  has_tcp_connection :: bool
  m_response_parser :: WebSocketFrameParser
  on_message_calls :: "byte list list"
  written :: "byte list list"
  keys_drawn :: nat

definition new_session :: HttpsClientWebsocketSession where
  "new_session = \<lparr>has_tcp_connection = True, m_response_parser = new_parser,
     on_message_calls = [], written = [], keys_drawn = 0\<rparr>"

definition write_raw_frame :: "HttpsClientWebsocketSession \<Rightarrow> byte list \<Rightarrow> HttpsClientWebsocketSession" where
  "write_raw_frame s frame =
     (if frame = [] then s
      else if has_tcp_connection s then s\<lparr>written := written s @ [frame]\<rparr>
      else s)"

text \<open>Every built frame draws one masking key.\<close>

definition write_built ::
  "HttpsClientWebsocketSession \<Rightarrow> cpp_error + byte list \<Rightarrow> cpp_error + HttpsClientWebsocketSession" where
  "write_built s r = sum_bind r (\<lambda>frame. Inr (write_raw_frame (s\<lparr>keys_drawn := keys_drawn s + 1\<rparr>) frame))"

definition write_message ::
  "(nat \<Rightarrow> mask_key) \<Rightarrow> HttpsClientWebsocketSession \<Rightarrow> byte list \<Rightarrow> cpp_error + HttpsClientWebsocketSession" where
  "write_message gen s message = write_built s (build_text (gen (keys_drawn s)) message True True)"

definition write_ping ::
  "(nat \<Rightarrow> mask_key) \<Rightarrow> HttpsClientWebsocketSession \<Rightarrow> byte list \<Rightarrow> cpp_error + HttpsClientWebsocketSession" where
  "write_ping gen s bytes = write_built s (build_ping (gen (keys_drawn s)) bytes True)"

definition write_pong ::
  "(nat \<Rightarrow> mask_key) \<Rightarrow> HttpsClientWebsocketSession \<Rightarrow> byte list \<Rightarrow> cpp_error + HttpsClientWebsocketSession" where
  "write_pong gen s bytes = write_built s (build_pong (gen (keys_drawn s)) bytes True)"

text \<open>How a turn of the loop ends: it goes on, the coroutine returns, or the process dies.\<close>

datatype turn =
    Waiting HttpsClientWebsocketSession
  | Returned HttpsClientWebsocketSession
  | Terminated cpp_error

definition turn_of :: "cpp_error + HttpsClientWebsocketSession \<Rightarrow> turn" where
  "turn_of r = (case r of Inl e \<Rightarrow> Terminated e | Inr s \<Rightarrow> Waiting s)"

definition handle_frame :: "(nat \<Rightarrow> mask_key) \<Rightarrow> HttpsClientWebsocketSession \<Rightarrow> Frame \<Rightarrow> turn" where
  "handle_frame gen s frame =
     (if opcode frame = opcode_value Text
      then Waiting (s\<lparr>on_message_calls := on_message_calls s @ [payload frame]\<rparr>)
      else if opcode frame = opcode_value Binary then Waiting s
      else if opcode frame = opcode_value Close
      then (case write_built s (build_close (gen (keys_drawn s)) True) of
              Inl e \<Rightarrow> Terminated e | Inr s' \<Rightarrow> Returned s')
      else if opcode frame = opcode_value Ping then turn_of (write_pong gen s (payload frame))
      else if opcode frame = opcode_value Pong then Waiting s
      else Waiting s)"

fun handle_frames :: "(nat \<Rightarrow> mask_key) \<Rightarrow> HttpsClientWebsocketSession \<Rightarrow> Frame list \<Rightarrow> turn" where
  "handle_frames gen s [] = Waiting s"
| "handle_frames gen s (f # fs) =
     (case handle_frame gen s f of Waiting s' \<Rightarrow> handle_frames gen s' fs | t \<Rightarrow> t)"

definition on_tcp_data :: "(nat \<Rightarrow> mask_key) \<Rightarrow> HttpsClientWebsocketSession \<Rightarrow> byte list \<Rightarrow> turn" where
  "on_tcp_data gen s data =
     (case parse_frames (feed (m_response_parser s) data) of
        (p, Inl e) \<Rightarrow> Terminated e
      | (p, Inr frames) \<Rightarrow> handle_frames gen (s\<lparr>m_response_parser := p\<rparr>) frames)"


section \<open>Lemmas on sessions\<close>

text \<open>The parser of the session is not touched by the handling of frames.\<close>

lemma write_built_frame:
  "write_built s r = Inr s' \<Longrightarrow> m_response_parser s' = m_response_parser s \<and>
     on_message_calls s' = on_message_calls s \<and> has_tcp_connection s' = has_tcp_connection s"
  by (cases r) (auto simp: write_built_def write_raw_frame_def split: if_splits)


lemma handle_frame_parser:
  "handle_frame gen s f = Waiting s' \<Longrightarrow> m_response_parser s' = m_response_parser s"
  by (auto simp: handle_frame_def turn_of_def write_pong_def split: if_splits sum.splits
      dest: write_built_frame)





type_synonym message = "mask_key \<times> Opcode \<times> byte list \<times> bool \<times> bool"





lemma sent_frame_fields [simp]:
  "opcode (sent_frame op bytes fn m) = opcode_value op" "payload (sent_frame op bytes fn m) = bytes"
  by (simp_all add: sent_frame_def)




section \<open>The connection object\<close>

text \<open>
  \<^verbatim>\<open>HttpsClientWebsocket\<close> hands its TCP connection to the upgrade request and then to the
  session; the members are modelled by whether they are non-null. \<open>connect_begin\<close> is
  \<^verbatim>\<open>connect\<close> up to the wait for the upgrade response, \<open>connect_end\<close> the rest, for a response
  with the given status code. Whether a ping loop runs is \<open>ping_running\<close>.
\<close>

record HttpsClientWebsocket =
  m_tcp_connection :: bool
  m_rest_request :: bool
  m_websocket_session :: bool
  ping_running :: bool
  on_connect_calls :: nat
  on_disconnect_calls :: nat

definition new_websocket :: HttpsClientWebsocket where
  "new_websocket = \<lparr>m_tcp_connection = True, m_rest_request = False, m_websocket_session = False,
     ping_running = False, on_connect_calls = 0, on_disconnect_calls = 0\<rparr>"

definition is_websocket_connected :: "HttpsClientWebsocket \<Rightarrow> bool" where
  "is_websocket_connected w \<longleftrightarrow> m_websocket_session w"

definition on_tcp_connect :: "HttpsClientWebsocket \<Rightarrow> cpp_error + HttpsClientWebsocket" where
  "on_tcp_connect w = (if \<not> m_tcp_connection w then Inl UB_null_pointer else Inr w)"

definition connect_begin :: "HttpsClientWebsocket \<Rightarrow> HttpsClientWebsocket" where
  "connect_begin w = w\<lparr>m_rest_request := True, m_tcp_connection := False\<rparr>"

definition connect_end :: "int \<Rightarrow> HttpsClientWebsocket \<Rightarrow> HttpsClientWebsocket" where
  "connect_end status_code w =
     w\<lparr>m_websocket_session := True, m_rest_request := False,
       on_connect_calls := on_connect_calls w + 1, ping_running := True\<rparr>"

definition on_tcp_disconnect :: "HttpsClientWebsocket \<Rightarrow> cpp_error + HttpsClientWebsocket" where
  "on_tcp_disconnect w =
     (if \<not> m_tcp_connection w then Inl UB_null_pointer
      else Inr (w\<lparr>m_rest_request := False, m_websocket_session := False, ping_running := False,
                  on_disconnect_calls := on_disconnect_calls w + 1\<rparr>))"

text \<open>A callback of the connection, or the progress of the connect coroutine it started.\<close>

inductive ws_step :: "HttpsClientWebsocket \<Rightarrow> HttpsClientWebsocket \<Rightarrow> bool" where
  tcp_up: "on_tcp_connect w = Inr w1 \<Longrightarrow> ws_step w (connect_begin w1)"
| upgraded: "m_rest_request w \<Longrightarrow> ws_step w (connect_end status_code w)"
| tcp_down: "on_tcp_disconnect w = Inr w' \<Longrightarrow> ws_step w w'"

lemma ws_reachable_owner:
  assumes "ws_step\<^sup>*\<^sup>* new_websocket w"
  shows "m_tcp_connection w \<longleftrightarrow> \<not> m_rest_request w \<and> \<not> m_websocket_session w"
    and "\<not> (m_rest_request w \<and> m_websocket_session w)"
  using assms
  by (induction rule: rtranclp_induct)
    (auto simp: new_websocket_def on_tcp_connect_def connect_begin_def connect_end_def
      on_tcp_disconnect_def elim!: ws_step.cases split: if_splits)

section \<open>Properties\<close>



text \<open>
  A peer can end the whole process: a ping whose payload is longer than 125 bytes, which
  the parser accepts, makes the pong builder throw inside the session coroutine, and a frame
  header with an oversized length makes the parser throw there.
\<close>

theorem peer_can_terminate_process:
  assumes "parse_frames (feed (m_response_parser s) data) = (p, r)"
  shows "(r = Inl e \<longrightarrow> on_tcp_data gen s data = Terminated e) \<and>
    (r = Inr (frame # frames) \<longrightarrow> opcode frame = opcode_value Ping \<longrightarrow>
      125 < length (payload frame) \<longrightarrow> length (payload frame) \<le> MAX_VECTOR_SIZE \<longrightarrow>
      on_tcp_data gen s data = Terminated (Runtime_error ''Control frame payload must be <= 125''))"
proof (intro conjI impI)
  show "on_tcp_data gen s data = Terminated e" if "r = Inl e"
    using assms that by (simp add: on_tcp_data_def)
  assume a: "r = Inr (frame # frames)" "opcode frame = opcode_value Ping"
    "125 < length (payload frame)" "length (payload frame) \<le> MAX_VECTOR_SIZE"
  have "length (payload frame) < 2 ^ 64" using a(4) by (simp add: MAX_VECTOR_SIZE_def)
  then have "build_pong k (payload frame) True
      = Inl (Runtime_error ''Control frame payload must be <= 125'')" for k
    using a(3) by (simp add: build_pong_def build_frame_string_eq is_control_opcode_def)
  then show "on_tcp_data gen s data = Terminated (Runtime_error ''Control frame payload must be <= 125'')"
    using assms a by (simp add: on_tcp_data_def handle_frame_def turn_of_def write_pong_def write_built_def)
qed

theorem peer_can_terminate_process_witness:
  "on_tcp_data (\<lambda>n. (0, 0, 0, 0)) new_session ([0x89, 126, 0, 126] @ replicate 126 0)
     = Terminated (Runtime_error ''Control frame payload must be <= 125'')"
proof -
  let ?data = "[0x89, 126, 0, 126] @ replicate 126 0 :: byte list"
  let ?s = "feed new_parser ?data"
  have len: "read_payload_len ?data = Some (126, 4)"
    by (simp add: read_payload_len_def Let_def read_u16_be_def)
  define f where "f = read_frame ?data 4 126"
  have one: "parse_one ?data = Inr (Some (f, 130))"
    unfolding parse_one_eq len f_def by (simp add: Let_def has_mask_def SIZE_MOD_def MAX_VECTOR_SIZE_def)
  have f: "opcode f = opcode_value Ping" "payload f = replicate 126 0"
    by (simp_all add: f_def read_frame_def has_mask_def)
  have fed: "parser_inv ?s" "pending ?s = ?data" using feed_pending [of new_parser ?data] new_parser_ready by auto
  have "drop 130 ?data = []" by simp
  with one have dec: "decode ?data = ([f], [])"
    using decode_stop [of "[]"] new_parser_ready(3) by (simp only: decode_Some) simp
  from parse_frames_decode [OF fed(1)] obtain p where "parse_frames ?s = (p, outcome ?data)"
    unfolding fed(2) by blast
  then have "parse_frames (feed (m_response_parser new_session) ?data) = (p, Inr [f])"
    by (simp only: outcome_def dec snd_conv fst_conv new_parser_ready(3) sum.case) (simp add: new_session_def)
  from peer_can_terminate_process [OF this] f show ?thesis by (simp add: MAX_VECTOR_SIZE_def)
qed

text \<open>
  The data queue of a TCP connection neither loses, duplicates nor reorders data: what
  readers have been given, followed by what is still queued, is what arrived; a reader that
  is replaced by another while it waits gets the empty default. Data is only queued while
  nobody waits.
\<close>

lemma tcp_data_is_fifo:
  "given (fst (tcp_run new_tcp es)) @ m_pending_data_queue (snd (tcp_run new_tcp es)) = arrivals es \<and>
   (m_waiting_data_value (snd (tcp_run new_tcp es)) = None \<or>
    m_pending_data_queue (snd (tcp_run new_tcp es)) = [])"
  using tcp_run_fifo [of new_tcp es] by (simp add: new_tcp_def tcp_inv_def)

text \<open>
  Once the upgrade has started, the connection object has given its TCP connection away,
  so a disconnect (or a second connect callback) reads the port through a null pointer: in
  every reachable state the callbacks succeed only while the object still owns the connection.
\<close>

theorem disconnect_after_upgrade_dereferences_null:
  assumes "ws_step\<^sup>*\<^sup>* new_websocket w" and "m_rest_request w \<or> m_websocket_session w"
  shows "on_tcp_disconnect w = Inl UB_null_pointer \<and> on_tcp_connect w = Inl UB_null_pointer"
  using ws_reachable_owner [OF assms(1)] assms(2)
  by (auto simp: on_tcp_disconnect_def on_tcp_connect_def)

theorem disconnect_after_upgrade_dereferences_null_witness:
  "\<exists>w. ws_step\<^sup>*\<^sup>* new_websocket w \<and> is_websocket_connected w \<and> on_connect_calls w = 1 \<and>
     on_tcp_disconnect w = Inl UB_null_pointer"
proof -
  let ?w = "connect_end 403 (connect_begin new_websocket)"
  have "ws_step new_websocket (connect_begin new_websocket)"
    by (rule ws_step.tcp_up) (simp add: on_tcp_connect_def new_websocket_def)
  moreover have "ws_step (connect_begin new_websocket) ?w"
    by (rule ws_step.upgraded) (simp add: connect_begin_def)
  ultimately have run: "ws_step\<^sup>*\<^sup>* new_websocket ?w" by (meson r_into_rtranclp rtranclp_trans)
  have "m_websocket_session ?w" by (simp add: connect_end_def)
  with run disconnect_after_upgrade_dereferences_null [OF run]
  show ?thesis
    by (intro exI [of _ ?w]) (simp add: is_websocket_connected_def connect_end_def connect_begin_def new_websocket_def)
qed

end
