(* ===== verification/Cpp_Strings.thy ===== *)
theory Cpp_Strings
  imports Prelude
begin

text \<open>
  The parts of \<^verbatim>\<open>std::string\<close>, \<^verbatim>\<open><cctype>\<close> and \<^verbatim>\<open>std::stringstream\<close> that the HTTP, JSON and
  utility code uses, on \<^typ>\<open>string\<close>. A search that returns \<^verbatim>\<open>npos\<close> returns \<^const>\<open>None\<close>. The
  lemmas describe searches in a string that grows at its end, which is how received data is
  buffered.
\<close>

section \<open>Searching\<close>

text \<open>\<^verbatim>\<open>s.find(pat)\<close>: the first position at which \<open>pat\<close> occurs.\<close>

fun find_sub :: "string \<Rightarrow> string \<Rightarrow> nat option" where
  "find_sub pat [] = (if pat = [] then Some 0 else None)"
| "find_sub pat (c # s) =
     (if take (length pat) (c # s) = pat then Some 0 else map_option Suc (find_sub pat s))"

text \<open>\<^verbatim>\<open>s.find(pat, pos)\<close>\<close>

definition find_from :: "string \<Rightarrow> string \<Rightarrow> nat \<Rightarrow> nat option" where
  "find_from s pat pos =
     (if length s < pos then None else map_option (\<lambda>i. pos + i) (find_sub pat (drop pos s)))"

text \<open>\<^verbatim>\<open>s.find_first_of(chars)\<close>\<close>

fun find_first_of :: "string \<Rightarrow> string \<Rightarrow> nat option" where
  "find_first_of chars [] = None"
| "find_first_of chars (c # s) = (if c \<in> set chars then Some 0 else map_option Suc (find_first_of chars s))"

text \<open>\<^verbatim>\<open>s.substr(pos, n)\<close>\<close>

definition substr :: "string \<Rightarrow> nat \<Rightarrow> nat \<Rightarrow> cpp_error + string" where
  "substr s pos n =
     (if length s < pos then Inl (Out_of_range ''basic_string::substr'') else Inr (take n (drop pos s)))"

lemma find_sub_bound: "find_sub pat s = Some i \<Longrightarrow> i + length pat \<le> length s"
proof (induction s arbitrary: i)
  case (Cons c s)
  show ?case
  proof (cases "take (length pat) (c # s) = pat")
    case True
    then have "length pat \<le> length (c # s)" by (metis length_take min.cobounded1)
    with True Cons.prems show ?thesis by simp
  next
    case False
    with Cons show ?thesis by auto
  qed
qed (auto split: if_splits)

lemma find_sub_take_drop: "find_sub pat s = Some i \<Longrightarrow> take (length pat) (drop i s) = pat"
  by (induction s arbitrary: i) (auto split: if_splits)

lemma find_sub_append:
  assumes "find_sub pat s = Some i"
  shows "find_sub pat (s @ q) = Some i"
  using assms
proof (induction s arbitrary: i)
  case Nil
  then show ?case by (cases q) (auto split: if_splits)
next
  case (Cons c s)
  show ?case
  proof (cases "take (length pat) (c # s) = pat")
    case True
    then have "length pat \<le> length (c # s)" by (metis length_take min.cobounded1)
    then have "take (length pat) (c # s @ q) = pat" using True by (metis append_Cons append_take_drop_id take_append diff_is_0_eq take0 append_Nil2)
    with True Cons.prems show ?thesis by auto
  next
    case False
    with Cons.prems obtain j where j: "find_sub pat s = Some j" "i = Suc j" by auto
    have "length pat \<le> length s" using find_sub_bound [OF j(1)] by simp
    then have "take (length pat) (c # s @ q) = take (length pat) (c # s)"
      by (cases "length pat") auto
    with False Cons.IH [OF j(1)] j(2) show ?thesis by simp
  qed
qed

section \<open>Characters\<close>

definition cpp_isspace :: "char \<Rightarrow> bool" where
  "cpp_isspace c \<longleftrightarrow> c \<in> {CHR '' '', CHR 0x09, CHR 0x0A, CHR 0x0B, CHR 0x0C, CHR 0x0D}"

definition cpp_isdigit :: "char \<Rightarrow> bool" where
  "cpp_isdigit c \<longleftrightarrow> 48 \<le> (of_char c :: nat) \<and> (of_char c :: nat) \<le> 57"

definition cpp_tolower :: "char \<Rightarrow> char" where
  "cpp_tolower c =
     (if 65 \<le> (of_char c :: nat) \<and> (of_char c :: nat) \<le> 90 then char_of (of_char c + 32 :: nat) else c)"

definition digit_value :: "char \<Rightarrow> nat" where
  "digit_value c = of_char c - 48"

text \<open>\<^verbatim>\<open>strcasecmp(a.c_str(), b) == 0\<close>: the C string ends at the first NUL.\<close>

definition c_str :: "string \<Rightarrow> string" where
  "c_str s = takeWhile (\<lambda>c. c \<noteq> CHR 0x00) s"

definition strcasecmp_eq :: "string \<Rightarrow> string \<Rightarrow> bool" where
  "strcasecmp_eq a b \<longleftrightarrow> map cpp_tolower (c_str a) = map cpp_tolower (c_str b)"

section \<open>Numbers\<close>

definition digits_value :: "string \<Rightarrow> nat" where
  "digits_value ds = foldl (\<lambda>v d. 10 * v + digit_value d) 0 ds"

definition INT_MIN :: int where "INT_MIN = - (2 ^ 31)"
definition INT_MAX :: int where "INT_MAX = 2 ^ 31 - 1"

text \<open>An optional sign and the digits after it, with the rest of the text.\<close>

definition scan_int :: "string \<Rightarrow> (int \<times> string) option" where
  "scan_int s =
     (let neg = (case s of c # _ \<Rightarrow> c = CHR ''-'' | [] \<Rightarrow> False);
          t = (case s of c # cs \<Rightarrow> if c = CHR ''-'' \<or> c = CHR ''+'' then cs else s | [] \<Rightarrow> s);
          ds = takeWhile cpp_isdigit t
      in if ds = [] then None
         else Some ((if neg then - int (digits_value ds) else int (digits_value ds)),
                    dropWhile cpp_isdigit t))"

text \<open>\<^verbatim>\<open>std::stoi\<close>\<close>

definition stoi :: "string \<Rightarrow> cpp_error + int" where
  "stoi s =
     (case scan_int (dropWhile cpp_isspace (c_str s)) of
        None \<Rightarrow> Inl (Invalid_argument ''stoi'')
      | Some (v, _) \<Rightarrow> if v < INT_MIN \<or> INT_MAX < v then Inl (Out_of_range ''stoi'') else Inr v)"

text \<open>\<^verbatim>\<open>std::to_string\<close> of a size, which \<^verbatim>\<open>std::to_chars\<close> writes as well.\<close>

fun size_to_string :: "nat \<Rightarrow> string" where
  "size_to_string n =
     (if n < 10 then [char_of (48 + n)] else size_to_string (n div 10) @ [char_of (48 + n mod 10)])"

declare size_to_string.simps [simp del]

lemma digit_char [simp]:
  assumes "n < 10"
  shows "cpp_isdigit (char_of (48 + n))" and "digit_value (char_of (48 + n)) = n"
  using assms by (simp_all add: cpp_isdigit_def digit_value_def)

lemma digits_value_append [simp]: "digits_value (ds @ [d]) = 10 * digits_value ds + digit_value d"
  by (simp add: digits_value_def)

lemma size_to_string_digits: "list_all cpp_isdigit (size_to_string n)"
  by (induction n rule: size_to_string.induct) (subst size_to_string.simps, simp)

lemma size_to_string_nonempty [simp]: "size_to_string n \<noteq> []"
  by (subst size_to_string.simps) simp

lemma digits_value_size_to_string [simp]: "digits_value (size_to_string n) = n"
proof (induction n rule: size_to_string.induct)
  case (1 n)
  show ?case
  proof (cases "n < 10")
    case True
    then show ?thesis by (subst size_to_string.simps) (simp add: digits_value_def)
  next
    case False
    with 1 show ?thesis by (subst size_to_string.simps) simp
  qed
qed

text \<open>
  \<^verbatim>\<open>std::from_chars\<close> for \<^verbatim>\<open>int64_t\<close>: an optional minus and digits, whatever follows them; an error
  without a digit or out of range. For \<^verbatim>\<open>double\<close>: digits, a point and digits, an exponent if it
  is complete. \<^verbatim>\<open>std::stod\<close> skips white space and takes a plus as well; its hexadecimal, infinite and
  NaN texts and the range of \<^verbatim>\<open>double\<close> are not modelled.
\<close>

definition from_chars_int64 :: "string \<Rightarrow> int option" where
  "from_chars_int64 t =
     (let neg = (case t of c # _ \<Rightarrow> c = CHR ''-'' | [] \<Rightarrow> False);
          ds = takeWhile cpp_isdigit (if neg then tl t else t);
          n = (if neg then - int (digits_value ds) else int (digits_value ds))
      in if ds = [] \<or> n < - (2 ^ 63) \<or> 2 ^ 63 \<le> n then None else Some n)"

definition exponent_text :: "string \<Rightarrow> int" where
  "exponent_text t =
     (case t of
        [] \<Rightarrow> 0
      | c # cs \<Rightarrow>
          if c = CHR ''e'' \<or> c = CHR ''E''
          then case scan_int cs of None \<Rightarrow> 0 | Some (n, _) \<Rightarrow> n
          else 0)"

definition from_chars_double :: "string \<Rightarrow> real option" where
  "from_chars_double t =
     (let neg = (case t of c # _ \<Rightarrow> c = CHR ''-'' | [] \<Rightarrow> False);
          u = (if neg then tl t else t);
          ds = takeWhile cpp_isdigit u;
          v = dropWhile cpp_isdigit u;
          fs = (case v of c # cs \<Rightarrow> if c = CHR ''.'' then takeWhile cpp_isdigit cs else [] | [] \<Rightarrow> []);
          w = (case v of c # cs \<Rightarrow> if c = CHR ''.'' then dropWhile cpp_isdigit cs else v | [] \<Rightarrow> []);
          x = of_nat (digits_value (ds @ fs)) / 10 ^ length fs * 10 powi exponent_text w
      in if ds = [] \<and> fs = [] then None else Some (if neg then - x else x))"

definition stod :: "string \<Rightarrow> cpp_error + real" where
  "stod s =
     (let t = dropWhile cpp_isspace (c_str s);
          u = (case t of c # d # ds \<Rightarrow> if c = CHR ''+'' \<and> d \<noteq> CHR ''-'' then d # ds else t | _ \<Rightarrow> t)
      in case from_chars_double u of None \<Rightarrow> Inl (Invalid_argument ''stod'') | Some x \<Rightarrow> Inr x)"

section \<open>Texts of decimal numbers\<close>

text \<open>
  \<^verbatim>\<open>std::to_string(double)\<close> is \<^verbatim>\<open>printf("%f")\<close>: six digits after the point, the last one rounded to
  nearest, ties to even.
\<close>

definition round_half_even :: "real \<Rightarrow> int" where
  "round_half_even x =
     (let f = \<lfloor>x\<rfloor>; d = x - of_int f
      in if d < 1 / 2 \<or> d = 1 / 2 \<and> even f then f else f + 1)"

fun fixed_digits :: "nat \<Rightarrow> nat \<Rightarrow> string" where
  "fixed_digits 0 n = []"
| "fixed_digits (Suc k) n = fixed_digits k (n div 10) @ [char_of (48 + n mod 10)]"

text \<open>\<open>|x|\<close> in units of the \<open>k\<close>-th decimal, and the text of \<open>x\<close> with \<open>k\<close> decimals (\<^verbatim>\<open>std::fixed\<close> with \<^verbatim>\<open>setprecision(k)\<close>).\<close>

definition scaled :: "nat \<Rightarrow> real \<Rightarrow> nat" where
  "scaled k x = nat (round_half_even (\<bar>x\<bar> * 10 ^ k))"

definition fixed_to_string :: "nat \<Rightarrow> real \<Rightarrow> string" where
  "fixed_to_string k x =
     (if x < 0 then ''-'' else []) @ size_to_string (scaled k x div 10 ^ k) @
     (if k = 0 then [] else CHR ''.'' # fixed_digits k (scaled k x mod 10 ^ k))"

definition double_to_string :: "real \<Rightarrow> string" where
  "double_to_string x = fixed_to_string 6 x"

lemma round_half_even_near: "\<bar>of_int (round_half_even x) - x\<bar> \<le> 1 / 2"
  unfolding round_half_even_def Let_def by (simp add: abs_if) linarith

lemma round_half_even_nonneg: "0 \<le> x \<Longrightarrow> 0 \<le> round_half_even x"
  by (simp add: round_half_even_def Let_def)

lemma scaled_near: "\<bar>real (scaled k x) - \<bar>x\<bar> * 10 ^ k\<bar> \<le> 1 / 2"
  using round_half_even_near [of "\<bar>x\<bar> * 10 ^ k"] round_half_even_nonneg [of "\<bar>x\<bar> * 10 ^ k"]
  by (simp add: scaled_def)

lemma fixed_digits_digits: "list_all cpp_isdigit (fixed_digits k n)"
  by (induction k arbitrary: n) simp_all

lemma length_fixed_digits [simp]: "length (fixed_digits k n) = k"
  by (induction k arbitrary: n) simp_all

lemma take_fixed_digits:
  "t \<le> k \<Longrightarrow> take t (fixed_digits k n) = fixed_digits t (n div 10 ^ (k - t))"
proof (induction k arbitrary: n)
  case (Suc k)
  then show ?case
    by (cases "t = Suc k") (auto simp: Suc_diff_le div_mult2_eq)
qed simp

lemma digits_value_fixed:
  "digits_value (ds @ fixed_digits k n) = digits_value ds * 10 ^ k + n mod 10 ^ k"
proof (induction k arbitrary: n)
  case (Suc k)
  have "digits_value (ds @ fixed_digits (Suc k) n) = 10 * digits_value (ds @ fixed_digits k (n div 10)) + n mod 10"
    using digits_value_append [of "ds @ fixed_digits k (n div 10)"] by simp
  also have "\<dots> = digits_value ds * 10 ^ Suc k + (10 * (n div 10 mod 10 ^ k) + n mod 10)"
    by (simp add: Suc.IH)
  also have "10 * (n div 10 mod 10 ^ k) + n mod 10 = n mod 10 ^ Suc k"
    by (simp add: mod_mult2_eq)
  finally show ?case .
qed simp

lemma digit_not_special:
  assumes "cpp_isdigit c"
  shows "c \<noteq> CHR ''.''" "c \<noteq> CHR ''-''" "c \<noteq> CHR ''+''" "c \<noteq> CHR 0x00" "\<not> cpp_isspace c"
  using assms by (auto simp: cpp_isdigit_def cpp_isspace_def)

lemma find_first_of_skip:
  "list_all (\<lambda>c. c \<notin> set cs) s \<Longrightarrow> c \<in> set cs \<Longrightarrow> find_first_of cs (s @ c # t) = Some (length s)"
  by (induction s) auto

lemma list_all_digits: "list_all cpp_isdigit s \<Longrightarrow> c \<in> set s \<Longrightarrow> cpp_isdigit c"
  by (simp add: list_all_iff)

lemma takeWhile_run: "list_all P xs \<Longrightarrow> takeWhile P (xs @ ys) = xs @ takeWhile P ys"
  by (induction xs) auto

lemma dropWhile_run: "list_all P xs \<Longrightarrow> dropWhile P (xs @ ys) = dropWhile P ys"
  by (induction xs) auto

lemma list_all_not_NUL: "list_all cpp_isdigit ds \<Longrightarrow> list_all (\<lambda>c. c \<noteq> CHR 0x00) ds"
  by (auto simp: list_all_iff dest: digit_not_special)

lemma from_chars_decimal:
  assumes "list_all cpp_isdigit ds" "ds \<noteq> []" "list_all cpp_isdigit fs"
  shows "from_chars_double (ds @ CHR ''.'' # fs) = Some (real (digits_value (ds @ fs)) / 10 ^ length fs)"
    and "from_chars_double (CHR ''-'' # ds @ CHR ''.'' # fs) = Some (- (real (digits_value (ds @ fs)) / 10 ^ length fs))"
    and "from_chars_double ds = Some (real (digits_value ds))"
    and "from_chars_double (CHR ''-'' # ds) = Some (- real (digits_value ds))"
proof -
  have d: "\<not> cpp_isdigit CHR ''.''" by (simp add: cpp_isdigit_def)
  obtain e es where ds: "ds = e # es" using assms by (cases ds) auto
  then have e: "e \<noteq> CHR ''-''" using assms digit_not_special by auto
  have f: "takeWhile cpp_isdigit fs = fs" "dropWhile cpp_isdigit fs = []"
    "takeWhile cpp_isdigit ds = ds" "dropWhile cpp_isdigit ds = []"
    using takeWhile_run [OF assms(3), of "[]"] dropWhile_run [OF assms(3), of "[]"]
      takeWhile_run [OF assms(1), of "[]"] dropWhile_run [OF assms(1), of "[]"] by simp_all
  note g = takeWhile_run [OF assms(1)] dropWhile_run [OF assms(1)]
  have n: "(case ds @ t of [] \<Rightarrow> False | c # _ \<Rightarrow> c = CHR ''-'') = False" for t
    using e ds by simp
  show "from_chars_double (ds @ CHR ''.'' # fs) = Some (real (digits_value (ds @ fs)) / 10 ^ length fs)"
    using assms(2) by (simp add: from_chars_double_def n g d f exponent_text_def)
  show "from_chars_double (CHR ''-'' # ds @ CHR ''.'' # fs) = Some (- (real (digits_value (ds @ fs)) / 10 ^ length fs))"
    using assms(2) by (simp add: from_chars_double_def g d f exponent_text_def)
  show "from_chars_double ds = Some (real (digits_value ds))"
    using assms(2) n [of "[]"] by (simp add: from_chars_double_def f exponent_text_def)
  show "from_chars_double (CHR ''-'' # ds) = Some (- real (digits_value ds))"
    using assms(2) by (simp add: from_chars_double_def f exponent_text_def)
qed

lemma stod_is_from_chars:
  assumes "list_all (\<lambda>c. c \<noteq> CHR 0x00) t" "t = c # cs" "\<not> cpp_isspace c" "c \<noteq> CHR ''+''"
  shows "stod t = (case from_chars_double t of None \<Rightarrow> Inl (Invalid_argument ''stod'') | Some x \<Rightarrow> Inr x)"
proof -
  have "c_str t = t" using takeWhile_run [OF assms(1), of "[]"] by (simp add: c_str_def)
  then have "dropWhile cpp_isspace (c_str t) = t" using assms by simp
  then show ?thesis using assms by (simp add: stod_def Let_def split: list.split)
qed

section \<open>Lines\<close>

text \<open>The lines that repeated \<^verbatim>\<open>std::getline\<close> reads; a trailing newline adds no empty line.\<close>

fun getlines :: "string \<Rightarrow> string list" where
  "getlines [] = []"
| "getlines (c # s) =
     (if c = CHR 0x0A then [] # getlines s
      else case getlines s of
             [] \<Rightarrow> [[c]]
           | l # ls \<Rightarrow> (c # l) # ls)"

end
