(* ===== verification/HTTP_Client.thy ===== *)
theory HTTP_Client
  imports Cpp_Strings
begin

text \<open>
  The HTTP response parser of \<^verbatim>\<open>src/core/network/https_client_request\<close>: responses with a
  \<^verbatim>\<open>Content-Length\<close> or a chunked body, parsed from a buffer that grows as data arrives. The
  chunk parser holds references to the buffer and the response of its owner, so one record
  holds the state of both. The stream operators of the status line and \<^verbatim>\<open>std::stoi\<close> are those of
  \<^verbatim>\<open>Cpp_Strings\<close>.
\<close>

section \<open>Responses\<close>

record HttpsClientResponse =
  status_code :: int
  status_message :: string
  headers :: "string \<rightharpoonup> string"
  body :: string
  is_complete :: bool

definition reset_response :: HttpsClientResponse where
  "reset_response = \<lparr>status_code = 0, status_message = [], headers = Map.empty, body = [], is_complete = False\<rparr>"

definition create_error_response :: HttpsClientResponse where
  "create_error_response =
     \<lparr>status_code = -1, status_message = ''HTTPS_CLIENT_DISCONNECTED'', headers = Map.empty, body = [],
      is_complete = False\<rparr>"

definition is_blank :: "char \<Rightarrow> bool" where
  "is_blank c \<longleftrightarrow> c = CHR '' '' \<or> c = CHR 0x09"

definition trim :: "string \<Rightarrow> string" where
  "trim s = rev (dropWhile is_blank (rev (dropWhile is_blank s)))"

definition to_lower :: "string \<Rightarrow> string" where
  "to_lower s = map cpp_tolower s"

section \<open>Chunk parser\<close>

datatype ChunkState = ReadSizeLine | ReadData | ReadDataCRLF | ReadTrailers | Chunks_done

datatype ChunkParseResult = Chunk_done | NeedMoreData | Chunk_error

record HttpsClientResponseParser =
  m_buffer :: string
  m_header_parsed :: bool
  m_content_length :: int
  m_is_chunked :: bool
  m_current_response :: HttpsClientResponse
  m_chunk_state :: ChunkState
  m_chunk_bytes_remaining :: nat

definition new_response_parser :: HttpsClientResponseParser where
  "new_response_parser = \<lparr>m_buffer = [], m_header_parsed = False, m_content_length = 0,
     m_is_chunked = False, m_current_response = reset_response,
     m_chunk_state = ReadSizeLine, m_chunk_bytes_remaining = 0\<rparr>"

definition crlf :: string where "crlf = [CHR 0x0D, CHR 0x0A]"
definition crlf2 :: string where "crlf2 = [CHR 0x0D, CHR 0x0A, CHR 0x0D, CHR 0x0A]"

definition hex_digit :: "char \<Rightarrow> nat option" where
  "hex_digit c =
     (let n = of_char c :: nat
      in if 48 \<le> n \<and> n \<le> 57 then Some (n - 48)
         else if 97 \<le> n \<and> n \<le> 102 then Some (10 + (n - 97))
         else if 65 \<le> n \<and> n \<le> 70 then Some (10 + (n - 65))
         else None)"

fun parse_hex_digits :: "nat \<Rightarrow> string \<Rightarrow> nat option" where
  "parse_hex_digits v [] = Some v"
| "parse_hex_digits v (c # s) =
     (case hex_digit c of None \<Rightarrow> None | Some d \<Rightarrow> parse_hex_digits ((v * 16 + d) mod SIZE_MOD) s)"

definition parse_hex_size :: "string \<Rightarrow> nat option" where
  "parse_hex_size s = parse_hex_digits 0 s"

text \<open>One turn of the loop: \<open>Inl\<close> to go on, \<open>Inr\<close> to return.\<close>

definition chunk_step ::
  "HttpsClientResponseParser \<Rightarrow> HttpsClientResponseParser + ChunkParseResult \<times> HttpsClientResponseParser" where
  "chunk_step s =
     (case m_chunk_state s of
        ReadSizeLine \<Rightarrow>
          (case find_sub crlf (m_buffer s) of
             None \<Rightarrow> Inr (NeedMoreData, s)
           | Some rn \<Rightarrow>
               let line = take rn (m_buffer s);
                   s1 = s\<lparr>m_buffer := drop (rn + 2) (m_buffer s)\<rparr>;
                   line = (case find_sub '';'' line of None \<Rightarrow> line | Some semi \<Rightarrow> take semi line);
                   size_line = trim line
               in if size_line = [] then Inr (Chunk_error, s1)
                  else case parse_hex_size size_line of
                         None \<Rightarrow> Inr (Chunk_error, s1)
                       | Some chunk_sz \<Rightarrow>
                           Inl (s1\<lparr>m_chunk_bytes_remaining := chunk_sz,
                                   m_chunk_state := (if chunk_sz = 0 then ReadTrailers else ReadData)\<rparr>))
      | ReadData \<Rightarrow>
          (if length (m_buffer s) < m_chunk_bytes_remaining s then Inr (NeedMoreData, s)
           else Inl (s\<lparr>m_current_response := (m_current_response s)
                         \<lparr>body := body (m_current_response s) @ take (m_chunk_bytes_remaining s) (m_buffer s)\<rparr>,
                       m_buffer := drop (m_chunk_bytes_remaining s) (m_buffer s),
                       m_chunk_state := ReadDataCRLF\<rparr>))
      | ReadDataCRLF \<Rightarrow>
          (if length (m_buffer s) < 2 then Inr (NeedMoreData, s)
           else if take 2 (m_buffer s) \<noteq> crlf then Inr (Chunk_error, s)
           else Inl (s\<lparr>m_buffer := drop 2 (m_buffer s), m_chunk_state := ReadSizeLine,
                       m_chunk_bytes_remaining := 0\<rparr>))
      | ReadTrailers \<Rightarrow>
          (if length (m_buffer s) < 2 then Inr (NeedMoreData, s)
           else if take 2 (m_buffer s) = crlf
           then Inr (Chunk_done, s\<lparr>m_buffer := drop 2 (m_buffer s), m_chunk_state := Chunks_done\<rparr>)
           else case find_sub crlf2 (m_buffer s) of
                  None \<Rightarrow> Inr (NeedMoreData, s)
                | Some e \<Rightarrow> Inr (Chunk_done, s\<lparr>m_buffer := drop (e + 4) (m_buffer s),
                                              m_chunk_state := Chunks_done\<rparr>))
      | Chunks_done \<Rightarrow> Inr (Chunk_done, s))"

fun chunk_rank :: "ChunkState \<Rightarrow> nat" where
  "chunk_rank ReadData = 1"
| "chunk_rank _ = 0"

lemma chunk_step_decreases:
  assumes "chunk_step s = Inl s'"
  shows "length (m_buffer s') + chunk_rank (m_chunk_state s')
           < length (m_buffer s) + chunk_rank (m_chunk_state s)"
proof -
  have "rn + 2 \<le> length (m_buffer s)" if "find_sub crlf (m_buffer s) = Some rn" for rn
    using find_sub_bound [OF that] by (simp add: crlf_def)
  then show ?thesis
    using assms
    by (auto simp: chunk_step_def Let_def split: ChunkState.splits option.splits if_splits)
qed

function parse_chunked_body ::
  "HttpsClientResponseParser \<Rightarrow> ChunkParseResult \<times> HttpsClientResponseParser" where
  "parse_chunked_body s = (case chunk_step s of Inl s' \<Rightarrow> parse_chunked_body s' | Inr r \<Rightarrow> r)"
  by pat_completeness auto
termination
  by (relation "measure (\<lambda>s. length (m_buffer s) + chunk_rank (m_chunk_state s))")
    (auto dest: chunk_step_decreases)

declare parse_chunked_body.simps [simp del]

section \<open>Response parser\<close>

definition append_data :: "HttpsClientResponseParser \<Rightarrow> string \<Rightarrow> HttpsClientResponseParser" where
  "append_data s data = s\<lparr>m_buffer := m_buffer s @ data\<rparr>"

definition get_leftover_data :: "HttpsClientResponseParser \<Rightarrow> string" where
  "get_leftover_data s = m_buffer s"

definition reset_state :: "HttpsClientResponseParser \<Rightarrow> HttpsClientResponseParser" where
  "reset_state s = s\<lparr>m_header_parsed := False, m_content_length := 0, m_is_chunked := False,
     m_chunk_state := ReadSizeLine, m_chunk_bytes_remaining := 0, m_current_response := reset_response\<rparr>"

text \<open>
  \<^verbatim>\<open>ss >> http_ver; ss >> resp.status_code; std::getline(ss, resp.status_message)\<close>: an
  extraction that reaches the end of the line makes the next ones fail and leave their target
  alone; a status code that is no number is set to 0 and one that does not fit to the
  nearest limit, and then the message is left alone too.
\<close>

definition parse_status_line :: "string \<Rightarrow> HttpsClientResponse \<Rightarrow> HttpsClientResponse" where
  "parse_status_line line resp =
     (let after_version = dropWhile (\<lambda>c. \<not> cpp_isspace c) (dropWhile cpp_isspace line);
          number = dropWhile cpp_isspace after_version
      in if number = [] then resp
         else case scan_int number of
                None \<Rightarrow> resp\<lparr>status_code := 0\<rparr>
              | Some (v, rest) \<Rightarrow>
                  if v < INT_MIN then resp\<lparr>status_code := INT_MIN\<rparr>
                  else if INT_MAX < v then resp\<lparr>status_code := INT_MAX\<rparr>
                  else if rest = [] then resp\<lparr>status_code := v\<rparr>
                  else
                    let msg = takeWhile (\<lambda>c. c \<noteq> CHR 0x0A) rest
                    in resp\<lparr>status_code := v,
                           status_message := (if msg \<noteq> [] \<and> hd msg = CHR '' '' then tl msg else msg)\<rparr>)"

definition strip_cr :: "string \<Rightarrow> string" where
  "strip_cr line = (if line \<noteq> [] \<and> last line = CHR 0x0D then butlast line else line)"

definition parse_header_line ::
  "HttpsClientResponseParser \<Rightarrow> string \<Rightarrow> cpp_error + HttpsClientResponseParser" where
  "parse_header_line s raw =
     (let line = strip_cr raw
      in if line = [] then Inr s
         else case find_sub '':'' line of
                None \<Rightarrow> Inr s
              | Some pos \<Rightarrow>
                  let key = trim (take pos line);
                      value = trim (drop (pos + 1) line);
                      resp = m_current_response s;
                      s1 = s\<lparr>m_current_response := resp\<lparr>headers := (headers resp)(key \<mapsto> value)\<rparr>\<rparr>
                  in sum_bind
                       (if strcasecmp_eq key ''Content-Length''
                        then sum_bind (stoi value) (\<lambda>n. Inr (s1\<lparr>m_content_length := n\<rparr>))
                        else Inr s1)
                       (\<lambda>s2. Inr (if strcasecmp_eq key ''Transfer-Encoding'' \<and>
                                     find_sub ''chunked'' (to_lower value) \<noteq> None
                                  then s2\<lparr>m_is_chunked := True, m_content_length := 0\<rparr>
                                  else s2)))"

definition parse_header ::
  "HttpsClientResponseParser \<Rightarrow> string \<Rightarrow> cpp_error + bool \<times> HttpsClientResponseParser" where
  "parse_header s header_block =
     (case getlines header_block of
        [] \<Rightarrow> Inr (False, s)
      | line # rest \<Rightarrow>
          let s1 = s\<lparr>m_current_response := parse_status_line (strip_cr line) (m_current_response s)\<rparr>
          in sum_bind (sum_fold parse_header_line s1 rest) (\<lambda>s2. Inr (True, s2)))"

text \<open>
  One turn of the loop of \<^verbatim>\<open>parse_all\<close>: a complete response, or one of the reasons to leave the
  loop. The code does not tell the middle three apart.
\<close>

datatype iteration =
    Emit HttpsClientResponse HttpsClientResponseParser
  | Wait HttpsClientResponseParser
  | Bad_chunk HttpsClientResponseParser
  | Bad_header HttpsClientResponseParser
  | Throws cpp_error

definition emit :: "HttpsClientResponseParser \<Rightarrow> iteration" where
  "emit s = Emit ((m_current_response s)\<lparr>is_complete := True\<rparr>) (reset_state s)"

definition body_turn :: "HttpsClientResponseParser \<Rightarrow> iteration" where
  "body_turn s =
     (if m_is_chunked s
      then (case parse_chunked_body s of
              (NeedMoreData, s') \<Rightarrow> Wait s'
            | (Chunk_error, s') \<Rightarrow> Bad_chunk s'
            | (Chunk_done, s') \<Rightarrow> emit s')
      else if length (m_buffer s) < nat (m_content_length s mod int SIZE_MOD) then Wait s
      else
        let n = nat (m_content_length s mod int SIZE_MOD)
        in emit (s\<lparr>m_current_response := (m_current_response s)\<lparr>body := take n (m_buffer s)\<rparr>,
                   m_buffer := drop n (m_buffer s)\<rparr>))"

definition parse_turn :: "HttpsClientResponseParser \<Rightarrow> iteration" where
  "parse_turn s =
     (if m_header_parsed s then body_turn s
      else case find_sub crlf2 (m_buffer s) of
             None \<Rightarrow> Wait s
           | Some pos \<Rightarrow>
               (case parse_header s (take pos (m_buffer s)) of
                  Inl e \<Rightarrow> Throws e
                | Inr (False, s') \<Rightarrow> Bad_header s'
                | Inr (True, s') \<Rightarrow>
                    let s2 = s'\<lparr>m_buffer := drop (pos + 4) (m_buffer s'), m_header_parsed := True\<rparr>
                    in if \<not> m_is_chunked s2 \<and> m_content_length s2 = 0 then emit s2 else body_turn s2))"

section \<open>Data that arrives later\<close>

lemma append_data_simps [simp]:
  "m_buffer (append_data s q) = m_buffer s @ q"
  "m_header_parsed (append_data s q) = m_header_parsed s"
  "m_content_length (append_data s q) = m_content_length s"
  "m_is_chunked (append_data s q) = m_is_chunked s"
  "m_current_response (append_data s q) = m_current_response s"
  "m_chunk_state (append_data s q) = m_chunk_state s"
  "m_chunk_bytes_remaining (append_data s q) = m_chunk_bytes_remaining s"
  "append_data (append_data s q) q' = append_data s (q @ q')"
  "append_data s [] = s"
  by (simp_all add: append_data_def)

lemma find_crlf_bound: "find_sub crlf b = Some i \<Longrightarrow> i + 2 \<le> length b"
  using find_sub_bound [of crlf b i] by (simp add: crlf_def)

lemma find_crlf2_bound: "find_sub crlf2 b = Some i \<Longrightarrow> i + 4 \<le> length b"
  using find_sub_bound [of crlf2 b i] by (simp add: crlf2_def)

lemma chunk_step_continue_append:
  assumes "chunk_step s = Inl s'"
  shows "chunk_step (append_data s q) = Inl (append_data s' q)"
proof (cases "m_chunk_state s")
  case ReadSizeLine
  with assms obtain rn where rn: "find_sub crlf (m_buffer s) = Some rn"
    by (auto simp: chunk_step_def split: option.splits)
  then have "find_sub crlf (m_buffer s @ q) = Some rn" "rn \<le> length (m_buffer s)" "rn + 2 \<le> length (m_buffer s)"
    using find_crlf_bound [of "m_buffer s" rn] by (auto simp: find_sub_append)
  with assms rn ReadSizeLine show ?thesis
    by (auto simp: chunk_step_def append_data_def Let_def split: if_splits option.splits)
qed (use assms in \<open>auto simp: chunk_step_def append_data_def split: if_splits option.splits\<close>)

lemma chunk_step_return_append:
  assumes "chunk_step s = Inr (r, s')" and "r \<noteq> NeedMoreData"
  shows "chunk_step (append_data s q) = Inr (r, append_data s' q)"
proof (cases "m_chunk_state s")
  case ReadSizeLine
  with assms obtain rn where rn: "find_sub crlf (m_buffer s) = Some rn"
    by (auto simp: chunk_step_def split: option.splits)
  then have "find_sub crlf (m_buffer s @ q) = Some rn" "rn \<le> length (m_buffer s)" "rn + 2 \<le> length (m_buffer s)"
    using find_crlf_bound [of "m_buffer s" rn] by (auto simp: find_sub_append)
  with assms rn ReadSizeLine show ?thesis
    by (auto simp: chunk_step_def append_data_def Let_def split: if_splits option.splits)
next
  case ReadTrailers
  then show ?thesis
    using assms find_sub_append [of crlf2 "m_buffer s" _ q] find_crlf2_bound [of "m_buffer s"]
    by (auto simp: chunk_step_def append_data_def split: if_splits option.splits)
qed (use assms in \<open>auto simp: chunk_step_def append_data_def split: if_splits option.splits\<close>)

lemma chunk_step_need: "chunk_step s = Inr (NeedMoreData, s') \<Longrightarrow> s' = s"
  by (auto simp: chunk_step_def Let_def split: ChunkState.splits option.splits if_splits)

lemma parse_chunked_body_append:
  assumes "parse_chunked_body s = (r, s')"
  shows "if r = NeedMoreData then parse_chunked_body (append_data s q) = parse_chunked_body (append_data s' q)
         else parse_chunked_body (append_data s q) = (r, append_data s' q)"
  using assms
proof (induction s rule: parse_chunked_body.induct)
  case (1 s)
  show ?case
  proof (cases "chunk_step s")
    case (Inl s1)
    then have "parse_chunked_body s = parse_chunked_body s1" by (subst parse_chunked_body.simps) simp
    moreover have "parse_chunked_body (append_data s q) = parse_chunked_body (append_data s1 q)"
      by (subst parse_chunked_body.simps) (simp add: chunk_step_continue_append [OF Inl])
    ultimately show ?thesis using 1 Inl by simp
  next
    case (Inr x)
    with 1(2) have x: "x = (r, s')" by (subst (asm) parse_chunked_body.simps) simp
    show ?thesis
    proof (cases "r = NeedMoreData")
      case True
      with Inr x have "s' = s" by (simp add: chunk_step_need)
      with True show ?thesis by simp
    next
      case False
      with Inr x have "chunk_step (append_data s q) = Inr (r, append_data s' q)"
        by (simp add: chunk_step_return_append)
      then have "parse_chunked_body (append_data s q) = (r, append_data s' q)"
        by (subst parse_chunked_body.simps) simp
      with False show ?thesis by simp
    qed
  qed
qed

text \<open>What the chunk parser leaves alone.\<close>

lemma chunk_step_keeps:
  "chunk_step s = Inl s' \<Longrightarrow>
     m_header_parsed s' = m_header_parsed s \<and> m_is_chunked s' = m_is_chunked s \<and>
     length (m_buffer s') \<le> length (m_buffer s)"
  "chunk_step s = Inr (r, s') \<Longrightarrow>
     m_header_parsed s' = m_header_parsed s \<and> m_is_chunked s' = m_is_chunked s \<and>
     length (m_buffer s') \<le> length (m_buffer s)"
  by (auto simp: chunk_step_def Let_def split: ChunkState.splits option.splits if_splits)

lemma parse_chunked_body_keeps:
  "parse_chunked_body s = (r, s') \<Longrightarrow>
     m_header_parsed s' = m_header_parsed s \<and> m_is_chunked s' = m_is_chunked s \<and>
     length (m_buffer s') \<le> length (m_buffer s)"
proof (induction s rule: parse_chunked_body.induct)
  case (1 s)
  show ?case
  proof (cases "chunk_step s")
    case (Inl s1)
    then have "parse_chunked_body s1 = (r, s')" using 1(2) by (subst (asm) parse_chunked_body.simps) simp
    with 1(1) [OF Inl] chunk_step_keeps(1) [OF Inl] show ?thesis by auto
  next
    case (Inr x)
    then have "chunk_step s = Inr (r, s')" using 1(2) by (subst (asm) parse_chunked_body.simps) simp
    then show ?thesis by (rule chunk_step_keeps(2))
  qed
qed

lemma parse_header_line_buffer:
  "parse_header_line (s\<lparr>m_buffer := b\<rparr>) l = map_sum id (\<lambda>s'. s'\<lparr>m_buffer := b\<rparr>) (parse_header_line s l)"
  by (auto simp: parse_header_line_def Let_def split: option.split)
    (cases "stoi (trim (drop (Suc (the (find_sub '':'' (strip_cr l)))) (strip_cr l)))"; simp)+

lemma parse_header_lines_buffer:
  "sum_fold parse_header_line (s\<lparr>m_buffer := b\<rparr>) ls
     = map_sum id (\<lambda>s'. s'\<lparr>m_buffer := b\<rparr>) (sum_fold parse_header_line s ls)"
proof (induction ls arbitrary: s)
  case (Cons l ls)
  show ?case
    by (cases "parse_header_line s l") (simp_all add: parse_header_line_buffer Cons.IH)
qed simp

lemma parse_header_buffer:
  "parse_header (s\<lparr>m_buffer := b\<rparr>) hb
     = map_sum id (map_prod id (\<lambda>s'. s'\<lparr>m_buffer := b\<rparr>)) (parse_header s hb)"
proof (cases "getlines hb")
  case (Cons l ls)
  let ?s = "s\<lparr>m_current_response := parse_status_line (strip_cr l) (m_current_response s)\<rparr>"
  have swap: "s\<lparr>m_buffer := b, m_current_response := parse_status_line (strip_cr l) (m_current_response s)\<rparr>
      = ?s\<lparr>m_buffer := b\<rparr>" by (cases s) simp
  have "sum_fold parse_header_line
      (s\<lparr>m_buffer := b, m_current_response := parse_status_line (strip_cr l) (m_current_response s)\<rparr>) ls
      = map_sum id (\<lambda>s'. s'\<lparr>m_buffer := b\<rparr>) (sum_fold parse_header_line ?s ls)"
    unfolding swap by (rule parse_header_lines_buffer)
  then show ?thesis
    by (cases "sum_fold parse_header_line ?s ls") (simp_all add: parse_header_def Cons)
qed (simp add: parse_header_def)

lemma parse_header_append:
  "parse_header (append_data s q) hb
     = map_sum id (map_prod id (\<lambda>s'. s'\<lparr>m_buffer := m_buffer s @ q\<rparr>)) (parse_header s hb)"
  by (simp only: append_data_def parse_header_buffer)

lemma parse_header_keeps_buffer:
  assumes "parse_header s hb = Inr (ok, s')"
  shows "m_buffer s' = m_buffer s"
  using parse_header_buffer [where s = s and b = "m_buffer s" and hb = hb] assms
  by (cases s') (auto dest: arg_cong [where f = m_buffer])

text \<open>Once a turn has a result, more data does not change it.\<close>

fun it_append :: "iteration \<Rightarrow> string \<Rightarrow> iteration" where
  "it_append (Emit r s) q = Emit r (append_data s q)"
| "it_append (Wait s) q = Wait (append_data s q)"
| "it_append (Bad_chunk s) q = Bad_chunk (append_data s q)"
| "it_append (Bad_header s) q = Bad_header (append_data s q)"
| "it_append (Throws e) q = Throws e"

fun waits :: "iteration \<Rightarrow> bool" where
  "waits (Wait s) = True"
| "waits _ = False"

lemma emit_append: "emit (append_data s q) = it_append (emit s) q"
  by (simp add: emit_def append_data_def reset_state_def)

lemma not_waits_emit [simp]: "\<not> waits (emit s)"
  by (simp add: emit_def)

lemma emit_neq [simp]: "emit s \<noteq> Wait s'" "Wait s' \<noteq> emit s"
  by (simp_all add: emit_def)

lemma body_turn_append:
  assumes "\<not> waits (body_turn s)"
  shows "body_turn (append_data s q) = it_append (body_turn s) q"
proof (cases "m_is_chunked s")
  case True
  obtain r s' where pc: "parse_chunked_body s = (r, s')" by fastforce
  have "r \<noteq> NeedMoreData" using assms True pc by (auto simp: body_turn_def)
  with parse_chunked_body_append [OF pc, of q] True pc show ?thesis
    by (cases r) (auto simp: body_turn_def emit_append)
next
  case False
  let ?n = "nat (m_content_length s mod int SIZE_MOD)"
  have le: "?n \<le> length (m_buffer s)" using assms False by (auto simp: body_turn_def split: if_splits)
  then show ?thesis using False
    by (simp add: body_turn_def Let_def emit_append [symmetric]) (simp add: append_data_def)
qed

lemma body_turn_wait:
  assumes "body_turn s = Wait s'"
  shows "body_turn (append_data s q) = body_turn (append_data s' q)"
    and "m_header_parsed s' = m_header_parsed s"
proof -
  have "body_turn (append_data s q) = body_turn (append_data s' q) \<and> m_header_parsed s' = m_header_parsed s"
  proof (cases "m_is_chunked s")
    case True
    obtain r s1 where pc: "parse_chunked_body s = (r, s1)" by fastforce
    then have "r = NeedMoreData" "s1 = s'"
      using assms True by (auto simp: body_turn_def split: ChunkParseResult.splits)
    with parse_chunked_body_append [OF pc, of q] parse_chunked_body_keeps [OF pc] True
    show ?thesis by (simp add: body_turn_def)
  next
    case False
    then show ?thesis using assms by (auto simp: body_turn_def Let_def split: if_splits)
  qed
  then show "body_turn (append_data s q) = body_turn (append_data s' q)"
    and "m_header_parsed s' = m_header_parsed s" by auto
qed

text \<open>The state after a parsed header block that ends at \<open>pos\<close>.\<close>

definition after_header :: "nat \<Rightarrow> HttpsClientResponseParser \<Rightarrow> HttpsClientResponseParser" where
  "after_header pos s = s\<lparr>m_buffer := drop (pos + 4) (m_buffer s), m_header_parsed := True\<rparr>"

definition header_turn :: "HttpsClientResponseParser \<Rightarrow> iteration" where
  "header_turn s = (if \<not> m_is_chunked s \<and> m_content_length s = 0 then emit s else body_turn s)"

lemma parse_turn_header:
  assumes "\<not> m_header_parsed s" and "find_sub crlf2 (m_buffer s) = Some pos"
  shows "parse_turn s = (case parse_header s (take pos (m_buffer s)) of
     Inl e \<Rightarrow> Throws e | Inr (ok, s') \<Rightarrow> if ok then header_turn (after_header pos s') else Bad_header s')"
  using assms by (auto simp: parse_turn_def header_turn_def after_header_def Let_def split: sum.split)

lemma header_turn_append:
  "\<not> waits (header_turn s) \<Longrightarrow> header_turn (append_data s q) = it_append (header_turn s) q"
  by (auto simp: header_turn_def emit_append body_turn_append)

lemma header_turn_wait:
  assumes "header_turn s = Wait s'"
  shows "header_turn (append_data s q) = body_turn (append_data s' q)" and "m_header_parsed s' = m_header_parsed s"
  using assms body_turn_wait [of s s'] by (auto simp: header_turn_def split: if_splits)

lemma parse_header_after_append:
  assumes "find_sub crlf2 (m_buffer s) = Some pos" and "\<not> m_header_parsed s"
  shows "parse_turn (append_data s q) = (case parse_header s (take pos (m_buffer s)) of
     Inl e \<Rightarrow> Throws e
   | Inr (ok, s') \<Rightarrow> if ok then header_turn (append_data (after_header pos s') q)
                    else Bad_header (append_data s' q))"
proof -
  have pos: "pos + 4 \<le> length (m_buffer s)" by (rule find_crlf2_bound [OF assms(1)])
  have find: "find_sub crlf2 (m_buffer (append_data s q)) = Some pos"
    using find_sub_append [OF assms(1)] by simp
  show ?thesis
  proof (cases "parse_header s (take pos (m_buffer s))")
    case (Inl e)
    then show ?thesis using parse_turn_header [OF _ find] assms(2) pos by (simp add: parse_header_append)
  next
    case (Inr x)
    obtain ok s' where x: "x = (ok, s')" by (cases x)
    have b: "m_buffer s' = m_buffer s" using parse_header_keeps_buffer Inr x by simp
    have "after_header pos (s'\<lparr>m_buffer := m_buffer s @ q\<rparr>) = append_data (after_header pos s') q"
      using pos by (simp add: after_header_def append_data_def b)
    then show ?thesis
      using parse_turn_header [OF _ find] assms(2) pos Inr x b
      by (simp add: parse_header_append append_data_def [of s'])
  qed
qed

lemma parse_turn_append:
  assumes "\<not> waits (parse_turn s)"
  shows "parse_turn (append_data s q) = it_append (parse_turn s) q"
proof (cases "m_header_parsed s")
  case True
  with assms show ?thesis by (simp add: parse_turn_def body_turn_append)
next
  case False
  with assms obtain pos where pos: "find_sub crlf2 (m_buffer s) = Some pos"
    by (cases "find_sub crlf2 (m_buffer s)") (auto simp: parse_turn_def)
  show ?thesis
    using assms parse_header_after_append [OF pos False, of q] parse_turn_header [OF False pos]
    by (auto simp: header_turn_append split: sum.splits if_splits)
qed

lemma parse_turn_wait:
  assumes "parse_turn s = Wait s'"
  shows "parse_turn (append_data s q) = parse_turn (append_data s' q)"
proof (cases "m_header_parsed s")
  case True
  with assms body_turn_wait [of s s'] show ?thesis by (simp add: parse_turn_def)
next
  case False
  show ?thesis
  proof (cases "find_sub crlf2 (m_buffer s)")
    case None
    with False assms have "s' = s" by (simp add: parse_turn_def)
    then show ?thesis by simp
  next
    case (Some pos)
    with assms False obtain s1 where s1: "parse_header s (take pos (m_buffer s)) = Inr (True, s1)"
      "header_turn (after_header pos s1) = Wait s'"
      by (auto simp: parse_turn_header split: sum.splits if_splits)
    have "m_header_parsed s'" using header_turn_wait(2) [OF s1(2)] by (simp add: after_header_def)
    then show ?thesis
      using parse_header_after_append [OF Some False, of q] s1(1) header_turn_wait(1) [OF s1(2), of q]
      by (simp add: parse_turn_def)
  qed
qed

section \<open>The parse loop\<close>

lemma body_turn_emit_shrinks:
  assumes "body_turn s = Emit r s'"
  shows "length (m_buffer s') \<le> length (m_buffer s) \<and> \<not> m_header_parsed s'"
proof (cases "m_is_chunked s")
  case True
  obtain c s1 where pc: "parse_chunked_body s = (c, s1)" by fastforce
  with assms True have "Emit r s' = emit s1" by (auto simp: body_turn_def split: ChunkParseResult.splits)
  with parse_chunked_body_keeps [OF pc] show ?thesis by (simp add: emit_def reset_state_def)
next
  case False
  with assms show ?thesis
    by (auto simp: body_turn_def Let_def emit_def reset_state_def split: if_splits)
qed

lemma parse_turn_emit_shrinks:
  assumes "parse_turn s = Emit r s'"
  shows "2 * length (m_buffer s') + of_bool (m_header_parsed s')
           < 2 * length (m_buffer s) + of_bool (m_header_parsed s)"
proof (cases "m_header_parsed s")
  case True
  with assms body_turn_emit_shrinks [of s r s'] show ?thesis by (simp add: parse_turn_def)
next
  case False
  with assms obtain pos where pos: "find_sub crlf2 (m_buffer s) = Some pos"
    by (cases "find_sub crlf2 (m_buffer s)") (auto simp: parse_turn_def)
  with assms False obtain s1 where s1: "parse_header s (take pos (m_buffer s)) = Inr (True, s1)"
    "header_turn (after_header pos s1) = Emit r s'"
    by (auto simp: parse_turn_header split: sum.splits if_splits)
  have "length (m_buffer s') \<le> length (m_buffer (after_header pos s1)) \<and> \<not> m_header_parsed s'"
    using s1(2) body_turn_emit_shrinks [of "after_header pos s1" r s']
    by (auto simp: header_turn_def emit_def reset_state_def split: if_splits)
  moreover have "m_buffer s1 = m_buffer s" by (rule parse_header_keeps_buffer [OF s1(1)])
  ultimately show ?thesis using find_crlf2_bound [OF pos] by (auto simp: after_header_def)
qed

text \<open>The responses of a call of \<^verbatim>\<open>parse_all\<close>, and the turn that left the loop.\<close>

function parse_run :: "HttpsClientResponseParser \<Rightarrow> HttpsClientResponse list \<times> iteration" where
  "parse_run s =
     (case parse_turn s of
        Emit r s' \<Rightarrow> (case parse_run s' of (rs, final) \<Rightarrow> (r # rs, final))
      | final \<Rightarrow> ([], final))"
  by pat_completeness auto
termination
  by (relation "measure (\<lambda>s. 2 * length (m_buffer s) + of_bool (m_header_parsed s))")
    (auto dest: parse_turn_emit_shrinks)

declare parse_run.simps [simp del]

fun leave_loop :: "HttpsClientResponse list \<times> iteration \<Rightarrow> cpp_error + HttpsClientResponse list \<times> HttpsClientResponseParser" where
  "leave_loop (rs, Throws e) = Inl e"
| "leave_loop (rs, Wait s) = Inr (rs, s)"
| "leave_loop (rs, Bad_chunk s) = Inr (rs, s)"
| "leave_loop (rs, Bad_header s) = Inr (rs, s)"
| "leave_loop (rs, Emit r s) = Inr (rs, s)"

definition parse_all ::
  "HttpsClientResponseParser \<Rightarrow> cpp_error + HttpsClientResponse list \<times> HttpsClientResponseParser" where
  "parse_all s = leave_loop (parse_run s)"

text \<open>Data arrives in pieces; each is appended and parsed (\<^verbatim>\<open>HttpsClientRequest::wait_for_tcp_data\<close>).\<close>

fun receive_http ::
  "HttpsClientResponseParser \<Rightarrow> string list \<Rightarrow> cpp_error + HttpsClientResponse list \<times> HttpsClientResponseParser" where
  "receive_http s [] = Inr ([], s)"
| "receive_http s (data # rest) =
     sum_bind (parse_all (append_data s data)) (\<lambda>(rs, s').
       sum_bind (receive_http s' rest) (\<lambda>(rs', s''). Inr (rs @ rs', s'')))"

lemma parse_run_Emit:
  "parse_turn s = Emit r s' \<Longrightarrow> parse_run s = (r # fst (parse_run s'), snd (parse_run s'))"
  by (subst parse_run.simps) (simp add: case_prod_beta)

lemma parse_run_stop:
  "\<nexists>r s'. parse_turn s = Emit r s' \<Longrightarrow> parse_run s = ([], parse_turn s)"
  by (subst parse_run.simps) (auto split: iteration.split)

lemma parse_run_append:
  "parse_run (append_data s q) =
     (case parse_run s of
        (rs, Wait s') \<Rightarrow> (rs @ fst (parse_run (append_data s' q)), snd (parse_run (append_data s' q)))
      | (rs, final) \<Rightarrow> (rs, it_append final q))"
proof (induction s rule: parse_run.induct)
  case (1 s)
  show ?case
  proof (cases "parse_turn s")
    case (Emit r s')
    then have "parse_turn (append_data s q) = Emit r (append_data s' q)"
      using parse_turn_append [of s q] by simp
    with 1 [OF Emit] Emit show ?thesis
      by (auto simp: parse_run_Emit split: prod.splits iteration.splits)
  next
    case (Wait s')
    then have "parse_turn (append_data s q) = parse_turn (append_data s' q)" by (rule parse_turn_wait)
    then have "parse_run (append_data s q) = parse_run (append_data s' q)"
      by (subst (1 2) parse_run.simps) simp
    with Wait show ?thesis by (simp add: parse_run_stop)
  qed (auto simp: parse_run_stop parse_turn_append)
qed

lemma parse_run_final: "snd (parse_run s) \<noteq> Emit r s'"
proof (induction s rule: parse_run.induct)
  case (1 s)
  show ?case
  proof (cases "\<exists>r s'. parse_turn s = Emit r s'")
    case True
    then obtain r s' where "parse_turn s = Emit r s'" by blast
    with 1 [OF this] show ?thesis by (simp add: parse_run_Emit)
  next
    case False
    then show ?thesis by (auto simp: parse_run_stop)
  qed
qed

lemma parse_run_waiting:
  assumes "parse_run s = (rs, Wait s')"
  shows "parse_run s' = ([], Wait s')"
  using parse_run_append [of s "[]"] assms by (auto simp: prod_eq_iff)

lemma receive_whole:
  assumes "parse_run s = ([], Wait s)" and "parse_run (append_data s (concat chunks)) = (rs, Wait s')"
  shows "receive_http s chunks = Inr (rs, s')"
  using assms
proof (induction chunks arbitrary: s rs)
  case Nil
  then show ?case by simp
next
  case (Cons c chunks)
  obtain rs1 f where run: "parse_run (append_data s c) = (rs1, f)" by fastforce
  have all: "parse_run (append_data (append_data s c) (concat chunks)) = (rs, Wait s')"
    using Cons.prems(2) by simp
  show ?case
  proof (cases f)
    case (Wait s1)
    obtain rs2 where rs2: "parse_run (append_data s1 (concat chunks)) = (rs2, Wait s')" "rs = rs1 @ rs2"
      using all parse_run_append [of "append_data s c" "concat chunks"] run Wait
      by (auto simp: prod_eq_iff)
    have "receive_http s1 chunks = Inr (rs2, s')"
      by (rule Cons.IH [OF parse_run_waiting rs2(1)]) (use run Wait in simp)
    with run Wait rs2(2) show ?thesis by (simp add: parse_all_def)
  qed (use all parse_run_append [of "append_data s c" "concat chunks"] run in auto)
qed

lemma new_fields:
  "m_is_chunked new_response_parser = False" "m_content_length new_response_parser = 0"
  "m_buffer new_response_parser = []" "m_header_parsed new_response_parser = False"
  by (simp_all add: new_response_parser_def)

lemma new_waits: "parse_run new_response_parser = ([], Wait new_response_parser)"
  by (subst parse_run.simps) (simp add: parse_turn_def new_response_parser_def crlf2_def)

section \<open>Well-formed responses\<close>

definition hex_char :: "nat \<Rightarrow> char" where
  "hex_char d = char_of (if d < 10 then 48 + d else 87 + d)"

fun to_hex :: "nat \<Rightarrow> string" where
  "to_hex n = (if n < 16 then [hex_char n] else to_hex (n div 16) @ [hex_char (n mod 16)])"

declare to_hex.simps [simp del]

definition encode_chunk :: "string \<Rightarrow> string" where
  "encode_chunk c = to_hex (length c) @ crlf @ c @ crlf"

definition encode_chunks :: "string list \<Rightarrow> string" where
  "encode_chunks cs = concat (map encode_chunk cs) @ ''0'' @ crlf @ crlf"

lemma hex_digit_hex_char: "d < 16 \<Longrightarrow> hex_digit (hex_char d) = Some d"
  by (auto simp: hex_digit_def hex_char_def Let_def)

lemma parse_hex_digits_append:
  "parse_hex_digits v (a @ b) = Option.bind (parse_hex_digits v a) (\<lambda>w. parse_hex_digits w b)"
  by (induction a arbitrary: v) (auto split: option.split)

lemma parse_to_hex: "n < SIZE_MOD \<Longrightarrow> parse_hex_size (to_hex n) = Some n"
  unfolding parse_hex_size_def
proof (induction n rule: to_hex.induct)
  case (1 n)
  show ?case
  proof (cases "n < 16")
    case True
    then show ?thesis by (subst to_hex.simps) (simp add: hex_digit_hex_char SIZE_MOD_def)
  next
    case False
    have "n div 16 < SIZE_MOD" using 1(2) by (simp add: SIZE_MOD_def)
    with 1 False show ?thesis
      by (subst to_hex.simps) (simp add: parse_hex_digits_append hex_digit_hex_char)
  qed
qed

lemma to_hex_chars:
  "c \<in> set (to_hex n) \<Longrightarrow> c \<noteq> CHR 0x0D \<and> c \<noteq> CHR '';'' \<and> \<not> is_blank c"
proof (induction n rule: to_hex.induct)
  case (1 n)
  have hex: "hex_char d \<noteq> CHR 0x0D \<and> hex_char d \<noteq> CHR '';'' \<and> \<not> is_blank (hex_char d)" if "d < 16" for d
  proof -
    from that have "d \<in> set [0..<16]" by simp
    moreover have "\<forall>d \<in> set [0..<16]. hex_char d \<noteq> CHR 0x0D \<and> hex_char d \<noteq> CHR '';'' \<and> \<not> is_blank (hex_char d)"
      by code_simp
    ultimately show ?thesis by blast
  qed
  show ?case
  proof (cases "n < 16")
    case True
    with 1(2) hex [of n] show ?thesis by (subst (asm) to_hex.simps) auto
  next
    case False
    with 1 hex [of "n mod 16"] show ?thesis by (subst (asm) (2) to_hex.simps) auto
  qed
qed

lemma to_hex_nonempty: "to_hex n \<noteq> []"
  by (subst to_hex.simps) simp

lemma find_sub_skip:
  assumes "\<forall>c \<in> set xs. c \<noteq> p"
  shows "find_sub (p # ps) (xs @ (p # ps) @ rest) = Some (length xs)"
  using assms by (induction xs) auto

lemma find_sub_none:
  assumes "\<forall>c \<in> set xs. c \<noteq> p"
  shows "find_sub (p # ps) xs = None"
  using assms by (induction xs) auto

lemma trim_id: "\<forall>c \<in> set s. \<not> is_blank c \<Longrightarrow> trim s = s"
  by (simp add: trim_def dropWhile_eq_self_iff) (metis dropWhile_eq_self_iff hd_in_set rev_is_Nil_conv rev_rev_ident set_rev)

lemma chunk_step_size_line:
  assumes "m_chunk_state s = ReadSizeLine" and "m_buffer s = to_hex n @ crlf @ rest" and "n < SIZE_MOD"
  shows "chunk_step s = Inl (s\<lparr>m_buffer := rest, m_chunk_bytes_remaining := n,
           m_chunk_state := (if n = 0 then ReadTrailers else ReadData)\<rparr>)"
proof -
  have "find_sub crlf (m_buffer s) = Some (length (to_hex n))"
    unfolding assms(2) crlf_def by (rule find_sub_skip) (use to_hex_chars in blast)
  moreover have "find_sub '';'' (to_hex n) = None"
    by (rule find_sub_none) (use to_hex_chars in blast)
  moreover have "trim (to_hex n) = to_hex n" by (rule trim_id) (use to_hex_chars in blast)
  ultimately show ?thesis
    using assms to_hex_nonempty [of n] parse_to_hex [OF assms(3)]
    by (simp add: chunk_step_def crlf_def Let_def)
qed

lemma parse_chunked_body_step:
  "chunk_step s = Inl s' \<Longrightarrow> parse_chunked_body s = parse_chunked_body s'"
  by (subst parse_chunked_body.simps) simp

lemma parse_chunked_body_return:
  "chunk_step s = Inr x \<Longrightarrow> parse_chunked_body s = x"
  by (subst parse_chunked_body.simps) simp

lemma decode_chunks:
  assumes "m_chunk_state s = ReadSizeLine" and "m_buffer s = encode_chunks cs @ rest"
    and "\<forall>c \<in> set cs. c \<noteq> [] \<and> length c < SIZE_MOD"
  shows "\<exists>s'. parse_chunked_body s = (Chunk_done, s') \<and> m_buffer s' = rest \<and>
     m_current_response s' = (m_current_response s)\<lparr>body := body (m_current_response s) @ concat cs\<rparr>"
  using assms
proof (induction cs arbitrary: s)
  case Nil
  have "to_hex 0 = ''0''" by code_simp
  then have buf: "m_buffer s = to_hex 0 @ crlf @ crlf @ rest" using Nil by (simp add: encode_chunks_def)
  let ?s1 = "s\<lparr>m_buffer := crlf @ rest, m_chunk_bytes_remaining := 0, m_chunk_state := ReadTrailers\<rparr>"
  have "chunk_step s = Inl ?s1"
    using buf chunk_step_size_line [OF Nil(1), of 0 "crlf @ rest"] by (simp add: SIZE_MOD_def)
  moreover have "chunk_step ?s1 = Inr (Chunk_done, ?s1\<lparr>m_buffer := rest, m_chunk_state := Chunks_done\<rparr>)"
    by (simp add: chunk_step_def crlf_def)
  ultimately have "parse_chunked_body s = (Chunk_done, ?s1\<lparr>m_buffer := rest, m_chunk_state := Chunks_done\<rparr>)"
    by (simp only: parse_chunked_body_step parse_chunked_body_return)
  then show ?case by simp
next
  case (Cons c cs)
  let ?tail = "encode_chunks cs @ rest"
  let ?s1 = "s\<lparr>m_buffer := c @ crlf @ ?tail, m_chunk_bytes_remaining := length c, m_chunk_state := ReadData\<rparr>"
  let ?resp = "(m_current_response s)\<lparr>body := body (m_current_response s) @ c\<rparr>"
  let ?s2 = "?s1\<lparr>m_current_response := ?resp, m_buffer := crlf @ ?tail, m_chunk_state := ReadDataCRLF\<rparr>"
  let ?s3 = "?s2\<lparr>m_buffer := ?tail, m_chunk_state := ReadSizeLine, m_chunk_bytes_remaining := 0\<rparr>"
  have "m_buffer s = to_hex (length c) @ crlf @ c @ crlf @ ?tail"
    using Cons.prems(2) by (simp add: encode_chunks_def encode_chunk_def)
  then have "chunk_step s = Inl ?s1"
    using chunk_step_size_line [OF Cons.prems(1)] Cons.prems(3) by simp
  moreover have "chunk_step ?s1 = Inl ?s2" by (simp add: chunk_step_def)
  moreover have "chunk_step ?s2 = Inl ?s3" by (simp add: chunk_step_def crlf_def)
  ultimately have run: "parse_chunked_body s = parse_chunked_body ?s3" by (simp only: parse_chunked_body_step)
  have "\<exists>s'. parse_chunked_body ?s3 = (Chunk_done, s') \<and> m_buffer s' = rest \<and>
     m_current_response s' = (m_current_response ?s3)\<lparr>body := body (m_current_response ?s3) @ concat cs\<rparr>"
    by (rule Cons.IH) (use Cons.prems(3) in simp_all)
  then show ?case unfolding run by simp
qed

datatype http_body = Plain string | Chunked "string list"

fun body_text :: "http_body \<Rightarrow> string" where
  "body_text (Plain b) = b"
| "body_text (Chunked cs) = concat cs"

fun body_wire :: "http_body \<Rightarrow> string" where
  "body_wire (Plain b) = b"
| "body_wire (Chunked cs) = encode_chunks cs"

text \<open>
  A header block and a body that fit together: the block does not contain its own end, its
  headers parse, and they announce the body that follows.
\<close>

fun announces :: "HttpsClientResponseParser \<Rightarrow> http_body \<Rightarrow> bool" where
  "announces s (Plain b) \<longleftrightarrow> \<not> m_is_chunked s \<and> m_content_length s = int (length b) \<and> length b < SIZE_MOD"
| "announces s (Chunked cs) \<longleftrightarrow> m_is_chunked s \<and> (\<forall>c \<in> set cs. c \<noteq> [] \<and> length c < SIZE_MOD)"

definition well_formed :: "string \<times> http_body \<Rightarrow> bool" where
  "well_formed x = (case x of (hb, b) \<Rightarrow>
     find_sub crlf2 (hb @ crlf2) = Some (length hb) \<and>
     (case parse_header new_response_parser hb of
        Inr (True, s) \<Rightarrow> announces s b
      | _ \<Rightarrow> False))"

definition response_of :: "string \<times> http_body \<Rightarrow> HttpsClientResponse" where
  "response_of x = (case x of (hb, b) \<Rightarrow>
     (case parse_header new_response_parser hb of
        Inr (_, s) \<Rightarrow> (m_current_response s)\<lparr>body := body_text b, is_complete := True\<rparr>
      | Inl _ \<Rightarrow> reset_response))"

definition response_wire :: "string \<times> http_body \<Rightarrow> string" where
  "response_wire x = (case x of (hb, b) \<Rightarrow> hb @ crlf2 @ body_wire b)"

lemma parse_header_line_keeps:
  assumes "parse_header_line s l = Inr s'"
  shows "m_buffer s' = m_buffer s \<and> m_header_parsed s' = m_header_parsed s \<and>
    m_chunk_state s' = m_chunk_state s \<and> body (m_current_response s') = body (m_current_response s)"
  using assms by (auto simp: parse_header_line_def Let_def split: option.splits if_splits)

lemma parse_header_keeps:
  assumes "parse_header s hb = Inr (ok, s')"
  shows "m_buffer s' = m_buffer s \<and> m_header_parsed s' = m_header_parsed s \<and>
    m_chunk_state s' = m_chunk_state s \<and> body (m_current_response s') = body (m_current_response s)"
proof -
  have lines: "sum_fold parse_header_line s1 ls = Inr s2 \<Longrightarrow>
    m_buffer s2 = m_buffer s1 \<and> m_header_parsed s2 = m_header_parsed s1 \<and>
    m_chunk_state s2 = m_chunk_state s1 \<and> body (m_current_response s2) = body (m_current_response s1)" for s1 s2 ls
    by (induction ls arbitrary: s1) (auto dest!: parse_header_line_keeps)
  have status: "body (parse_status_line l r) = body r" for l r
    by (auto simp: parse_status_line_def Let_def split: option.split)
  from assms show ?thesis
    by (auto simp: parse_header_def Let_def status split: list.splits dest!: lines)
qed

lemma reset_after: "m_buffer s = rest \<Longrightarrow> reset_state s = append_data new_response_parser rest"
  by (cases s) (simp add: reset_state_def append_data_def new_response_parser_def)

lemma parse_turn_well_formed:
  assumes "well_formed x"
  shows "parse_turn (append_data new_response_parser (response_wire x @ rest))
           = Emit (response_of x) (append_data new_response_parser rest)"
proof -
  obtain hb b where x: "x = (hb, b)" by (cases x)
  obtain s1 where ph: "parse_header new_response_parser hb = Inr (True, s1)"
    and ann: "announces s1 b" and block: "find_sub crlf2 (hb @ crlf2) = Some (length hb)"
    using assms by (auto simp: well_formed_def x split: sum.splits bool.splits)
  let ?s = "append_data new_response_parser (response_wire x @ rest)"
  let ?s2 = "after_header (length hb) (s1\<lparr>m_buffer := response_wire x @ rest\<rparr>)"
  have new: "m_buffer new_response_parser = []" "\<not> m_header_parsed new_response_parser"
    "m_chunk_state new_response_parser = ReadSizeLine" "body (m_current_response new_response_parser) = []"
    by (simp_all add: new_response_parser_def reset_response_def)
  have "find_sub crlf2 (m_buffer ?s) = Some (length hb)"
    using find_sub_append [OF block, of "body_wire b @ rest"] by (simp add: response_wire_def x new)
  then have turn: "parse_turn ?s = header_turn ?s2"
    using parse_turn_header [of ?s "length hb"] parse_header_append [of new_response_parser _ hb] ph
    by (simp add: response_wire_def x new)
  have keeps: "m_chunk_state ?s2 = ReadSizeLine" "body (m_current_response ?s2) = []"
    "m_buffer ?s2 = body_wire b @ rest" "m_is_chunked ?s2 = m_is_chunked s1"
    "m_content_length ?s2 = m_content_length s1" "m_current_response ?s2 = m_current_response s1"
    using parse_header_keeps [OF ph] new by (simp_all add: after_header_def response_wire_def x crlf2_def)
  have resp: "response_of x = (m_current_response s1)\<lparr>body := body_text b, is_complete := True\<rparr>"
    by (simp add: response_of_def x ph)
  show ?thesis
  proof (cases b)
    case (Chunked cs)
    then obtain s' where s': "parse_chunked_body ?s2 = (Chunk_done, s')" "m_buffer s' = rest"
      "m_current_response s' = (m_current_response s1)\<lparr>body := concat cs\<rparr>"
      using decode_chunks [of ?s2 cs rest] keeps ann by auto
    have "m_is_chunked s1" using ann Chunked by simp
    then have "parse_turn ?s = emit s'"
      using turn keeps s'(1) by (simp add: header_turn_def body_turn_def)
    then show ?thesis using s' resp Chunked reset_after [OF s'(2)] by (simp add: emit_def)
  next
    case (Plain bt)
    have len: "nat (int (length bt) mod int SIZE_MOD) = length bt"
      using ann Plain by (metis announces.simps(1) mod_less nat_int zmod_int)
    let ?s3 = "?s2\<lparr>m_current_response := (m_current_response s1)\<lparr>body := bt\<rparr>, m_buffer := rest\<rparr>"
    have "header_turn ?s2 = emit ?s3"
    proof (cases "bt = []")
      case True
      have "(m_current_response s1)\<lparr>body := bt\<rparr> = m_current_response s1"
        using True keeps by (cases "m_current_response s1") simp
      then have same: "?s3 = ?s2" using True Plain keeps by (cases s1) (simp add: after_header_def)
      have "header_turn ?s2 = emit ?s2" using True Plain ann keeps by (simp add: header_turn_def)
      then show ?thesis by (simp only: same)
    next
      case False
      then show ?thesis using Plain ann keeps len
        by (simp add: header_turn_def body_turn_def Let_def)
    qed
    then show ?thesis using turn resp Plain reset_after [of ?s3 rest] by (simp add: emit_def)
  qed
qed

lemma parse_run_well_formed:
  assumes "\<forall>x \<in> set xs. well_formed x"
  shows "parse_run (append_data new_response_parser (concat (map response_wire xs)))
           = (map response_of xs, Wait new_response_parser)"
  using assms
proof (induction xs)
  case Nil
  show ?case by (simp add: new_waits)
next
  case (Cons x xs)
  then have "parse_turn (append_data new_response_parser (response_wire x @ concat (map response_wire xs)))
      = Emit (response_of x) (append_data new_response_parser (concat (map response_wire xs)))"
    by (intro parse_turn_well_formed) simp
  with Cons show ?case by (simp add: parse_run_Emit)
qed

section \<open>Two responses\<close>

definition demo_header :: string where
  "demo_header = ''HTTP/1.1 200 OK'' @ crlf @ ''content-length: 2''"

definition demo_chunked_header :: string where
  "demo_chunked_header = ''HTTP/1.1 404 Not Found'' @ crlf @ ''Transfer-Encoding: gzip, Chunked''"

lemmas parse_header_eval = crlf_def crlf2_def parse_header_def parse_header_line_def parse_status_line_def
  strip_cr_def trim_def is_blank_def cpp_isspace_def scan_int_def digits_value_def cpp_isdigit_def
  digit_value_def Let_def INT_MIN_def INT_MAX_def strcasecmp_eq_def c_str_def cpp_tolower_def stoi_def
  to_lower_def new_response_parser_def reset_response_def

lemma demo_header_parses:
  "parse_header new_response_parser demo_header =
     Inr (True, new_response_parser\<lparr>m_content_length := 2, m_current_response :=
       reset_response\<lparr>status_code := 200, status_message := ''OK'',
         headers := [''content-length'' \<mapsto> ''2'']\<rparr>\<rparr>)"
  by (simp add: demo_header_def parse_header_eval) code_simp

lemma demo_chunked_header_parses:
  "parse_header new_response_parser demo_chunked_header =
     Inr (True, new_response_parser\<lparr>m_is_chunked := True, m_current_response :=
       reset_response\<lparr>status_code := 404, status_message := ''Not Found'',
         headers := [''Transfer-Encoding'' \<mapsto> ''gzip, Chunked'']\<rparr>\<rparr>)"
  by (simp add: demo_chunked_header_def parse_header_eval) code_simp

lemma demo_well_formed:
  "well_formed (demo_header, Plain ''hi'')"
  "well_formed (demo_chunked_header, Chunked [''hel'', ''lo''])"
proof -
  have "find_sub crlf2 (demo_header @ crlf2) = Some (length demo_header)"
    "find_sub crlf2 (demo_chunked_header @ crlf2) = Some (length demo_chunked_header)"
    by (simp_all add: demo_header_def demo_chunked_header_def crlf_def crlf2_def)
  then show "well_formed (demo_header, Plain ''hi'')"
    "well_formed (demo_chunked_header, Chunked [''hel'', ''lo''])"
    by (simp_all add: well_formed_def demo_header_parses demo_chunked_header_parses new_fields SIZE_MOD_def)
qed

section \<open>Properties\<close>

text \<open>
  (C21) As long as the stream holds no malformed chunk, header block or length, the responses
  a client parser delivers, and the state it is left in, do not depend on how the stream is
  cut into the pieces that arrive: they are those of parsing the whole stream at once.
\<close>

theorem http_delivery_independent_of_fragmentation:
  assumes "parse_run (append_data new_response_parser (concat chunks)) = (rs, Wait s)"
  shows "receive_http new_response_parser chunks = Inr (rs, s) \<and>
    parse_all (append_data new_response_parser (concat chunks)) = Inr (rs, s)"
  using receive_whole [OF new_waits assms] assms by (simp_all add: parse_all_def)

theorem http_delivery_independent_of_fragmentation_witness:
  "receive_http new_response_parser [take 20 (response_wire (demo_header, Plain ''hi'')),
       drop 20 (response_wire (demo_header, Plain ''hi''))]
     = Inr ([response_of (demo_header, Plain ''hi'')], new_response_parser)"
  using http_delivery_independent_of_fragmentation
      [of "[take 20 (response_wire (demo_header, Plain ''hi'')), drop 20 (response_wire (demo_header, Plain ''hi''))]"]
    parse_run_well_formed [of "[(demo_header, Plain ''hi'')]"] demo_well_formed by simp

text \<open>
  (C22) A sequence of well-formed responses, with plain or chunked bodies, is received in any
  fragmentation as exactly those responses, in order, each with its own headers and its
  decoded body, and nothing stays in the buffer.
\<close>

theorem responses_are_received:
  assumes "\<forall>x \<in> set xs. well_formed x" and "concat chunks = concat (map response_wire xs)"
  shows "receive_http new_response_parser chunks = Inr (map response_of xs, new_response_parser)"
  using receive_whole [OF new_waits] parse_run_well_formed [OF assms(1)] assms(2) by simp

theorem responses_are_received_witness:
  "receive_http new_response_parser
     [response_wire (demo_header, Plain ''hi'') @ take 5 (response_wire (demo_chunked_header, Chunked [''hel'', ''lo''])),
      drop 5 (response_wire (demo_chunked_header, Chunked [''hel'', ''lo'']))]
     = Inr ([response_of (demo_header, Plain ''hi''), response_of (demo_chunked_header, Chunked [''hel'', ''lo''])],
            new_response_parser) \<and>
   body (response_of (demo_chunked_header, Chunked [''hel'', ''lo''])) = ''hello'' \<and>
   status_code (response_of (demo_header, Plain ''hi'')) = 200"
  using responses_are_received [of "[(demo_header, Plain ''hi''), (demo_chunked_header, Chunked [''hel'', ''lo''])]"
      "[response_wire (demo_header, Plain ''hi'') @ take 5 (response_wire (demo_chunked_header, Chunked [''hel'', ''lo''])),
        drop 5 (response_wire (demo_chunked_header, Chunked [''hel'', ''lo'']))]"] demo_well_formed
  by (simp add: response_of_def demo_header_parses demo_chunked_header_parses)

text \<open>
  Malformed input is not reported. With a negative \<^verbatim>\<open>Content-Length\<close> the parser waits for
  ever, since the length is converted to an unsigned size, and so it does when the stream starts
  with an empty header block, whatever else arrives; a \<^verbatim>\<open>Content-Length\<close> that is no number
  makes \<^verbatim>\<open>std::stoi\<close> throw out of the parser.
\<close>

theorem malformed_responses_stall_or_throw:
  "(m_header_parsed s \<longrightarrow> \<not> m_is_chunked s \<longrightarrow> INT_MIN \<le> m_content_length s \<longrightarrow>
      m_content_length s < 0 \<longrightarrow> length (m_buffer s) + length data < 2 ^ 63 \<longrightarrow>
      parse_all (append_data s data) = Inr ([], append_data s data)) \<and>
   parse_all (append_data new_response_parser (crlf2 @ data))
     = Inr ([], append_data new_response_parser (crlf2 @ data)) \<and>
   parse_all (append_data new_response_parser
       (''HTTP/1.1 200 OK'' @ crlf @ ''Content-Length: many'' @ crlf2 @ data))
     = Inl (Invalid_argument ''stoi'')"
proof (intro conjI impI)
  assume s: "m_header_parsed s" "\<not> m_is_chunked s" "INT_MIN \<le> m_content_length s"
    "m_content_length s < 0" "length (m_buffer s) + length data < 2 ^ 63"
  define n where "n = m_content_length s"
  have "(n + 2 ^ 64) mod 2 ^ 64 = n + 2 ^ 64"
    using s(3, 4) by (intro mod_pos_pos_trivial) (auto simp: INT_MIN_def n_def)
  then have "n mod int SIZE_MOD = n + 2 ^ 64" by (simp add: SIZE_MOD_def)
  then have "2 ^ 63 \<le> nat (n mod int SIZE_MOD)" using s(3) by (simp add: INT_MIN_def n_def)
  then have "length (m_buffer s) + length data < nat (m_content_length s mod int SIZE_MOD)"
    using s(5) unfolding n_def by linarith
  with s(1, 2) have "parse_turn (append_data s data) = Wait (append_data s data)"
    by (simp add: parse_turn_def body_turn_def)
  then show "parse_all (append_data s data) = Inr ([], append_data s data)"
    by (simp add: parse_all_def parse_run_stop)
next
  have "find_sub crlf2 (crlf2 @ data) = Some 0" by (simp add: crlf2_def)
  then have "parse_turn (append_data new_response_parser (crlf2 @ data))
      = Bad_header (append_data new_response_parser (crlf2 @ data))"
    by (simp add: parse_turn_def new_fields parse_header_def)
  then show "parse_all (append_data new_response_parser (crlf2 @ data))
           = Inr ([], append_data new_response_parser (crlf2 @ data))"
    by (simp add: parse_all_def parse_run_stop)
next
  let ?hb = "''HTTP/1.1 200 OK'' @ crlf @ ''Content-Length: many''"
  have "find_sub crlf2 (?hb @ crlf2) = Some (length ?hb)" by (simp add: crlf_def crlf2_def)
  then have "find_sub crlf2 (?hb @ crlf2 @ data) = Some (length ?hb)"
    using find_sub_append [of crlf2 "?hb @ crlf2" "length ?hb" data] by simp
  moreover have "parse_header new_response_parser ?hb = Inl (Invalid_argument ''stoi'')"
    by (simp add: parse_header_eval)
  ultimately have "parse_turn (append_data new_response_parser (?hb @ crlf2 @ data))
      = Throws (Invalid_argument ''stoi'')"
    using parse_turn_header [of "append_data new_response_parser (?hb @ crlf2 @ data)" "length ?hb"]
    by (simp add: new_fields parse_header_append)
  then show "parse_all (append_data new_response_parser
             (''HTTP/1.1 200 OK'' @ crlf @ ''Content-Length: many'' @ crlf2 @ data))
           = Inl (Invalid_argument ''stoi'')"
    by (simp add: parse_all_def parse_run_stop)
qed

theorem malformed_responses_stall_or_throw_witness:
  "parse_all (append_data (new_response_parser\<lparr>m_header_parsed := True, m_content_length := -1\<rparr>) ''data'')
     = Inr ([], append_data (new_response_parser\<lparr>m_header_parsed := True, m_content_length := -1\<rparr>) ''data'')"
  using malformed_responses_stall_or_throw
      [of "new_response_parser\<lparr>m_header_parsed := True, m_content_length := -1\<rparr>" "''data''"]
  by (simp add: new_fields INT_MIN_def)

end
