(* ===== verification/HTTP_Requests.thy ===== *)
theory HTTP_Requests
  imports HTTP_Client
begin

text \<open>
  The client that sends requests and hands out their responses
  (\<^verbatim>\<open>https_client_request\<close>, \<^verbatim>\<open>https_client_request_builder\<close>). Each request that waits for its
  response is a number, in the order of sending; completions are recorded in order. A turn of
  the coroutine \<^verbatim>\<open>wait_for_tcp_data\<close> is \<open>on_data\<close>; an exception there terminates the process.
\<close>

section \<open>Request builder\<close>

text \<open>\<^verbatim>\<open>char buf[204800]\<close>, filled by unchecked \<^verbatim>\<open>memcpy\<close>.\<close>

definition BUILDER_CAPACITY :: nat where
  "BUILDER_CAPACITY = 204800"

definition builder_append :: "string \<Rightarrow> string \<Rightarrow> cpp_error + string" where
  "builder_append buf s =
     (if BUILDER_CAPACITY < length buf + length s then Inl UB_out_of_bounds else Inr (buf @ s))"

definition request_parts :: "string \<Rightarrow> string list \<Rightarrow> string \<Rightarrow> string \<Rightarrow> string \<Rightarrow> string list" where
  "request_parts hostname custom_headers method path content =
     [method, '' '', path, '' HTTP/1.1'' @ crlf, ''Host: '', hostname, crlf,
      ''Connection: keep-alive'' @ crlf, ''User-Agent: Tam C++ Trading Engine'' @ crlf,
      ''Accept: */*'' @ crlf] @
     (if content \<noteq> []
      then [''Content-Length: '' @ size_to_string (length content) @ crlf,
            ''Content-Type: application/json'' @ crlf]
      else []) @
     custom_headers @ [crlf] @ (if content \<noteq> [] then [content] else [])"

definition build_request :: "string \<Rightarrow> string list \<Rightarrow> string \<Rightarrow> string \<Rightarrow> string \<Rightarrow> cpp_error + string" where
  "build_request hostname custom_headers method path content =
     sum_fold builder_append [] (request_parts hostname custom_headers method path content)"

section \<open>Requests and responses\<close>

record HttpsClientRequest =
  m_hostname :: string
  m_custom_headers :: "string list"
  is_disconnected :: bool
  m_response_parser :: HttpsClientResponseParser
  m_response_futures :: "nat list"
  sent_requests :: nat
  completed :: "(nat \<times> HttpsClientResponse) list"
  written :: "string list"


definition add_header :: "HttpsClientRequest \<Rightarrow> string \<Rightarrow> string \<Rightarrow> HttpsClientRequest" where
  "add_header s key value = s\<lparr>m_custom_headers := m_custom_headers s @ [key @ '': '' @ value @ crlf]\<rparr>"

definition send_request ::
  "HttpsClientRequest \<Rightarrow> string \<Rightarrow> string \<Rightarrow> string \<Rightarrow> cpp_error + HttpsClientRequest" where
  "send_request s method path content =
     (let k = sent_requests s; s = s\<lparr>sent_requests := Suc k\<rparr>
      in if is_disconnected s then Inr (s\<lparr>completed := completed s @ [(k, create_error_response)]\<rparr>)
         else sum_bind (build_request (m_hostname s) (m_custom_headers s) method path content)
                (\<lambda>req. Inr (s\<lparr>written := written s @ [req],
                              m_response_futures := m_response_futures s @ [k]\<rparr>)))"

definition complete_one :: "HttpsClientRequest \<Rightarrow> HttpsClientResponse \<Rightarrow> HttpsClientRequest" where
  "complete_one s resp =
     (case m_response_futures s of
        [] \<Rightarrow> s
      | k # ks \<Rightarrow> s\<lparr>completed := completed s @ [(k, resp)], m_response_futures := ks\<rparr>)"






section \<open>Lemmas\<close>

lemma build_request_eq:
  "build_request hostname hs method path content =
     (let req = concat (request_parts hostname hs method path content)
      in if length req \<le> BUILDER_CAPACITY then Inr req else Inl UB_out_of_bounds)"
proof -
  have "sum_fold builder_append buf parts =
      (if length (buf @ concat parts) \<le> BUILDER_CAPACITY then Inr (buf @ concat parts) else Inl UB_out_of_bounds)"
    if "length buf \<le> BUILDER_CAPACITY" for buf parts
    using that
  proof (induction parts arbitrary: buf)
    case (Cons p parts)
    show ?case
    proof (cases "length (buf @ p) \<le> BUILDER_CAPACITY")
      case True
      with Cons.IH [of "buf @ p"] show ?thesis by (simp add: builder_append_def)
    next
      case False
      then show ?thesis by (simp add: builder_append_def)
    qed
  qed simp
  from this [of "[]"] show ?thesis by (simp add: build_request_def Let_def)
qed







lemma foldl_complete_parser:
  "m_response_parser (foldl complete_one s rs) = m_response_parser s"
  by (induction rs arbitrary: s) (auto simp: complete_one_def split: list.split)



section \<open>Properties\<close>



text \<open>
  A request that fits the 204800-byte buffer is written as its request line, headers and
  body in order; a longer one overruns the buffer.
\<close>

lemma request_is_written_or_overruns:
  assumes "\<not> is_disconnected s"
    and "req = concat (request_parts (m_hostname s) (m_custom_headers s) method path content)"
  shows "(length req \<le> BUILDER_CAPACITY \<longrightarrow>
      send_request s method path content =
        Inr (s\<lparr>sent_requests := Suc (sent_requests s), written := written s @ [req],
               m_response_futures := m_response_futures s @ [sent_requests s]\<rparr>)) \<and>
    (BUILDER_CAPACITY < length req \<longrightarrow> send_request s method path content = Inl UB_out_of_bounds)"
  using assms by (simp_all add: send_request_def build_request_eq Let_def)

end
