(* ===== verification/Object_Pools.thy ===== *)
theory Object_Pools
  imports Prelude "HOL-Library.Multiset"
begin

text \<open>
  The object pools of \<^verbatim>\<open>src/core/cache\<close>: \<^verbatim>\<open>SingleThreadCachePool\<close>, \<^verbatim>\<open>CachePool\<close> and
  \<^verbatim>\<open>SharedCachePool\<close>. Objects are numbered by their position in the pool's array. All three
  keep the free objects in a ring of pointers; what they rely on is stated once, as the
  locale \<open>free_ring\<close>, and interpreted for each of them: for \<^verbatim>\<open>SingleThreadCachePool\<close>
  (\<^verbatim>\<open>single_thread_cache_pool.h\<close>) here, for the others in \<open>Cache_Pool\<close> and \<open>Shared_Cache_Pool\<close>.
\<close>

section \<open>Rings of free objects\<close>

text \<open>
  The pointers at the positions from \<open>head\<close> on, \<open>n\<close> of them, in a ring of size
  \<open>length slots\<close>.
\<close>

definition ring_contents :: "nat list \<Rightarrow> nat \<Rightarrow> nat \<Rightarrow> nat list" where
  "ring_contents slots head n = map (\<lambda>i. slots ! ((head + i) mod length slots)) [0..<n]"

lemma ring_contents_pop:
  assumes "0 < n"
  shows "ring_contents slots head n
           = slots ! (head mod length slots) # ring_contents slots (Suc head mod length slots) (n - 1)"
proof -
  have "[0..<n] = 0 # map Suc [0..<n - 1]"
    using assms by (simp add: upt_conv_Cons map_Suc_upt)
  then show ?thesis by (simp add: ring_contents_def mod_simps comp_def)
qed

lemma ring_contents_push:
  assumes "n < length slots" and "head < length slots"
  shows "ring_contents (slots[(head + n) mod length slots := x]) head (Suc n)
           = ring_contents slots head n @ [x]"
proof -
  have "(head + n) mod length slots \<noteq> (head + i) mod length slots" if "i < n" for i
  proof
    assume "(head + n) mod length slots = (head + i) mod length slots"
    then have "length slots dvd (head + n) - (head + i)"
      using that by (metis mod_eq_dvd_iff_nat add_le_cancel_left less_imp_le)
    then have "length slots dvd n - i" by simp
    with that assms(1) show False by (auto dest: dvd_imp_le)
  qed
  moreover have "(head + n) mod length slots < length slots"
    using assms(2) by (metis mod_less_divisor not_gr_zero not_less_zero)
  ultimately show ?thesis by (auto simp: ring_contents_def nth_list_update)
qed

text \<open>A history of a pool: its state and the objects its clients hold.\<close>

inductive pool_run ::
  "('s \<Rightarrow> (nat \<times> 's) option) \<Rightarrow> ('s \<Rightarrow> nat \<Rightarrow> 's) \<Rightarrow> 's \<Rightarrow> 's \<times> nat multiset \<Rightarrow> bool"
  for take_one put_one s0 where
  start: "pool_run take_one put_one s0 (s0, {#})"
| takes: "pool_run take_one put_one s0 (s, held) \<Longrightarrow> take_one s = Some (x, s') \<Longrightarrow>
    pool_run take_one put_one s0 (s', add_mset x held)"
| puts: "pool_run take_one put_one s0 (s, held) \<Longrightarrow> x \<in># held \<Longrightarrow>
    pool_run take_one put_one s0 (put_one s x, held - {#x#})"

text \<open>
  What a pool promises its clients. \<open>take_one\<close> removes the oldest free object, \<open>put_one\<close> returns
  one that is not free, \<open>free_of\<close> lists the free objects, \<open>ring_inv\<close> is the invariant of the
  implementation.
\<close>

locale free_ring =
  fixes ring_inv :: "'s \<Rightarrow> bool"
    and free_of :: "'s \<Rightarrow> nat list"
    and capacity :: "'s \<Rightarrow> nat"
    and take_one :: "'s \<Rightarrow> (nat \<times> 's) option"
    and put_one :: "'s \<Rightarrow> nat \<Rightarrow> 's"
  assumes take_none: "ring_inv s \<Longrightarrow> take_one s = None \<longleftrightarrow> free_of s = []"
    and take_some: "ring_inv s \<Longrightarrow> take_one s = Some (x, s') \<Longrightarrow>
      ring_inv s' \<and> free_of s = x # free_of s' \<and> capacity s' = capacity s"
    and put: "ring_inv s \<Longrightarrow> length (free_of s) < capacity s \<Longrightarrow> x < capacity s \<Longrightarrow>
      x \<notin> set (free_of s) \<Longrightarrow>
      ring_inv (put_one s x) \<and> free_of (put_one s x) = free_of s @ [x] \<and> capacity (put_one s x) = capacity s"
begin

lemma pool_run_conserves:
  assumes "ring_inv s0" and "free_of s0 = [0..<capacity s0]" and "pool_run take_one put_one s0 (s, held)"
  shows "ring_inv s \<and> capacity s = capacity s0 \<and> mset (free_of s) + held = mset_set {0..<capacity s0}"
  using assms(3)
proof (induction "(s, held)" arbitrary: s held)
  case start
  then show ?case using assms(1, 2) by simp
next
  case (takes s held x s')
  then show ?case using take_some [of s x s'] by auto
next
  case (puts s held x)
  then have IH: "ring_inv s" "capacity s = capacity s0"
    "mset (free_of s) + held = mset_set {0..<capacity s0}" by auto
  have le: "count (mset (free_of s)) x + count held x \<le> 1"
    using arg_cong [OF IH(3), of "\<lambda>m. count m x"] by (simp add: count_mset_set')
  have "x \<in># mset_set {0..<capacity s0}" using IH(3) puts by (metis union_iff)
  then have "x < capacity s" using IH(2) by simp
  moreover have "x \<notin> set (free_of s)"
  proof
    assume "x \<in> set (free_of s)"
    then have "1 \<le> count (mset (free_of s)) x" "1 \<le> count held x" using puts by (auto simp: Suc_le_eq)
    with le show False by simp
  qed
  moreover have "length (free_of s) < capacity s"
  proof -
    have "length (free_of s) + size held = capacity s0"
      using arg_cong [OF IH(3), of size] by simp
    moreover have "0 < size held" using puts by (cases held) auto
    ultimately show ?thesis using IH(2) by simp
  qed
  ultimately show ?case using put [of s x] IH puts by (auto simp: multiset_eq_iff)
qed

text \<open>No object is held twice, and none is both free and held; none is lost.\<close>

lemma no_double_hand_out:
  assumes "ring_inv s0" and "free_of s0 = [0..<capacity s0]" and "pool_run take_one put_one s0 (s, held)"
  shows "distinct (free_of s) \<and> (\<forall>x. count held x \<le> 1) \<and> set (free_of s) \<inter> set_mset held = {} \<and>
    set (free_of s) \<union> set_mset held = {0..<capacity s0}"
proof -
  have eq: "mset (free_of s) + held = mset_set {0..<capacity s0}"
    using pool_run_conserves [OF assms] by simp
  have le: "count (mset (free_of s)) x + count held x \<le> 1" for x
    using arg_cong [OF eq, of "\<lambda>m. count m x"] by (simp add: count_mset_set')
  have "count (mset (free_of s)) x = (if x \<in> set (free_of s) then 1 else 0)" for x
  proof (cases "x \<in> set (free_of s)")
    case True
    then have "0 < count (mset (free_of s)) x" by simp
    then have "count (mset (free_of s)) x = 1" using le [of x] by linarith
    with True show ?thesis by simp
  qed (simp add: count_mset_0_iff)
  then have "distinct (free_of s)" by (simp add: distinct_count_atmost_1)
  moreover have "count held x \<le> 1" for x using le [of x] by simp
  moreover have "set (free_of s) \<inter> set_mset held = {}"
  proof (rule ccontr)
    assume "set (free_of s) \<inter> set_mset held \<noteq> {}"
    then obtain x where "x \<in> set (free_of s)" "x \<in># held" by auto
    then have "1 \<le> count (mset (free_of s)) x" "1 \<le> count held x" by (auto simp: Suc_le_eq)
    with le [of x] show False by simp
  qed
  moreover have "set (free_of s) \<union> set_mset held = {0..<capacity s0}"
    using arg_cong [OF eq, of set_mset] by simp
  ultimately show ?thesis by blast
qed

text \<open>An acquisition fails only when every object is held.\<close>

lemma exhausted_iff_all_held:
  assumes "ring_inv s0" and "free_of s0 = [0..<capacity s0]" and "pool_run take_one put_one s0 (s, held)"
  shows "take_one s = None \<longleftrightarrow> size held = capacity s0"
proof -
  note c = pool_run_conserves [OF assms]
  have "length (free_of s) + size held = capacity s0"
    using arg_cong [of _ _ size, OF conjunct2 [OF conjunct2 [OF c]]] by simp
  then show ?thesis using take_none [of s] c by auto
qed

end

section \<open>SingleThreadCachePool\<close>

text \<open>
  \<open>'a\<close> is the type of the pooled values; \<open>init\<close> and \<open>refresh\<close> are its methods of these names,
  the identity for a type without them. An object pointer is the index of the object, \<open>None\<close>
  the null pointer; releasing a pointer that is not into the pool's array is reported as
  undefined behaviour.
\<close>

record 'a pool_object =
  obj_value :: 'a
  obj_index :: nat
  use_time :: u64
  active :: bool

record pool_id =
  id_index :: nat
  id_use_time :: u64

record 'a SingleThreadCachePool =
  pool_name :: string
  m_objects :: "'a pool_object list"
  m_free_objects :: "nat list"
  m_head :: nat
  m_tail :: nat
  m_free_count :: nat

definition new_single_pool :: "string \<Rightarrow> nat \<Rightarrow> 'a \<Rightarrow> 'a SingleThreadCachePool" where
  "new_single_pool nm n v =
     \<lparr>pool_name = nm,
      m_objects = map (\<lambda>i. \<lparr>obj_value = v, obj_index = i, use_time = 0, active = False\<rparr>) [0..<n],
      m_free_objects = [0..<n], m_head = 0, m_tail = 0, m_free_count = n\<rparr>"

definition POOL_SIZE :: "'a SingleThreadCachePool \<Rightarrow> nat" where
  "POOL_SIZE s = length (m_objects s)"

definition get_id :: "'a pool_object \<Rightarrow> pool_id" where
  "get_id obj = \<lparr>id_index = obj_index obj, id_use_time = use_time obj\<rparr>"

definition single_acquire ::
  "('a \<Rightarrow> 'a) \<Rightarrow> 'a SingleThreadCachePool \<Rightarrow> cpp_error + nat \<times> 'a SingleThreadCachePool" where
  "single_acquire init s =
     (if m_free_count s = 0
      then Inl (Runtime_error (''SingleThreadCachePool<'' @ pool_name s @ ''> - [acquire] No available items in cache pool''))
      else
        let i = m_free_objects s ! m_head s;
            head = m_head s + 1;
            head = (if POOL_SIZE s \<le> head then 0 else head);
            obj = m_objects s ! i;
            obj = obj\<lparr>active := True, use_time := use_time obj + 1, obj_value := init (obj_value obj)\<rparr>
        in Inr (i, s\<lparr>m_head := head, m_free_count := m_free_count s - 1,
                     m_objects := (m_objects s)[i := obj]\<rparr>))"

definition single_release ::
  "('a \<Rightarrow> 'a) \<Rightarrow> 'a SingleThreadCachePool \<Rightarrow> nat option \<Rightarrow> cpp_error + 'a SingleThreadCachePool" where
  "single_release refresh s p =
     (case p of
        None \<Rightarrow> Inl (Runtime_error (''SingleThreadCachePool<'' @ pool_name s @ ''> - [release] Attempting to release a nullptr object''))
      | Some i \<Rightarrow>
          if POOL_SIZE s \<le> i then Inl UB_out_of_bounds
          else if \<not> active (m_objects s ! i)
          then Inl (Runtime_error (''SingleThreadCachePool<'' @ pool_name s @ ''> - [release] Attempting to release an inactive object''))
          else
            let obj = m_objects s ! i;
                obj = obj\<lparr>active := False, obj_value := refresh (obj_value obj)\<rparr>;
                tail = m_tail s + 1
            in Inr (s\<lparr>m_objects := (m_objects s)[i := obj],
                      m_free_objects := (m_free_objects s)[m_tail s := i],
                      m_tail := (if POOL_SIZE s \<le> tail then 0 else tail),
                      m_free_count := m_free_count s + 1\<rparr>))"

definition empty :: "'a SingleThreadCachePool \<Rightarrow> bool" where
  "empty s \<longleftrightarrow> m_free_count s = 0"

definition full :: "'a SingleThreadCachePool \<Rightarrow> bool" where
  "full s \<longleftrightarrow> m_free_count s = POOL_SIZE s"

definition is_active :: "'a SingleThreadCachePool \<Rightarrow> pool_id \<Rightarrow> bool" where
  "is_active s i \<longleftrightarrow>
     (if POOL_SIZE s \<le> id_index i then False
      else let obj = m_objects s ! id_index i in active obj \<and> use_time obj = id_use_time i)"

definition available_size :: "'a SingleThreadCachePool \<Rightarrow> nat" where
  "available_size s = m_free_count s"

definition active_size :: "'a SingleThreadCachePool \<Rightarrow> nat" where
  "active_size s = POOL_SIZE s - m_free_count s"

section \<open>Correctness of SingleThreadCachePool\<close>

definition single_free :: "'a SingleThreadCachePool \<Rightarrow> nat list" where
  "single_free s = ring_contents (m_free_objects s) (m_head s) (m_free_count s)"

definition single_inv :: "'a SingleThreadCachePool \<Rightarrow> bool" where
  "single_inv s \<longleftrightarrow>
     0 < POOL_SIZE s \<and> length (m_free_objects s) = POOL_SIZE s \<and> m_head s < POOL_SIZE s \<and>
     m_free_count s \<le> POOL_SIZE s \<and> m_tail s = (m_head s + m_free_count s) mod POOL_SIZE s \<and>
     distinct (single_free s) \<and> set (single_free s) \<subseteq> {0..<POOL_SIZE s} \<and>
     (\<forall>i < POOL_SIZE s. active (m_objects s ! i) \<longleftrightarrow> i \<notin> set (single_free s)) \<and>
     (\<forall>i < POOL_SIZE s. obj_index (m_objects s ! i) = i)"

lemma length_single_free [simp]: "length (single_free s) = m_free_count s"
  by (simp add: single_free_def ring_contents_def)

lemma wrap_index: "n < m \<Longrightarrow> (if m \<le> n + 1 then 0 else n + 1) = Suc n mod m"
  by (cases "m = Suc n") auto

lemma new_single_pool_inv:
  assumes "0 < n"
  shows "single_inv (new_single_pool nm n v)" and "single_free (new_single_pool nm n v) = [0..<n]"
    and "POOL_SIZE (new_single_pool nm n v) = n"
proof -
  have free: "single_free (new_single_pool nm n v) = [0..<n]"
    using assms by (intro nth_equalityI) (auto simp: new_single_pool_def single_free_def ring_contents_def)
  then show "single_free (new_single_pool nm n v) = [0..<n]" .
  show "single_inv (new_single_pool nm n v)"
    using assms by (simp add: single_inv_def free) (simp add: new_single_pool_def POOL_SIZE_def)
  show "POOL_SIZE (new_single_pool nm n v) = n" by (simp add: new_single_pool_def POOL_SIZE_def)
qed

lemma single_acquire_spec:
  assumes "single_inv s" and "m_free_count s \<noteq> 0"
  shows "\<exists>i s'. single_acquire init s = Inr (i, s') \<and> single_inv s' \<and> single_free s = i # single_free s' \<and>
    POOL_SIZE s' = POOL_SIZE s \<and>
    m_objects s' = (m_objects s)[i := (m_objects s ! i)\<lparr>active := True,
      use_time := use_time (m_objects s ! i) + 1, obj_value := init (obj_value (m_objects s ! i))\<rparr>]"
proof -
  define i where "i = m_free_objects s ! m_head s"
  define obj where "obj = (m_objects s ! i)\<lparr>active := True,
      use_time := use_time (m_objects s ! i) + 1, obj_value := init (obj_value (m_objects s ! i))\<rparr>"
  define s' where "s' = s\<lparr>m_head := Suc (m_head s) mod POOL_SIZE s, m_free_count := m_free_count s - 1,
      m_objects := (m_objects s)[i := obj]\<rparr>"
  have head: "m_head s < POOL_SIZE s" and len: "length (m_free_objects s) = POOL_SIZE s"
    using assms(1) by (auto simp: single_inv_def)
  have acq: "single_acquire init s = Inr (i, s')"
    using assms(2) wrap_index [OF head]
    by (simp add: single_acquire_def Let_def i_def obj_def s'_def del: One_nat_def)
  have size: "POOL_SIZE s' = POOL_SIZE s" by (simp add: s'_def POOL_SIZE_def)
  have free: "single_free s = i # single_free s'"
    using ring_contents_pop [of "m_free_count s" "m_free_objects s" "m_head s"] assms(2) head len
    by (simp add: single_free_def s'_def i_def)
  have inv: "distinct (i # single_free s')" "set (i # single_free s') \<subseteq> {0..<POOL_SIZE s}"
    "\<forall>j < POOL_SIZE s. active (m_objects s ! j) \<longleftrightarrow> j \<notin> set (i # single_free s')"
    "m_tail s = (m_head s + m_free_count s) mod POOL_SIZE s"
    using assms(1) free by (simp_all add: single_inv_def)
  have tail: "m_tail s' = (m_head s' + m_free_count s') mod POOL_SIZE s'"
  proof -
    have "Suc (m_head s) + (m_free_count s - 1) = m_head s + m_free_count s" using assms(2) by simp
    then have "(Suc (m_head s) mod POOL_SIZE s + (m_free_count s - 1)) mod POOL_SIZE s
        = (m_head s + m_free_count s) mod POOL_SIZE s" by (metis mod_add_left_eq)
    moreover have "m_head s' = Suc (m_head s) mod POOL_SIZE s" "m_free_count s' = m_free_count s - 1"
      "m_tail s' = m_tail s" by (simp_all add: s'_def)
    ultimately show ?thesis using inv(4) by (simp only: size)
  qed
  have objs: "m_objects s' ! j = (if j = i then obj else m_objects s ! j)" if "j < POOL_SIZE s" for j
    using that by (simp add: s'_def nth_list_update POOL_SIZE_def)
  have "single_inv s'"
    unfolding single_inv_def size
  proof (intro conjI allI impI)
    show "m_tail s' = (m_head s' + m_free_count s') mod POOL_SIZE s" using tail size by simp
    show "distinct (single_free s')" "set (single_free s') \<subseteq> {0..<POOL_SIZE s}" using inv by auto
    fix j assume j: "j < POOL_SIZE s"
    show "active (m_objects s' ! j) \<longleftrightarrow> j \<notin> set (single_free s')"
      using inv(1, 3) j by (auto simp: objs obj_def)
    show "obj_index (m_objects s' ! j) = j"
      using assms(1) j by (auto simp: objs obj_def single_inv_def)
  qed (use assms in \<open>auto simp: single_inv_def s'_def\<close>)
  moreover have "m_objects s' = (m_objects s)[i := obj]" by (simp add: s'_def)
  ultimately show ?thesis using acq free size unfolding obj_def by blast
qed

lemma taken_is_valid:
  assumes "single_inv s" and "single_free s = i # rest"
  shows "i < POOL_SIZE s" and "i \<notin> set rest"
proof -
  have "distinct (single_free s)" and sub: "set (single_free s) \<subseteq> {0..<POOL_SIZE s}"
    using assms(1) by (simp_all add: single_inv_def)
  then show "i \<notin> set rest" using assms(2) by simp
  have "i \<in> set (single_free s)" using assms(2) by simp
  then have "i \<in> {0..<POOL_SIZE s}" using sub by blast
  then show "i < POOL_SIZE s" by simp
qed

lemma single_release_spec:
  assumes "single_inv s" and "i < POOL_SIZE s" and "i \<notin> set (single_free s)"
  shows "\<exists>s'. single_release refresh s (Some i) = Inr s' \<and> single_inv s' \<and>
    single_free s' = single_free s @ [i] \<and> POOL_SIZE s' = POOL_SIZE s \<and>
    m_objects s' = (m_objects s)[i := (m_objects s ! i)\<lparr>active := False,
      obj_value := refresh (obj_value (m_objects s ! i))\<rparr>]"
proof -
  define obj where "obj = (m_objects s ! i)\<lparr>active := False, obj_value := refresh (obj_value (m_objects s ! i))\<rparr>"
  define s' where "s' = s\<lparr>m_objects := (m_objects s)[i := obj],
      m_free_objects := (m_free_objects s)[m_tail s := i],
      m_tail := Suc (m_tail s) mod POOL_SIZE s, m_free_count := m_free_count s + 1\<rparr>"
  have len: "length (m_free_objects s) = POOL_SIZE s" and head: "m_head s < POOL_SIZE s"
    and t: "m_tail s = (m_head s + m_free_count s) mod POOL_SIZE s" and pos: "0 < POOL_SIZE s"
    and free: "distinct (single_free s)" "set (single_free s) \<subseteq> {0..<POOL_SIZE s}"
    and act: "\<forall>j < POOL_SIZE s. active (m_objects s ! j) \<longleftrightarrow> j \<notin> set (single_free s)"
    using assms(1) by (auto simp: single_inv_def)
  have tail: "m_tail s < POOL_SIZE s" using t pos by simp
  have rel: "single_release refresh s (Some i) = Inr s'"
    using act assms(2, 3) wrap_index [OF tail]
    by (simp add: single_release_def Let_def obj_def s'_def del: One_nat_def)
  have size: "POOL_SIZE s' = POOL_SIZE s" by (simp add: s'_def POOL_SIZE_def)
  have room: "m_free_count s < POOL_SIZE s"
  proof -
    have "set (single_free s) \<subseteq> {0..<POOL_SIZE s} - {i}" using free(2) assms(3) by auto
    then have "card (set (single_free s)) \<le> card ({0..<POOL_SIZE s} - {i})" by (intro card_mono) auto
    moreover have "card (set (single_free s)) = m_free_count s" using distinct_card [OF free(1)] by simp
    ultimately show ?thesis using assms(2) by simp
  qed
  have contents: "single_free s' = single_free s @ [i]"
    using ring_contents_push [of "m_free_count s" "m_free_objects s" "m_head s" i] room len head t
    by (simp add: single_free_def s'_def)
  have objs: "m_objects s' ! j = (if j = i then obj else m_objects s ! j)" if "j < POOL_SIZE s" for j
    using that by (simp add: s'_def nth_list_update POOL_SIZE_def)
  have "single_inv s'"
    unfolding single_inv_def size
  proof (intro conjI allI impI)
    show "m_tail s' = (m_head s' + m_free_count s') mod POOL_SIZE s"
      using t by (simp add: s'_def mod_Suc_eq)
    show "distinct (single_free s')" "set (single_free s') \<subseteq> {0..<POOL_SIZE s}"
      using contents free assms(2, 3) by auto
    fix j assume j: "j < POOL_SIZE s"
    show "active (m_objects s' ! j) \<longleftrightarrow> j \<notin> set (single_free s')"
      using act j by (auto simp: objs obj_def contents)
    show "obj_index (m_objects s' ! j) = j"
      using assms(1) j by (auto simp: objs obj_def single_inv_def)
  qed (use len head pos room in \<open>auto simp: s'_def\<close>)
  moreover have "m_objects s' = (m_objects s)[i := obj]" by (simp add: s'_def)
  ultimately show ?thesis using rel contents size unfolding obj_def by blast
qed

definition single_take :: "('a \<Rightarrow> 'a) \<Rightarrow> 'a SingleThreadCachePool \<Rightarrow> (nat \<times> 'a SingleThreadCachePool) option" where
  "single_take init s = (case single_acquire init s of Inl _ \<Rightarrow> None | Inr r \<Rightarrow> Some r)"

definition single_put :: "('a \<Rightarrow> 'a) \<Rightarrow> 'a SingleThreadCachePool \<Rightarrow> nat \<Rightarrow> 'a SingleThreadCachePool" where
  "single_put refresh s i = (case single_release refresh s (Some i) of Inl _ \<Rightarrow> s | Inr s' \<Rightarrow> s')"

interpretation single: free_ring single_inv single_free POOL_SIZE "single_take init" "single_put refresh"
  for init refresh
proof
  fix s :: "'a SingleThreadCachePool" and x s'
  assume inv: "single_inv s"
  show "single_take init s = None \<longleftrightarrow> single_free s = []"
  proof (cases "m_free_count s = 0")
    case True
    then show ?thesis using length_single_free [of s]
      by (simp add: single_take_def single_acquire_def del: length_single_free)
  next
    case False
    with single_acquire_spec [OF inv False, of init] show ?thesis by (auto simp: single_take_def)
  qed
  show "single_take init s = Some (x, s') \<Longrightarrow>
      single_inv s' \<and> single_free s = x # single_free s' \<and> POOL_SIZE s' = POOL_SIZE s"
    using single_acquire_spec [OF inv, of init]
    by (cases "m_free_count s = 0") (auto simp: single_take_def single_acquire_def)
  show "x < POOL_SIZE s \<Longrightarrow> x \<notin> set (single_free s) \<Longrightarrow>
      single_inv (single_put refresh s x) \<and> single_free (single_put refresh s x) = single_free s @ [x] \<and>
      POOL_SIZE (single_put refresh s x) = POOL_SIZE s"
    using single_release_spec [OF inv, of x refresh] by (auto simp: single_put_def)
qed

subsection \<open>Identifiers\<close>

datatype pool_op = Acquire | Release nat

fun single_step ::
  "('a \<Rightarrow> 'a) \<Rightarrow> ('a \<Rightarrow> 'a) \<Rightarrow> 'a SingleThreadCachePool \<Rightarrow> pool_op \<Rightarrow> cpp_error + 'a SingleThreadCachePool" where
  "single_step init refresh s Acquire = map_sum id snd (single_acquire init s)"
| "single_step init refresh s (Release i) = single_release refresh s (Some i)"

lemma single_release_ok:
  assumes "single_inv s" and "single_release refresh s (Some i) = Inr s'"
  shows "i < POOL_SIZE s" and "i \<notin> set (single_free s)"
proof -
  show "i < POOL_SIZE s" using assms(2) by (auto simp: single_release_def Let_def split: if_splits)
  moreover have "active (m_objects s ! i)" using assms(2) by (auto simp: single_release_def Let_def split: if_splits)
  ultimately show "i \<notin> set (single_free s)" using assms(1) by (auto simp: single_inv_def)
qed

text \<open>What one operation does to object \<open>i\<close>.\<close>

lemma single_step_object:
  assumes "single_inv s" and "i < POOL_SIZE s" and "single_step init refresh s e = Inr s'"
  shows "single_inv s' \<and> POOL_SIZE s' = POOL_SIZE s \<and>
    (m_objects s' ! i = m_objects s ! i \<and> e \<noteq> Release i \<or>
     e = Acquire \<and> \<not> active (m_objects s ! i) \<and> active (m_objects s' ! i) \<and>
       use_time (m_objects s' ! i) = use_time (m_objects s ! i) + 1 \<or>
     e = Release i \<and> \<not> active (m_objects s' ! i) \<and> use_time (m_objects s' ! i) = use_time (m_objects s ! i))"
proof (cases e)
  case Acquire
  have "m_free_count s \<noteq> 0"
  proof
    assume "m_free_count s = 0"
    then show False using assms(3) Acquire by (simp add: single_acquire_def)
  qed
  from single_acquire_spec [OF assms(1) this, of init] obtain j s1 where
    j: "single_acquire init s = Inr (j, s1)" "single_inv s1" "single_free s = j # single_free s1"
      "POOL_SIZE s1 = POOL_SIZE s"
      "m_objects s1 = (m_objects s)[j := (m_objects s ! j)\<lparr>active := True,
        use_time := use_time (m_objects s ! j) + 1, obj_value := init (obj_value (m_objects s ! j))\<rparr>]"
    by blast
  have "\<not> active (m_objects s ! j)" if "i = j"
    using assms(1, 2) that j(3) by (auto simp: single_inv_def)
  with j assms(2, 3) Acquire show ?thesis by (cases "i = j") (auto simp: POOL_SIZE_def)
next
  case (Release j)
  note ok = single_release_ok [OF assms(1), of refresh j s'] single_release_spec [OF assms(1), of j refresh]
  have "single_inv s' \<and> POOL_SIZE s' = POOL_SIZE s \<and>
    m_objects s' = (m_objects s)[j := (m_objects s ! j)\<lparr>active := False,
      obj_value := refresh (obj_value (m_objects s ! j))\<rparr>]"
    using ok assms(3) Release by auto
  then show ?thesis using assms(2) Release by (cases "i = j") (auto simp: POOL_SIZE_def)
qed

lemma single_run_object:
  assumes "single_inv s" and "i < POOL_SIZE s" and "sum_fold (single_step init refresh) s ops = Inr s'"
  shows "single_inv s' \<and> POOL_SIZE s' = POOL_SIZE s \<and>
    (\<exists>k \<le> length ops. use_time (m_objects s' ! i) = use_time (m_objects s ! i) + of_nat k \<and>
       (Release i \<in> set ops \<longrightarrow> 0 < k \<or> \<not> active (m_objects s' ! i)) \<and>
       (Release i \<notin> set ops \<and> active (m_objects s ! i) \<longrightarrow> k = 0 \<and> active (m_objects s' ! i)))"
  using assms(3)
proof (induction ops arbitrary: s' rule: rev_induct)
  case Nil
  then show ?case using assms(1) by simp
next
  case (snoc e ops)
  then obtain s1 where s1: "sum_fold (single_step init refresh) s ops = Inr s1"
    "single_step init refresh s1 e = Inr s'" by (auto simp: sum_fold_append)
  from snoc.IH [OF s1(1)] obtain k where k: "single_inv s1" "POOL_SIZE s1 = POOL_SIZE s" "k \<le> length ops"
    "use_time (m_objects s1 ! i) = use_time (m_objects s ! i) + of_nat k"
    "Release i \<in> set ops \<longrightarrow> 0 < k \<or> \<not> active (m_objects s1 ! i)"
    "Release i \<notin> set ops \<and> active (m_objects s ! i) \<longrightarrow> k = 0 \<and> active (m_objects s1 ! i)"
    by blast
  have i: "i < POOL_SIZE s1" using assms(2) k(2) by simp
  note step = single_step_object [OF k(1) i s1(2)]
  consider (same) "m_objects s' ! i = m_objects s1 ! i" "e \<noteq> Release i"
    | (acq) "e = Acquire" "\<not> active (m_objects s1 ! i)" "active (m_objects s' ! i)"
        "use_time (m_objects s' ! i) = use_time (m_objects s1 ! i) + 1"
    | (rel) "e = Release i" "\<not> active (m_objects s' ! i)" "use_time (m_objects s' ! i) = use_time (m_objects s1 ! i)"
    using step by blast
  then show ?case
  proof cases
    case same
    with step k show ?thesis by (intro conjI exI [of _ k]) auto
  next
    case acq
    with step k show ?thesis by (intro conjI exI [of _ "Suc k"]) auto
  next
    case rel
    with step k show ?thesis by (intro conjI exI [of _ k]) auto
  qed
qed

lemma single_pool_run:
  assumes "0 < n" and "pool_run (single_take init) (single_put refresh) (new_single_pool nm n v) (s, held)"
  shows "single_inv s" and "POOL_SIZE s = n"
    and "\<forall>x. count held x \<le> 1" and "set (single_free s) \<inter> set_mset held = {}"
    and "set (single_free s) \<union> set_mset held = {0..<n}"
    and "single_take init s = None \<longleftrightarrow> size held = n" and "available_size s + size held = n"
proof -
  note new = new_single_pool_inv [OF assms(1)]
  have free: "single_free (new_single_pool nm n v) = [0..<POOL_SIZE (new_single_pool nm n v)]"
    by (simp add: new)
  note c = single.pool_run_conserves [OF new(1) free assms(2)]
  show "single_inv s" "POOL_SIZE s = n" using c by (simp_all add: new)
  show "\<forall>x. count held x \<le> 1" "set (single_free s) \<inter> set_mset held = {}"
    "set (single_free s) \<union> set_mset held = {0..<n}"
    using single.no_double_hand_out [OF new(1) free assms(2)] by (simp_all add: new)
  show "single_take init s = None \<longleftrightarrow> size held = n"
    using single.exhausted_iff_all_held [OF new(1) free assms(2)] by (simp add: new)
  show "available_size s + size held = n"
    using arg_cong [OF conjunct2 [OF conjunct2 [OF c]], of size] by (simp add: new available_size_def)
qed

text \<open>
  (C31) In every history of acquisitions and releases of a \<^verbatim>\<open>SingleThreadCachePool\<close> no object is
  handed out twice at a time, none is lost, an acquisition throws exactly when all are held, the
  size queries count what is free and held, and releasing an object that is not held throws.
\<close>

theorem single_pool_hands_out_once:
  assumes "0 < n" and "pool_run (single_take init) (single_put refresh) (new_single_pool nm n v) (s, held)"
  shows "count held x \<le> 1 \<and> set (single_free s) \<inter> set_mset held = {} \<and>
    set (single_free s) \<union> set_mset held = {0..<n} \<and>
    ((\<exists>e. single_acquire init s = Inl e) \<longleftrightarrow> size held = n) \<and>
    available_size s + size held = n \<and> active_size s = size held \<and>
    (x < n \<longrightarrow> x \<notin># held \<longrightarrow> (\<exists>e. single_release refresh s (Some x) = Inl e))"
proof (intro conjI impI)
  note run = single_pool_run [OF assms]
  show "count held x \<le> 1" using run(3) by simp
  show "set (single_free s) \<inter> set_mset held = {}" "set (single_free s) \<union> set_mset held = {0..<n}"
    by (fact run(4), fact run(5))
  show "(\<exists>e. single_acquire init s = Inl e) \<longleftrightarrow> size held = n"
    using run(6) by (cases "single_acquire init s") (simp_all add: single_take_def)
  show "available_size s + size held = n" by (fact run(7))
  show "active_size s = size held" using run(2, 7) by (simp add: active_size_def available_size_def)
  assume x: "x < n" "x \<notin># held"
  have "x \<in> set (single_free s) \<union> set_mset held" unfolding run(5) using x(1) by simp
  then have "x \<in> set (single_free s)" using x(2) by simp
  then have "\<not> active (m_objects s ! x)" using run(1, 2) x(1) by (simp add: single_inv_def)
  then show "\<exists>e. single_release refresh s (Some x) = Inl e"
    using x(1) run(2) by (simp add: single_release_def)
qed

theorem single_pool_hands_out_once_witness:
  "\<exists>s. pool_run (single_take id) (single_put id) (new_single_pool ''p'' 2 (0 :: nat)) (s, {#0#}) \<and>
     available_size s = 1 \<and> set (single_free s) = {1} \<and> (\<exists>e. single_release id s (Some 1) = Inl e)"
proof -
  let ?s0 = "new_single_pool ''p'' 2 (0 :: nat)"
  obtain s where s: "single_take id ?s0 = Some (0, s)"
    by (simp add: single_take_def single_acquire_def new_single_pool_def Let_def)
  have "pool_run (single_take id) (single_put id) ?s0 (?s0, {#})" by (rule pool_run.start)
  then have run: "pool_run (single_take id) (single_put id) ?s0 (s, {#0#})"
    using s by (rule pool_run.takes)
  note once = single_pool_hands_out_once [OF _ run]
  have "set (single_free s) \<union> {0} = {0..<2}" "set (single_free s) \<inter> {0} = {}"
    using once by simp_all
  then have "set (single_free s) = {0..<2} - {0}" by blast
  moreover have "{0..<2} - {0} = {1 :: nat}" by auto
  ultimately have "set (single_free s) = {1}" by simp
  moreover have "available_size s = 1" using once by simp
  moreover have "\<exists>e. single_release id s (Some 1) = Inl e" using once [of 1] by simp
  ultimately show ?thesis using run by blast
qed

lemma single_acquire_takes:
  assumes "single_inv s" and "single_acquire init s = Inr (i, s1)"
  shows "single_inv s1" and "i < POOL_SIZE s1" and "active (m_objects s1 ! i)" and "obj_index (m_objects s1 ! i) = i"
proof -
  have "single_take init s = Some (i, s1)" using assms(2) by (simp add: single_take_def)
  from single.take_some [OF assms(1) this]
  have s1: "single_inv s1" and free: "single_free s = i # single_free s1" and size: "POOL_SIZE s1 = POOL_SIZE s"
    by blast+
  show "single_inv s1" by (fact s1)
  from taken_is_valid [OF assms(1) free] show i: "i < POOL_SIZE s1" by (simp add: size)
  from taken_is_valid(2) [OF assms(1) free] i s1
  show "active (m_objects s1 ! i)" and "obj_index (m_objects s1 ! i) = i"
    by (simp_all add: single_inv_def)
qed

text \<open>
  The identifier an acquisition returns is active exactly as long as the object has not
  been released: after a release it stays inactive although the object is handed out again,
  within the next \<open>2\<^sup>64\<close> operations.
\<close>

theorem id_is_active_until_release:
  assumes "single_inv s" and "single_acquire init s = Inr (i, s1)"
    and "sum_fold (single_step init refresh) s1 ops = Inr s2" and "length ops < 2 ^ 64"
  shows "is_active s2 (get_id (m_objects s1 ! i)) \<longleftrightarrow> Release i \<notin> set ops"
proof -
  note s1 = single_acquire_takes [OF assms(1, 2)]
  obtain k where
    k: "POOL_SIZE s2 = POOL_SIZE s1" "k \<le> length ops"
      "use_time (m_objects s2 ! i) = use_time (m_objects s1 ! i) + of_nat k"
      "Release i \<in> set ops \<longrightarrow> 0 < k \<or> \<not> active (m_objects s2 ! i)"
      "Release i \<notin> set ops \<and> active (m_objects s1 ! i) \<longrightarrow> k = 0 \<and> active (m_objects s2 ! i)"
    using single_run_object [OF s1(1, 2) assms(3)] by blast
  have unat: "unat (of_nat k :: u64) = k" using k(2) assms(4) by (simp add: unsigned_of_nat take_bit_nat_eq_self)
  have zero: "of_nat k = (0 :: u64) \<longleftrightarrow> k = 0"
  proof
    assume "of_nat k = (0 :: u64)"
    then have "unat (of_nat k :: u64) = 0" by simp
    with unat show "k = 0" by linarith
  qed simp
  have "is_active s2 (get_id (m_objects s1 ! i)) \<longleftrightarrow> active (m_objects s2 ! i) \<and> k = 0"
    using s1(2, 4) k(1, 3) zero by (simp add: is_active_def get_id_def Let_def)
  then show ?thesis using k(4, 5) s1(3) by auto
qed

theorem id_is_active_until_release_witness:
  "\<exists>s1 s2. single_acquire id (new_single_pool ''p'' 1 (0 :: nat)) = Inr (0, s1) \<and>
     sum_fold (single_step id id) s1 [Release 0, Acquire] = Inr s2 \<and>
     active (m_objects s2 ! 0) \<and> \<not> is_active s2 (get_id (m_objects s1 ! 0))"
proof -
  let ?s0 = "new_single_pool ''p'' 1 (0 :: nat)"
  obtain s1 where s1: "single_acquire id ?s0 = Inr (0, s1)"
    by (simp add: single_acquire_def new_single_pool_def Let_def)
  obtain s2 where s2: "sum_fold (single_step id id) s1 [Release 0, Acquire] = Inr s2" "active (m_objects s2 ! 0)"
    using s1 by (auto simp: single_acquire_def single_release_def new_single_pool_def Let_def POOL_SIZE_def)
  have "\<not> is_active s2 (get_id (m_objects s1 ! 0))"
    using id_is_active_until_release [OF new_single_pool_inv(1) s1 s2(1)] by simp
  with s1 s2 show ?thesis by blast
qed

end
