(* ===== verification/Cache_Pool.thy ===== *)
theory Cache_Pool
  imports Object_Pools
begin

text \<open>
  \<^verbatim>\<open>CachePool\<close> (\<^verbatim>\<open>src/core/cache/cache_pool.h\<close>) and the \<^verbatim>\<open>PoolBuffer\<close> ring it shares with
  \<^verbatim>\<open>SharedCachePool\<close>. The first part is the pool as one thread at a time uses it. The second
  interleaves threads inside \<^verbatim>\<open>acquire\<close> and \<^verbatim>\<open>release\<close>, one atomic operation per step and
  with sequentially consistent memory, which is stronger than the orders the code asks for.
\<close>

section \<open>PoolBuffer\<close>

record PoolBuffer =
  available_items :: "nat list"
  head :: nat
  tail :: nat
  pool_size :: u64

definition new_pool_buffer :: "nat \<Rightarrow> PoolBuffer" where
  "new_pool_buffer n = \<lparr>available_items = [0..<n], head = 0, tail = 0, pool_size = of_nat n\<rparr>"

definition buffer_capacity :: "PoolBuffer \<Rightarrow> nat" where
  "buffer_capacity b = length (available_items b)"

definition get_current_head :: "PoolBuffer \<Rightarrow> nat \<times> PoolBuffer" where
  "get_current_head b = (head b, b\<lparr>head := (head b + 1) mod buffer_capacity b\<rparr>)"

definition get_current_tail :: "PoolBuffer \<Rightarrow> nat \<times> PoolBuffer" where
  "get_current_tail b = (tail b, b\<lparr>tail := (tail b + 1) mod buffer_capacity b\<rparr>)"

definition buffer_take :: "PoolBuffer \<Rightarrow> (nat \<times> PoolBuffer) option" where
  "buffer_take b =
     (if pool_size b = 0 then None
      else case get_current_head b of
             (i, b1) \<Rightarrow> Some (available_items b1 ! i, b1\<lparr>pool_size := pool_size b1 - 1\<rparr>))"

definition buffer_put :: "PoolBuffer \<Rightarrow> nat \<Rightarrow> PoolBuffer" where
  "buffer_put b x =
     (case get_current_tail b of
        (i, b1) \<Rightarrow> b1\<lparr>available_items := (available_items b1)[i := x], pool_size := pool_size b1 + 1\<rparr>)"

definition buffer_free :: "PoolBuffer \<Rightarrow> nat list" where
  "buffer_free b = ring_contents (available_items b) (head b) (unat (pool_size b))"

definition buffer_inv :: "PoolBuffer \<Rightarrow> bool" where
  "buffer_inv b \<longleftrightarrow>
     0 < buffer_capacity b \<and> buffer_capacity b < 2 ^ 64 \<and> head b < buffer_capacity b \<and>
     unat (pool_size b) \<le> buffer_capacity b \<and>
     tail b = (head b + unat (pool_size b)) mod buffer_capacity b"

lemma length_buffer_free [simp]: "length (buffer_free b) = unat (pool_size b)"
  by (simp add: buffer_free_def ring_contents_def)

lemma new_pool_buffer_inv:
  assumes "0 < n" and "n < 2 ^ 64"
  shows "buffer_inv (new_pool_buffer n)" and "buffer_free (new_pool_buffer n) = [0..<n]"
    and "buffer_capacity (new_pool_buffer n) = n"
proof -
  have n: "unat (of_nat n :: u64) = n" using assms(2) by (simp add: unsigned_of_nat take_bit_nat_eq_self)
  then show "buffer_inv (new_pool_buffer n)"
    using assms by (simp add: buffer_inv_def new_pool_buffer_def buffer_capacity_def)
  show "buffer_free (new_pool_buffer n) = [0..<n]"
    using assms n by (intro nth_equalityI) (auto simp: buffer_free_def ring_contents_def new_pool_buffer_def)
  show "buffer_capacity (new_pool_buffer n) = n" by (simp add: new_pool_buffer_def buffer_capacity_def)
qed

lemma unat_minus_one_pos: "(w :: u64) \<noteq> 0 \<Longrightarrow> unat (w - 1) = unat w - 1"
  by (metis unat_minus_one)

lemma unat_plus_one: "unat (w :: u64) + 1 < 2 ^ 64 \<Longrightarrow> unat (w + 1) = unat w + 1"
  by (simp add: unat_word_ariths)

interpretation buffer: free_ring buffer_inv buffer_free buffer_capacity buffer_take buffer_put
proof
  fix b x b'
  assume inv: "buffer_inv b"
  have cap: "0 < buffer_capacity b" "buffer_capacity b < 2 ^ 64" "head b < buffer_capacity b"
    "unat (pool_size b) \<le> buffer_capacity b" "tail b = (head b + unat (pool_size b)) mod buffer_capacity b"
    using inv by (simp_all add: buffer_inv_def)
  show "buffer_take b = None \<longleftrightarrow> buffer_free b = []"
    by (simp add: buffer_take_def get_current_head_def buffer_free_def ring_contents_def unat_eq_0)
  show "buffer_take b = Some (x, b') \<Longrightarrow>
      buffer_inv b' \<and> buffer_free b = x # buffer_free b' \<and> buffer_capacity b' = buffer_capacity b"
  proof -
    assume take: "buffer_take b = Some (x, b')"
    then have nz: "pool_size b \<noteq> 0" by (auto simp: buffer_take_def split: if_splits)
    have b': "b' = b\<lparr>head := Suc (head b) mod buffer_capacity b, pool_size := pool_size b - 1\<rparr>"
      "x = available_items b ! head b"
      using take nz by (auto simp: buffer_take_def get_current_head_def)
    have size: "unat (pool_size b') = unat (pool_size b) - 1" using nz by (simp add: b' unat_minus_one_pos)
    have pos: "0 < unat (pool_size b)" using nz by (simp add: unat_gt_0)
    have same: "buffer_capacity b' = buffer_capacity b" by (simp add: b' buffer_capacity_def)
    have "buffer_free b = x # buffer_free b'"
      using ring_contents_pop [OF pos, of "available_items b" "head b"] cap(3) size
      by (simp add: buffer_free_def b' buffer_capacity_def)
    moreover have "tail b' = (head b' + unat (pool_size b')) mod buffer_capacity b'"
    proof -
      have "Suc (head b) + (unat (pool_size b) - 1) = head b + unat (pool_size b)" using pos by simp
      then have "(Suc (head b) mod buffer_capacity b + (unat (pool_size b) - 1)) mod buffer_capacity b = tail b"
        using cap(5) by (metis mod_add_left_eq)
      moreover have "head b' = Suc (head b) mod buffer_capacity b" "tail b' = tail b" by (simp_all add: b')
      ultimately show ?thesis by (simp only: same size)
    qed
    ultimately show ?thesis using cap size same by (simp add: buffer_inv_def) (simp add: b')
  qed
  show "length (buffer_free b) < buffer_capacity b \<Longrightarrow> 
      buffer_inv (buffer_put b x) \<and> buffer_free (buffer_put b x) = buffer_free b @ [x] \<and>
      buffer_capacity (buffer_put b x) = buffer_capacity b"
  proof -
    assume room: "length (buffer_free b) < buffer_capacity b"
    then have room': "unat (pool_size b) < length (available_items b)" by (simp add: buffer_capacity_def)
    define b1 where "b1 = buffer_put b x"
    have b1: "b1 = b\<lparr>tail := Suc (tail b) mod buffer_capacity b,
        available_items := (available_items b)[tail b := x], pool_size := pool_size b + 1\<rparr>"
      by (simp add: b1_def buffer_put_def get_current_tail_def)
    have size: "unat (pool_size b1) = unat (pool_size b) + 1"
      using room cap(2) by (simp add: b1 unat_plus_one)
    have same: "buffer_capacity b1 = buffer_capacity b" by (simp add: b1 buffer_capacity_def)
    have "buffer_free b1 = buffer_free b @ [x]"
      using ring_contents_push [of "unat (pool_size b)" "available_items b" "head b" x] room' cap(3, 5) size
      by (simp add: buffer_free_def b1 buffer_capacity_def)
    moreover have "tail b1 = (head b1 + unat (pool_size b1)) mod buffer_capacity b1"
      unfolding same size using cap(5) by (simp add: b1 mod_Suc_eq)
    ultimately show ?thesis
      unfolding b1_def [symmetric] using cap room size same by (simp add: buffer_inv_def) (simp add: b1)
  qed
qed

section \<open>CachePool\<close>

text \<open>
  \<open>'a\<close> is the pooled type, \<open>init\<close> and \<open>refresh\<close> its methods (the identity if it has none). A
  pointer is the index of the object; an index outside the array stands for a pointer that
  \<^verbatim>\<open>is_valid_pool_pointer\<close> rejects.
\<close>

record 'a CachePool =
  type_name :: string
  pool_buffer :: PoolBuffer
  pool_data :: "'a list"

definition new_cache_pool :: "string \<Rightarrow> nat \<Rightarrow> 'a \<Rightarrow> 'a CachePool" where
  "new_cache_pool nm n v = \<lparr>type_name = nm, pool_buffer = new_pool_buffer n, pool_data = replicate n v\<rparr>"

definition is_valid_pool_pointer :: "nat option \<Rightarrow> 'a CachePool \<Rightarrow> bool" where
  "is_valid_pool_pointer item pool = (case item of None \<Rightarrow> False | Some i \<Rightarrow> i < length (pool_data pool))"

definition cache_acquire :: "('a \<Rightarrow> 'a) \<Rightarrow> 'a CachePool \<Rightarrow> cpp_error + nat \<times> 'a CachePool" where
  "cache_acquire init pool =
     (case buffer_take (pool_buffer pool) of
        None \<Rightarrow> Inl (Runtime_error (''No available items in cache pool: ['' @ type_name pool @ '']''))
      | Some (i, b) \<Rightarrow>
          Inr (i, pool\<lparr>pool_buffer := b, pool_data := (pool_data pool)[i := init (pool_data pool ! i)]\<rparr>))"

definition cache_release :: "('a \<Rightarrow> 'a) \<Rightarrow> 'a CachePool \<Rightarrow> nat option \<Rightarrow> cpp_error + 'a CachePool" where
  "cache_release refresh pool item =
     (case item of
        None \<Rightarrow> Inl (Runtime_error (''Attempt to release a null item back to the cache pool: ['' @ type_name pool @ '']''))
      | Some i \<Rightarrow>
          if \<not> is_valid_pool_pointer item pool then Inl (Aborted ''INVALID RELEASE POINTER'')
          else Inr (pool\<lparr>pool_buffer := buffer_put (pool_buffer pool) i,
                          pool_data := (pool_data pool)[i := refresh (pool_data pool ! i)]\<rparr>))"

definition cache_size :: "'a CachePool \<Rightarrow> u64" where
  "cache_size pool = pool_size (pool_buffer pool)"

definition total_released_items :: "'a CachePool \<Rightarrow> u64" where
  "total_released_items pool = of_nat (buffer_capacity (pool_buffer pool)) - pool_size (pool_buffer pool)"

definition cache_inv :: "'a CachePool \<Rightarrow> bool" where
  "cache_inv pool \<longleftrightarrow> buffer_inv (pool_buffer pool) \<and>
     length (pool_data pool) = buffer_capacity (pool_buffer pool)"

definition cache_free :: "'a CachePool \<Rightarrow> nat list" where
  "cache_free pool = buffer_free (pool_buffer pool)"

definition cache_capacity :: "'a CachePool \<Rightarrow> nat" where
  "cache_capacity pool = buffer_capacity (pool_buffer pool)"

definition cache_take :: "('a \<Rightarrow> 'a) \<Rightarrow> 'a CachePool \<Rightarrow> (nat \<times> 'a CachePool) option" where
  "cache_take init pool = (case cache_acquire init pool of Inl _ \<Rightarrow> None | Inr r \<Rightarrow> Some r)"

definition cache_put :: "('a \<Rightarrow> 'a) \<Rightarrow> 'a CachePool \<Rightarrow> nat \<Rightarrow> 'a CachePool" where
  "cache_put refresh pool i = (case cache_release refresh pool (Some i) of Inl _ \<Rightarrow> pool | Inr p \<Rightarrow> p)"

interpretation cache: free_ring cache_inv cache_free cache_capacity "cache_take init" "cache_put refresh"
  for init refresh
proof
  fix s :: "'a CachePool" and x s'
  assume inv: "cache_inv s"
  then have binv: "buffer_inv (pool_buffer s)" by (simp add: cache_inv_def)
  show "cache_take init s = None \<longleftrightarrow> cache_free s = []"
    using buffer.take_none [OF binv]
    by (auto simp: cache_take_def cache_acquire_def cache_free_def split: option.splits)
  show "cache_take init s = Some (x, s') \<Longrightarrow>
      cache_inv s' \<and> cache_free s = x # cache_free s' \<and> cache_capacity s' = cache_capacity s"
    using inv buffer.take_some [OF binv]
    by (auto simp: cache_take_def cache_acquire_def cache_free_def cache_capacity_def cache_inv_def
        split: option.splits)
  show "length (cache_free s) < cache_capacity s \<Longrightarrow> x < cache_capacity s \<Longrightarrow> x \<notin> set (cache_free s) \<Longrightarrow>
      cache_inv (cache_put refresh s x) \<and> cache_free (cache_put refresh s x) = cache_free s @ [x] \<and>
      cache_capacity (cache_put refresh s x) = cache_capacity s"
    using inv buffer.put [OF binv, of x]
    by (simp add: cache_put_def cache_release_def is_valid_pool_pointer_def cache_free_def
        cache_capacity_def cache_inv_def)
qed

lemma new_cache_pool_inv:
  assumes "0 < n" and "n < 2 ^ 64"
  shows "cache_inv (new_cache_pool nm n v)"
    and "cache_free (new_cache_pool nm n v) = [0..<cache_capacity (new_cache_pool nm n v)]"
    and "cache_capacity (new_cache_pool nm n v) = n"
  using new_pool_buffer_inv [OF assms]
  by (simp_all add: cache_inv_def cache_free_def cache_capacity_def new_cache_pool_def)

section \<open>Several threads\<close>

text \<open>
  Where a thread is between two atomic operations of \<^verbatim>\<open>acquire\<close> and \<^verbatim>\<open>release\<close>. The
  compare-and-exchange loops of \<^verbatim>\<open>get_current_head\<close> and \<^verbatim>\<open>get_current_tail\<close> take effect at
  their one successful exchange.
\<close>

datatype pool_pc =
    Outside
  | Size_checked
  | Head_taken nat
  | Item_read nat
  | Holds nat
  | Tail_taken nat nat
  | Slot_written nat
  | Refreshing nat

inductive pool_step :: "PoolBuffer \<times> pool_pc list \<Rightarrow> PoolBuffer \<times> pool_pc list \<Rightarrow> bool" where
  check_size: "t < length ts \<Longrightarrow> ts ! t = Outside \<Longrightarrow> pool_size b \<noteq> 0 \<Longrightarrow>
    pool_step (b, ts) (b, ts[t := Size_checked])"
| take_head: "t < length ts \<Longrightarrow> ts ! t = Size_checked \<Longrightarrow> get_current_head b = (i, b') \<Longrightarrow>
    pool_step (b, ts) (b', ts[t := Head_taken i])"
| read_item: "t < length ts \<Longrightarrow> ts ! t = Head_taken i \<Longrightarrow>
    pool_step (b, ts) (b, ts[t := Item_read (available_items b ! i)])"
| decrease_size: "t < length ts \<Longrightarrow> ts ! t = Item_read x \<Longrightarrow>
    pool_step (b, ts) (b\<lparr>pool_size := pool_size b - 1\<rparr>, ts[t := Holds x])"
| take_tail: "t < length ts \<Longrightarrow> ts ! t = Holds x \<Longrightarrow> get_current_tail b = (i, b') \<Longrightarrow>
    pool_step (b, ts) (b', ts[t := Tail_taken i x])"
| write_slot: "t < length ts \<Longrightarrow> ts ! t = Tail_taken i x \<Longrightarrow>
    pool_step (b, ts) (b\<lparr>available_items := (available_items b)[i := x]\<rparr>, ts[t := Slot_written x])"
| increase_size: "t < length ts \<Longrightarrow> ts ! t = Slot_written x \<Longrightarrow>
    pool_step (b, ts) (b\<lparr>pool_size := pool_size b + 1\<rparr>, ts[t := Refreshing x])"
| refresh: "t < length ts \<Longrightarrow> ts ! t = Refreshing x \<Longrightarrow>
    pool_step (b, ts) (b, ts[t := Outside])"

text \<open>A thread that is not disturbed after its size check acquires, and releases up to the refresh.\<close>

lemma acquire_steps:
  assumes "t < length ts" and "ts ! t = Size_checked"
  shows "pool_step\<^sup>*\<^sup>* (b, ts)
    (b\<lparr>head := Suc (head b) mod buffer_capacity b, pool_size := pool_size b - 1\<rparr>,
     ts[t := Holds (available_items b ! head b)])"
proof (rule run_of_three)
  let ?b = "b\<lparr>head := Suc (head b) mod buffer_capacity b\<rparr>"
  show "pool_step (b, ts) (?b, ts[t := Head_taken (head b)])"
    using assms by (intro pool_step.take_head) (simp_all add: get_current_head_def)
  show "pool_step (?b, ts[t := Head_taken (head b)]) (?b, ts[t := Item_read (available_items b ! head b)])"
    using pool_step.read_item [of t "ts[t := Head_taken (head b)]" "head b" ?b] assms(1) by simp
  show "pool_step (?b, ts[t := Item_read (available_items b ! head b)])
      (b\<lparr>head := Suc (head b) mod buffer_capacity b, pool_size := pool_size b - 1\<rparr>,
       ts[t := Holds (available_items b ! head b)])"
    using pool_step.decrease_size [of t "ts[t := Item_read (available_items b ! head b)]" "available_items b ! head b" ?b]
      assms(1) by simp
qed

lemma release_steps:
  assumes "t < length ts" and "ts ! t = Holds x"
  shows "pool_step\<^sup>*\<^sup>* (b, ts) (buffer_put b x, ts[t := Refreshing x])"
proof (rule run_of_three)
  let ?b = "b\<lparr>tail := Suc (tail b) mod buffer_capacity b\<rparr>"
  let ?b2 = "?b\<lparr>available_items := (available_items b)[tail b := x]\<rparr>"
  show "pool_step (b, ts) (?b, ts[t := Tail_taken (tail b) x])"
    using assms by (intro pool_step.take_tail) (simp_all add: get_current_tail_def)
  show "pool_step (?b, ts[t := Tail_taken (tail b) x]) (?b2, ts[t := Slot_written x])"
    using pool_step.write_slot [of t "ts[t := Tail_taken (tail b) x]" "tail b" x ?b] assms(1) by simp
  show "pool_step (?b2, ts[t := Slot_written x]) (buffer_put b x, ts[t := Refreshing x])"
    using pool_step.increase_size [of t "ts[t := Slot_written x]" x ?b2] assms(1)
    by (simp add: buffer_put_def get_current_tail_def)
qed

text \<open>Two threads that pass the size check one after the other both take the last object's turn.\<close>

lemma last_object_taken_twice:
  assumes "t < length ts" and "u < length ts" and "t \<noteq> u" and "buffer_inv b"
    and a: "pool_size b = 1" "ts ! t = Outside" "ts ! u = Outside"
  shows "\<exists>b'. pool_step\<^sup>*\<^sup>* (b, ts)
      (b', ts[t := Holds (available_items b ! head b),
              u := Holds (available_items b ! (Suc (head b) mod buffer_capacity b))]) \<and>
      buffer_free b = [available_items b ! head b] \<and> pool_size b' = - 1"
proof -
  let ?b1 = "b\<lparr>head := Suc (head b) mod buffer_capacity b, pool_size := pool_size b - 1\<rparr>"
  let ?b2 = "?b1\<lparr>head := Suc (head ?b1) mod buffer_capacity ?b1, pool_size := pool_size ?b1 - 1\<rparr>"
  let ?ts = "ts[t := Size_checked, u := Size_checked]"
  let ?x = "available_items b ! head b" and ?y = "available_items b ! (Suc (head b) mod buffer_capacity b)"
  have "pool_step (b, ts) (b, ts[t := Size_checked])"
    using assms(1) a by (intro pool_step.check_size) simp_all
  moreover have "pool_step (b, ts[t := Size_checked]) (b, ?ts)"
    using assms a by (intro pool_step.check_size) simp_all
  moreover have "pool_step\<^sup>*\<^sup>* (b, ?ts) (?b1, ?ts[t := Holds ?x])"
    using assms(1, 3) by (intro acquire_steps) simp_all
  moreover have "?ts[t := Holds ?x, u := Holds ?y] = ts[t := Holds ?x, u := Holds ?y]"
    using assms(1, 2, 3) by (intro nth_equalityI) (auto simp: nth_list_update)
  then have "pool_step\<^sup>*\<^sup>* (?b1, ?ts[t := Holds ?x]) (?b2, ts[t := Holds ?x, u := Holds ?y])"
    using acquire_steps [of u "?ts[t := Holds ?x]" ?b1] assms(2, 3) by simp
  ultimately have "pool_step\<^sup>*\<^sup>* (b, ts) (?b2, ts[t := Holds ?x, u := Holds ?y])"
    by (meson converse_rtranclp_into_rtranclp rtranclp_trans)
  moreover have "buffer_free b = [?x]"
    using assms(4) a(1) by (simp add: buffer_free_def ring_contents_def buffer_inv_def buffer_capacity_def)
  moreover have "pool_size ?b2 = - 1" using a(1) by simp
  ultimately show ?thesis by blast
qed

text \<open>An object is in the ring before it is refreshed.\<close>

lemma taken_while_refreshing:
  assumes "t < length ts" and "u < length ts" and "t \<noteq> u" and "buffer_inv b"
    and a: "pool_size b = 0" "ts ! t = Holds x" "ts ! u = Outside"
  shows "\<exists>b'. pool_step\<^sup>*\<^sup>* (b, ts) (b', ts[t := Refreshing x, u := Holds x])"
proof -
  let ?b1 = "buffer_put b x"
  let ?ts = "ts[t := Refreshing x, u := Size_checked]"
  have ht: "tail b = head b" "head b < length (available_items b)"
    using assms(4) a(1) by (simp_all add: buffer_inv_def buffer_capacity_def)
  have front: "available_items ?b1 ! head ?b1 = x" "pool_size ?b1 = 1"
    using ht a(1) by (simp_all add: buffer_put_def get_current_tail_def)
  have "pool_step\<^sup>*\<^sup>* (b, ts) (?b1, ts[t := Refreshing x])" by (rule release_steps [OF assms(1) a(2)])
  moreover have "pool_step (?b1, ts[t := Refreshing x]) (?b1, ?ts)"
    using assms(2, 3) a front(2) by (intro pool_step.check_size) simp_all
  moreover have "\<exists>b'. pool_step\<^sup>*\<^sup>* (?b1, ?ts) (b', ts[t := Refreshing x, u := Holds x])"
    using acquire_steps [of u ?ts ?b1] assms(2) front(1) by auto
  ultimately show ?thesis by (meson rtranclp.rtrancl_into_rtrancl rtranclp_trans)
qed

section \<open>Properties\<close>

text \<open>
  Used by one thread at a time, a \<^verbatim>\<open>CachePool\<close> never hands an object out twice at a time and
  loses none; an acquisition throws exactly when all are held.
\<close>

theorem cache_pool_hands_out_once:
  assumes "0 < n" and "n < 2 ^ 64"
    and "pool_run (cache_take init) (cache_put refresh) (new_cache_pool nm n v) (s, held)"
  shows "count held x \<le> 1 \<and> set (cache_free s) \<inter> set_mset held = {} \<and>
    set (cache_free s) \<union> set_mset held = {0..<n} \<and>
    ((\<exists>e. cache_acquire init s = Inl e) \<longleftrightarrow> size held = n)"
proof (intro conjI)
  note new = new_cache_pool_inv [OF assms(1, 2)]
  note once = cache.no_double_hand_out [OF new(1, 2) assms(3)]
  then show "count held x \<le> 1" "set (cache_free s) \<inter> set_mset held = {}"
    "set (cache_free s) \<union> set_mset held = {0..<n}" by (simp_all add: new)
  show "(\<exists>e. cache_acquire init s = Inl e) \<longleftrightarrow> size held = n"
    using cache.exhausted_iff_all_held [OF new(1, 2) assms(3)]
    by (cases "cache_acquire init s") (simp_all add: cache_take_def new)
qed

theorem cache_pool_hands_out_once_witness:
  "\<exists>s. pool_run (cache_take id) (cache_put id) (new_cache_pool ''p'' 1 (0 :: nat)) (s, {#0#}) \<and>
     (\<exists>e. cache_acquire id s = Inl e)"
proof -
  let ?s0 = "new_cache_pool ''p'' 1 (0 :: nat)"
  obtain s where s: "cache_take id ?s0 = Some (0, s)"
    by (simp add: cache_take_def cache_acquire_def new_cache_pool_def buffer_take_def new_pool_buffer_def
        get_current_head_def)
  have "pool_run (cache_take id) (cache_put id) ?s0 (?s0, {#})" by (rule pool_run.start)
  then have run: "pool_run (cache_take id) (cache_put id) ?s0 (s, {#0#})"
    using s by (rule pool_run.takes)
  moreover have "\<exists>e. cache_acquire id s = Inl e"
    using cache_pool_hands_out_once [OF _ _ run] by simp
  ultimately show ?thesis by blast
qed

text \<open>
  (C40) With two threads the pool is not safe. When one object is left and both threads have
  tested the size before either takes the head, both acquire although only one object was
  free, and the free count wraps around to \<open>2\<^sup>64 - 1\<close>. And since \<^verbatim>\<open>release\<close> publishes the object
  before it calls \<^verbatim>\<open>refresh\<close>, another thread can hold an object that is still being refreshed.
\<close>

theorem concurrent_pool_is_unsafe:
  assumes "t < length ts" and "u < length ts" and "t \<noteq> u" and "buffer_inv b"
  shows "(pool_size b = 1 \<longrightarrow> ts ! t = Outside \<longrightarrow> ts ! u = Outside \<longrightarrow>
      (\<exists>b'. pool_step\<^sup>*\<^sup>* (b, ts)
        (b', ts[t := Holds (available_items b ! head b),
                u := Holds (available_items b ! (Suc (head b) mod buffer_capacity b))]) \<and>
        buffer_free b = [available_items b ! head b] \<and> pool_size b' = - 1)) \<and>
    (pool_size b = 0 \<longrightarrow> ts ! t = Holds x \<longrightarrow> ts ! u = Outside \<longrightarrow>
      (\<exists>b'. pool_step\<^sup>*\<^sup>* (b, ts) (b', ts[t := Refreshing x, u := Holds x])))"
  using last_object_taken_twice [OF assms] taken_while_refreshing [OF assms] by blast

theorem concurrent_pool_is_unsafe_witness:
  "\<exists>b'. pool_step\<^sup>*\<^sup>* (new_pool_buffer 1, [Outside, Outside]) (b', [Holds 0, Holds 0]) \<and> pool_size b' = - 1"
  using concurrent_pool_is_unsafe [of 0 "[Outside, Outside]" 1 "new_pool_buffer 1"] new_pool_buffer_inv(1) [of 1]
  by (auto simp: new_pool_buffer_def buffer_capacity_def)

end
