(* ===== verification/Share_String.thy ===== *)
theory Share_String
  imports Cache_Pool
begin

text \<open>
  Reference-counted strings (\<^verbatim>\<open>src/core/cache/share_string.h\<close>, \<^verbatim>\<open>share_string.cpp\<close>): a
  \<^verbatim>\<open>ShareString\<close> is a view into a pooled \<^verbatim>\<open>StringReference\<close>. The state is the pool and a table of
  the \<^verbatim>\<open>ShareString\<close> variables of the program; an operation names the variables it works on,
  so aliasing (\<^verbatim>\<open>s = s\<close>) is visible. A variable whose reference is null holds \<open>None\<close>. The
  32-bit reference count is a natural number: it would take \<open>2\<^sup>32\<close> variables to wrap it.
\<close>

section \<open>Definitions\<close>

record StringReference =
  sr_data :: string
  sr_count :: nat

record ShareString =
  m_string_reference :: "nat option"
  m_start_index :: nat
  m_length :: nat

record string_store =
  string_pool :: "StringReference CachePool"
  vars :: "ShareString list"

definition new_store :: "nat \<Rightarrow> string_store" where
  "new_store n = \<lparr>string_pool = new_cache_pool ''StringReference'' n \<lparr>sr_data = [], sr_count = 0\<rparr>, vars = []\<rparr>"

abbreviation ref_at :: "string_store \<Rightarrow> nat \<Rightarrow> StringReference" where
  "ref_at st r \<equiv> pool_data (string_pool st) ! r"

definition update_ref :: "string_store \<Rightarrow> nat \<Rightarrow> StringReference \<Rightarrow> string_store" where
  "update_ref st r x =
     st\<lparr>string_pool := (string_pool st)\<lparr>pool_data := (pool_data (string_pool st))[r := x]\<rparr>\<rparr>"

text \<open>The constructors from a string declare a new variable.\<close>

definition construct :: "string_store \<Rightarrow> string \<Rightarrow> cpp_error + string_store" where
  "construct st s =
     sum_bind (cache_acquire id (string_pool st)) (\<lambda>(r, pool).
       Inr (update_ref (st\<lparr>string_pool := pool,
                           vars := vars st @ [\<lparr>m_string_reference = Some r, m_start_index = 0,
                                              m_length = length s\<rparr>]\<rparr>)
              r \<lparr>sr_data = s, sr_count = 1\<rparr>))"

definition retain :: "string_store \<Rightarrow> nat option \<Rightarrow> cpp_error + string_store" where
  "retain st p =
     (case p of
        None \<Rightarrow> Inl UB_null_pointer
      | Some r \<Rightarrow> Inr (update_ref st r ((ref_at st r)\<lparr>sr_count := sr_count (ref_at st r) + 1\<rparr>)))"

text \<open>Copy and move construction do the same: the source keeps its reference.\<close>

definition copy_construct :: "string_store \<Rightarrow> nat \<Rightarrow> cpp_error + string_store" where
  "copy_construct st x =
     sum_bind (retain st (m_string_reference (vars st ! x)))
       (\<lambda>st. Inr (st\<lparr>vars := vars st @ [vars st ! x]\<rparr>))"

definition check_release_current_data :: "string_store \<Rightarrow> nat \<Rightarrow> cpp_error + string_store" where
  "check_release_current_data st x =
     (case m_string_reference (vars st ! x) of
        None \<Rightarrow> Inr st
      | Some r \<Rightarrow>
          let old = sr_count (ref_at st r);
              st1 = update_ref st r ((ref_at st r)\<lparr>sr_count := old - 1\<rparr>)
          in sum_bind
               (if old = 1 then map_sum id (\<lambda>p. st1\<lparr>string_pool := p\<rparr>) (cache_release id (string_pool st1) (Some r))
                else Inr st1)
               (\<lambda>st2. Inr (st2\<lparr>vars := (vars st2)[x := (vars st2 ! x)\<lparr>m_string_reference := None\<rparr>]\<rparr>)))"

definition destroy :: "string_store \<Rightarrow> nat \<Rightarrow> cpp_error + string_store" where
  "destroy st x = check_release_current_data st x"

text \<open>Copy and move assignment, from variable \<open>y\<close> to variable \<open>x\<close>.\<close>

definition assign :: "string_store \<Rightarrow> nat \<Rightarrow> nat \<Rightarrow> cpp_error + string_store" where
  "assign st x y =
     sum_bind (check_release_current_data st x) (\<lambda>st1.
       let src = vars st1 ! y
       in sum_bind (retain st1 (m_string_reference src))
            (\<lambda>st2. Inr (st2\<lparr>vars := (vars st2)[x := src]\<rparr>)))"

definition from_substr :: "string_store \<Rightarrow> nat \<Rightarrow> nat \<Rightarrow> nat \<Rightarrow> cpp_error + string_store" where
  "from_substr st x start_index len =
     (let h = vars st ! x
      in if start_index + len \<le> m_length h
         then sum_bind (copy_construct st x) (\<lambda>st1.
                Inr (st1\<lparr>vars := (vars st1)[length (vars st) :=
                  h\<lparr>m_start_index := m_start_index h + start_index, m_length := len\<rparr>]\<rparr>))
         else Inl (Out_of_range ''ShareString - Substr out of range''))"

definition from_substr_with_end :: "string_store \<Rightarrow> nat \<Rightarrow> nat \<Rightarrow> nat \<Rightarrow> cpp_error + string_store" where
  "from_substr_with_end st x start_index end_index =
     (let h = vars st ! x
      in if start_index < m_length h \<and> end_index \<le> m_length h \<and> start_index < end_index
         then sum_bind (copy_construct st x) (\<lambda>st1.
                Inr (st1\<lparr>vars := (vars st1)[length (vars st) :=
                  h\<lparr>m_start_index := m_start_index h + start_index, m_length := end_index - start_index + 1\<rparr>]\<rparr>))
         else Inl (Out_of_range ''ShareString - Substr with end out of range''))"

text \<open>\<^verbatim>\<open>string_view::substr(pos, n)\<close> cuts \<open>n\<close> at the end of the string.\<close>

definition data_of :: "string_store \<Rightarrow> nat \<Rightarrow> cpp_error + string" where
  "data_of st x =
     (let h = vars st ! x
      in case m_string_reference h of
           None \<Rightarrow> Inr []
         | Some r \<Rightarrow>
             let s = sr_data (ref_at st r)
             in if length s < m_start_index h then Inl (Out_of_range ''basic_string_view::substr'')
                else Inr (take (m_length h) (drop (m_start_index h) s)))"

definition equals :: "string_store \<Rightarrow> nat \<Rightarrow> nat \<Rightarrow> cpp_error + bool" where
  "equals st x y =
     (if m_string_reference (vars st ! x) = None \<or> m_string_reference (vars st ! y) = None then Inr False
      else sum_bind (data_of st x) (\<lambda>a. sum_bind (data_of st y) (\<lambda>b. Inr (a = b))))"

section \<open>Reference counting\<close>

definition references :: "ShareString list \<Rightarrow> nat \<Rightarrow> nat" where
  "references hs r = length (filter (\<lambda>h. m_string_reference h = Some r) hs)"

text \<open>
  Counts are exact, the references in use are exactly the objects not free in the pool, and
  every view lies within its string.
\<close>

definition view_ok :: "StringReference CachePool \<Rightarrow> ShareString \<Rightarrow> bool" where
  "view_ok p h \<longleftrightarrow> (case m_string_reference h of None \<Rightarrow> True
     | Some r \<Rightarrow> r < cache_capacity p \<and> m_start_index h + m_length h \<le> length (sr_data (pool_data p ! r)))"

definition counts_ok :: "StringReference CachePool \<Rightarrow> ShareString list \<Rightarrow> bool" where
  "counts_ok p hs \<longleftrightarrow> (\<forall>r < cache_capacity p.
     (r \<in> set (cache_free p) \<longleftrightarrow> references hs r = 0) \<and>
     (references hs r \<noteq> 0 \<longrightarrow> sr_count (pool_data p ! r) = references hs r))"

definition store_inv :: "string_store \<Rightarrow> bool" where
  "store_inv st \<longleftrightarrow>
     cache_inv (string_pool st) \<and> distinct (cache_free (string_pool st)) \<and>
     set (cache_free (string_pool st)) \<subseteq> {0..<cache_capacity (string_pool st)} \<and>
     (\<forall>h \<in> set (vars st). view_ok (string_pool st) h) \<and> counts_ok (string_pool st) (vars st)"

lemma references_append [simp]: "references (hs @ hs') r = references hs r + references hs' r"
  by (simp add: references_def)

lemma references_update:
  "x < length hs \<Longrightarrow>
     references (hs[x := h]) r + (if m_string_reference (hs ! x) = Some r then 1 else 0)
       = references hs r + (if m_string_reference h = Some r then 1 else 0)"
proof (induction hs arbitrary: x)
  case (Cons a hs)
  then show ?case by (cases x) (auto simp: references_def)
qed simp

lemma references_pos:
  "x < length hs \<Longrightarrow> m_string_reference (hs ! x) = Some r \<Longrightarrow> 0 < references hs r"
  by (auto simp: references_def length_greater_0_conv filter_empty_conv)

lemma update_ref_simps [simp]:
  "vars (update_ref st r x) = vars st"
  "pool_data (string_pool (update_ref st r x)) = (pool_data (string_pool st))[r := x]"
  "pool_buffer (string_pool (update_ref st r x)) = pool_buffer (string_pool st)"
  "cache_free (string_pool (update_ref st r x)) = cache_free (string_pool st)"
  "cache_capacity (string_pool (update_ref st r x)) = cache_capacity (string_pool st)"
  "cache_inv (string_pool (update_ref st r x)) = cache_inv (string_pool st)"
  by (simp_all add: update_ref_def cache_free_def cache_capacity_def cache_inv_def)

lemma capacity_is_length:
  "cache_inv p \<Longrightarrow> length (pool_data p) = cache_capacity p"
  by (simp add: cache_inv_def cache_capacity_def)

text \<open>The parts of the invariant.\<close>

lemma store_inv_length:
  "store_inv st \<Longrightarrow> length (pool_data (string_pool st)) = cache_capacity (string_pool st)"
  by (rule capacity_is_length) (simp add: store_inv_def)

lemma store_inv_view:
  assumes "store_inv st" and "x < length (vars st)" and "m_string_reference (vars st ! x) = Some r"
  shows "r < cache_capacity (string_pool st)"
    and "m_start_index (vars st ! x) + m_length (vars st ! x) \<le> length (sr_data (ref_at st r))"
    and "r \<notin> set (cache_free (string_pool st))" and "sr_count (ref_at st r) = references (vars st) r"
    and "0 < references (vars st) r"
proof -
  have h: "vars st ! x \<in> set (vars st)" using assms(2) by simp
  then show r: "r < cache_capacity (string_pool st)"
    and "m_start_index (vars st ! x) + m_length (vars st ! x) \<le> length (sr_data (ref_at st r))"
    using assms(1, 3) by (force simp: store_inv_def view_ok_def split: option.splits)+
  show "0 < references (vars st) r" by (rule references_pos [OF assms(2, 3)])
  then show "r \<notin> set (cache_free (string_pool st))" and "sr_count (ref_at st r) = references (vars st) r"
    using assms(1) r by (auto simp: store_inv_def counts_ok_def)
qed

definition same_var :: "string_store \<Rightarrow> string_store \<Rightarrow> nat \<Rightarrow> bool" where
  "same_var st st' y \<longleftrightarrow> vars st' ! y = vars st ! y \<and> data_of st' y = data_of st y"

lemma same_varI:
  assumes "vars st' ! y = vars st ! y"
    and "\<And>r. m_string_reference (vars st ! y) = Some r \<Longrightarrow> sr_data (ref_at st' r) = sr_data (ref_at st r)"
  shows "same_var st st' y"
  using assms by (auto simp: same_var_def data_of_def Let_def split: option.split)

lemma construct_inv:
  assumes "store_inv st" and "construct st s = Inr st'"
  shows "store_inv st'" and "length (vars st') = Suc (length (vars st))"
    and "data_of st' (length (vars st)) = Inr s"
    and "y < length (vars st) \<Longrightarrow> same_var st st' y"
proof -
  let ?p = "string_pool st"
  obtain r p where acq: "cache_acquire id ?p = Inr (r, p)"
    and st': "st' = update_ref (st\<lparr>string_pool := p,
      vars := vars st @ [\<lparr>m_string_reference = Some r, m_start_index = 0, m_length = length s\<rparr>]\<rparr>)
      r \<lparr>sr_data = s, sr_count = 1\<rparr>"
    using assms(2) by (auto simp: construct_def)
  have inv: "cache_inv ?p" "distinct (cache_free ?p)" "set (cache_free ?p) \<subseteq> {0..<cache_capacity ?p}"
    using assms(1) by (simp_all add: store_inv_def)
  have "cache_take id ?p = Some (r, p)" using acq by (simp add: cache_take_def)
  from cache.take_some [OF inv(1) this]
  have p: "cache_inv p" "cache_free ?p = r # cache_free p" "cache_capacity p = cache_capacity ?p" by blast+
  have dt: "pool_data p = pool_data ?p"
    using acq by (auto simp: cache_acquire_def split: option.splits)
  have r: "r < cache_capacity ?p" "r \<in> set (cache_free ?p)" using inv(3) p(2) by auto
  have refs: "references (vars st) r = 0" using assms(1) r by (simp add: store_inv_def counts_ok_def)
  have len: "r < length (pool_data ?p)" using r capacity_is_length [OF inv(1)] by simp
  have other: "r \<noteq> r'" if "y < length (vars st)" "m_string_reference (vars st ! y) = Some r'" for y r'
    using store_inv_view(3) [OF assms(1) that] r(2) by auto
  show "length (vars st') = Suc (length (vars st))" by (simp add: st')
  show "data_of st' (length (vars st)) = Inr s" using len by (simp add: st' data_of_def dt)
  show "y < length (vars st) \<Longrightarrow> same_var st st' y"
    using other by (intro same_varI) (auto simp: st' nth_append dt)
  show "store_inv st'"
    unfolding store_inv_def
  proof (intro conjI)
    show "\<forall>h \<in> set (vars st'). view_ok (string_pool st') h"
    proof
      fix h assume "h \<in> set (vars st')"
      then consider (old) y where "y < length (vars st)" "h = vars st ! y"
        | (new) "h = \<lparr>m_string_reference = Some r, m_start_index = 0, m_length = length s\<rparr>"
        by (auto simp: st' in_set_conv_nth)
      then show "view_ok (string_pool st') h"
        using store_inv_view(1, 2) [OF assms(1)] other r(1) len
        by cases (auto simp: view_ok_def st' p(3) dt split: option.split)
    qed
    show "counts_ok (string_pool st') (vars st')"
      unfolding counts_ok_def
    proof (intro allI impI)
      fix q assume q: "q < cache_capacity (string_pool st')"
      have "references (vars st') q = references (vars st) q + (if q = r then 1 else 0)"
        by (simp add: st' references_def)
      then show "(q \<in> set (cache_free (string_pool st')) \<longleftrightarrow> references (vars st') q = 0) \<and>
        (references (vars st') q \<noteq> 0 \<longrightarrow> sr_count (ref_at st' q) = references (vars st') q)"
        using q assms(1) p(2, 3) inv(2) refs len
        by (cases "q = r") (auto simp: st' store_inv_def counts_ok_def dt)
    qed
  qed (use p inv in \<open>auto simp: st'\<close>)
qed

text \<open>A count that changes together with the number of references keeps the invariant.\<close>

lemma recount_inv:
  assumes inv: "store_inv st" and r: "r < cache_capacity (string_pool st)" "r \<notin> set (cache_free (string_pool st))"
    and refs: "\<And>q. q \<noteq> r \<Longrightarrow> references hs q = references (vars st) q"
    and some: "references hs r \<noteq> 0"
    and views: "\<And>h q. h \<in> set hs \<Longrightarrow> m_string_reference h = Some q \<Longrightarrow>
      q < cache_capacity (string_pool st) \<and> m_start_index h + m_length h \<le> length (sr_data (ref_at st q))"
  shows "store_inv ((update_ref st r ((ref_at st r)\<lparr>sr_count := references hs r\<rparr>))\<lparr>vars := hs\<rparr>)"
proof -
  let ?st = "(update_ref st r ((ref_at st r)\<lparr>sr_count := references hs r\<rparr>))\<lparr>vars := hs\<rparr>"
  let ?p = "string_pool ?st"
  note len = store_inv_length [OF inv]
  have same: "cache_capacity ?p = cache_capacity (string_pool st)" "cache_free ?p = cache_free (string_pool st)"
    "cache_inv ?p = cache_inv (string_pool st)" by simp_all
  have "view_ok ?p h" if "h \<in> set hs" for h
  proof (cases "m_string_reference h")
    case (Some q)
    note v = views [OF that Some]
    then have "sr_data (pool_data ?p ! q) = sr_data (ref_at st q)" using len by (cases "q = r") simp_all
    with v Some show ?thesis by (simp add: view_ok_def)
  qed (simp add: view_ok_def)
  moreover have "counts_ok ?p hs"
    unfolding counts_ok_def same
  proof (intro allI impI)
    fix q assume q: "q < cache_capacity (string_pool st)"
    show "(q \<in> set (cache_free (string_pool st)) \<longleftrightarrow> references hs q = 0) \<and>
        (references hs q \<noteq> 0 \<longrightarrow> sr_count (pool_data ?p ! q) = references hs q)"
      using inv q r some refs [of q] len by (cases "q = r") (simp_all add: store_inv_def counts_ok_def)
  qed
  ultimately show ?thesis using inv unfolding store_inv_def same by simp
qed

lemma derive_inv:
  assumes "store_inv st" and "x < length (vars st)" and "m_string_reference (vars st ! x) = Some r"
    and "m_string_reference h = Some r" and "m_start_index h + m_length h \<le> length (sr_data (ref_at st r))"
    and "st' = (update_ref st r ((ref_at st r)\<lparr>sr_count := sr_count (ref_at st r) + 1\<rparr>))\<lparr>vars := vars st @ [h]\<rparr>"
  shows "store_inv st'" and "y < length (vars st) \<Longrightarrow> same_var st st' y"
    and "data_of st' (length (vars st)) = Inr (take (m_length h) (drop (m_start_index h) (sr_data (ref_at st r))))"
proof -
  note v = store_inv_view [OF assms(1, 2, 3)]
  have count: "references (vars st @ [h]) r = sr_count (ref_at st r) + 1"
    using v(4) assms(4) by (simp add: references_def)
  have len: "length (pool_data (string_pool st)) = cache_capacity (string_pool st)"
    by (rule store_inv_length [OF assms(1)])
  show "store_inv st'"
    unfolding assms(6) count [symmetric]
  proof (rule recount_inv [OF assms(1) v(1, 3)])
    show "references (vars st @ [h]) q = references (vars st) q" if "q \<noteq> r" for q
      using that assms(4) by (simp add: references_def)
    show "references (vars st @ [h]) r \<noteq> 0" using count by simp
    fix h' q assume h': "h' \<in> set (vars st @ [h])" "m_string_reference h' = Some q"
    show "q < cache_capacity (string_pool st) \<and> m_start_index h' + m_length h' \<le> length (sr_data (ref_at st q))"
    proof (cases "h' \<in> set (vars st)")
      case True
      then obtain y where "y < length (vars st)" "vars st ! y = h'" by (auto simp: in_set_conv_nth)
      with store_inv_view(1, 2) [OF assms(1)] h'(2) show ?thesis by auto
    next
      case False
      with h' assms(4, 5) v(1) show ?thesis by simp
    qed
  qed
  show "y < length (vars st) \<Longrightarrow> same_var st st' y"
    using len v(1) by (intro same_varI) (auto simp: assms(6) nth_append nth_list_update)
  show "data_of st' (length (vars st)) = Inr (take (m_length h) (drop (m_start_index h) (sr_data (ref_at st r))))"
    using assms(4, 5) len v(1) by (simp add: assms(6) data_of_def Let_def)
qed

lemma copy_construct_eq:
  assumes "m_string_reference (vars st ! x) = Some r"
  shows "copy_construct st x = Inr ((update_ref st r ((ref_at st r)\<lparr>sr_count := sr_count (ref_at st r) + 1\<rparr>))
    \<lparr>vars := vars st @ [vars st ! x]\<rparr>)"
  using assms by (simp add: copy_construct_def retain_def)

lemma from_substr_eq:
  assumes "m_string_reference (vars st ! x) = Some r" and "start_index + len \<le> m_length (vars st ! x)"
  shows "from_substr st x start_index len = Inr ((update_ref st r ((ref_at st r)\<lparr>sr_count := sr_count (ref_at st r) + 1\<rparr>))
    \<lparr>vars := vars st @ [(vars st ! x)\<lparr>m_start_index := m_start_index (vars st ! x) + start_index, m_length := len\<rparr>]\<rparr>)"
  using assms by (simp add: from_substr_def copy_construct_eq Let_def)

definition forget :: "ShareString list \<Rightarrow> nat \<Rightarrow> ShareString list" where
  "forget hs x = hs[x := (hs ! x)\<lparr>m_string_reference := None\<rparr>]"

lemma forget_simps [simp]:
  "y \<noteq> x \<Longrightarrow> forget hs x ! y = hs ! y" "length (forget hs x) = length hs"
  by (auto simp: forget_def)

lemma references_forget:
  assumes "x < length hs" and "m_string_reference (hs ! x) = Some r"
  shows "references (forget hs x) r = references hs r - 1"
    and "q \<noteq> r \<Longrightarrow> references (forget hs x) q = references hs q"
  using references_update [OF assms(1), of "(hs ! x)\<lparr>m_string_reference := None\<rparr>" r]
    references_update [OF assms(1), of "(hs ! x)\<lparr>m_string_reference := None\<rparr>" q] assms(2)
  by (simp_all add: forget_def)

lemma forget_views:
  assumes "store_inv st" and "h \<in> set (forget (vars st) x)" and "m_string_reference h = Some q"
  shows "q < cache_capacity (string_pool st) \<and> m_start_index h + m_length h \<le> length (sr_data (ref_at st q))"
proof -
  have "h \<in> set (vars st)"
    using assms(2, 3) set_update_subset_insert [of "vars st" x "(vars st ! x)\<lparr>m_string_reference := None\<rparr>"]
    by (auto simp: forget_def)
  then obtain y where "y < length (vars st)" "vars st ! y = h" by (auto simp: in_set_conv_nth)
  with store_inv_view(1, 2) [OF assms(1)] assms(3) show ?thesis by auto
qed

lemma last_release_inv:
  assumes "store_inv st" and "x < length (vars st)" and "m_string_reference (vars st ! x) = Some r"
    and "references (vars st) r = 1"
  defines "st1 \<equiv> update_ref st r ((ref_at st r)\<lparr>sr_count := 0\<rparr>)"
  shows "\<exists>p. cache_release id (string_pool st1) (Some r) = Inr p \<and>
    store_inv (st1\<lparr>string_pool := p, vars := forget (vars st) x\<rparr>) \<and>
    (\<forall>q. q \<noteq> r \<longrightarrow> pool_data p ! q = ref_at st q)"
proof -
  note v = store_inv_view [OF assms(1, 2, 3)] and len = store_inv_length [OF assms(1)]
  let ?p = "string_pool st1"
  have inv: "cache_inv ?p" "distinct (cache_free ?p)" "set (cache_free ?p) \<subseteq> {0..<cache_capacity ?p}"
    using assms(1) by (simp_all add: st1_def store_inv_def)
  have cap: "cache_capacity ?p = cache_capacity (string_pool st)" "cache_free ?p = cache_free (string_pool st)"
    by (simp_all add: st1_def)
  have room: "length (cache_free ?p) < cache_capacity ?p"
  proof -
    have "set (cache_free ?p) \<subseteq> {0..<cache_capacity ?p} - {r}" using inv(3) v(3) cap by auto
    then have "card (set (cache_free ?p)) \<le> card ({0..<cache_capacity ?p} - {r})" by (intro card_mono) auto
    then show ?thesis using distinct_card [OF inv(2)] v(1) cap by simp
  qed
  define p where "p = cache_put id ?p r"
  have put: "cache_inv p" "cache_free p = cache_free ?p @ [r]" "cache_capacity p = cache_capacity ?p"
    using cache.put [OF inv(1) room, of r id] v(1, 3) cap by (simp_all add: p_def)
  have valid: "is_valid_pool_pointer (Some r) ?p"
    using v(1) len by (simp add: is_valid_pool_pointer_def st1_def)
  have rel: "cache_release id ?p (Some r) = Inr p"
    using valid by (simp add: p_def cache_put_def cache_release_def)
  have dt: "pool_data p = (pool_data (string_pool st))[r := (ref_at st r)\<lparr>sr_count := 0\<rparr>]"
    using rel valid v(1) len by (auto simp: cache_release_def st1_def)
  note refs = references_forget [OF assms(2, 3)]
  let ?hs = "forget (vars st) x"
  have "counts_ok p ?hs"
    unfolding counts_ok_def
  proof (intro allI impI)
    fix q assume q: "q < cache_capacity p"
    show "(q \<in> set (cache_free p) \<longleftrightarrow> references ?hs q = 0) \<and>
      (references ?hs q \<noteq> 0 \<longrightarrow> sr_count (pool_data p ! q) = references ?hs q)"
    proof (cases "q = r")
      case True
      then show ?thesis using refs(1) assms(4) put(2) by simp
    next
      case False
      then show ?thesis
        using assms(1) q put(2, 3) cap refs(2) [OF False] by (simp add: store_inv_def counts_ok_def dt)
    qed
  qed
  moreover have "view_ok p h" if "h \<in> set ?hs" for h
  proof (cases "m_string_reference h")
    case (Some q)
    note fv = forget_views [OF assms(1) that Some]
    then have "sr_data (pool_data p ! q) = sr_data (ref_at st q)" using len by (cases "q = r") (simp_all add: dt)
    with fv Some put(3) cap show ?thesis by (simp add: view_ok_def)
  qed (simp add: view_ok_def)
  moreover have "distinct (cache_free p)" "set (cache_free p) \<subseteq> {0..<cache_capacity p}"
    using put inv v(1, 3) cap by simp_all
  ultimately have "store_inv (st1\<lparr>string_pool := p, vars := ?hs\<rparr>)" using put(1) by (simp add: store_inv_def)
  then show ?thesis using rel by (auto simp: dt)
qed

lemma release_inv:
  assumes "store_inv st" and "x < length (vars st)"
  shows "\<exists>st'. check_release_current_data st x = Inr st' \<and> store_inv st' \<and> length (vars st') = length (vars st) \<and>
    m_string_reference (vars st' ! x) = None \<and>
    (\<forall>y < length (vars st). y \<noteq> x \<longrightarrow> same_var st st' y)"
proof (cases "m_string_reference (vars st ! x)")
  case None
  then show ?thesis using assms(1) by (auto simp: check_release_current_data_def same_var_def)
next
  case (Some r)
  note v = store_inv_view [OF assms Some] and len = store_inv_length [OF assms(1)]
  note refs = references_forget [OF assms(2) Some]
  show ?thesis
  proof (cases "references (vars st) r = 1")
    case True
    then obtain p where p: "cache_release id (string_pool (update_ref st r ((ref_at st r)\<lparr>sr_count := 0\<rparr>))) (Some r) = Inr p"
      "store_inv ((update_ref st r ((ref_at st r)\<lparr>sr_count := 0\<rparr>))\<lparr>string_pool := p, vars := forget (vars st) x\<rparr>)"
      "\<forall>q. q \<noteq> r \<longrightarrow> pool_data p ! q = ref_at st q"
      using last_release_inv [OF assms Some] by blast
    let ?st' = "(update_ref st r ((ref_at st r)\<lparr>sr_count := 0\<rparr>))\<lparr>string_pool := p, vars := forget (vars st) x\<rparr>"
    have "check_release_current_data st x = Inr ?st'"
      using Some True v(4) p(1) by (simp add: check_release_current_data_def Let_def forget_def)
    moreover have "same_var st ?st' y" if "y < length (vars st)" "y \<noteq> x" for y
    proof (rule same_varI)
      show "vars ?st' ! y = vars st ! y" using that by simp
      fix q assume q: "m_string_reference (vars st ! y) = Some q"
      have "q \<noteq> r"
      proof
        assume "q = r"
        with q have "m_string_reference (vars st ! y) = Some r" by simp
        then have "0 < references (forget (vars st) x) r"
          using references_pos [of y "forget (vars st) x" r] that by simp
        with refs(1) True show False by simp
      qed
      then show "sr_data (ref_at ?st' q) = sr_data (ref_at st q)" using p(3) by simp
    qed
    ultimately show ?thesis using p(2) assms(2)
      by (intro exI [of _ ?st']) (simp add: forget_def)
  next
    case False
    with v(5) have many: "references (forget (vars st) x) r \<noteq> 0" using refs(1) by simp
    let ?st' = "(update_ref st r ((ref_at st r)\<lparr>sr_count := references (forget (vars st) x) r\<rparr>))\<lparr>vars := forget (vars st) x\<rparr>"
    have "check_release_current_data st x = Inr ?st'"
      using Some False v(4) refs(1) by (simp add: check_release_current_data_def Let_def forget_def)
    moreover have "store_inv ?st'"
      by (rule recount_inv [OF assms(1) v(1, 3) refs(2) many forget_views [OF assms(1)]])
    moreover have "same_var st ?st' y" if "y < length (vars st)" "y \<noteq> x" for y
    proof (rule same_varI)
      show "vars ?st' ! y = vars st ! y" using that by simp
      fix q show "sr_data (ref_at ?st' q) = sr_data (ref_at st q)"
        using v(1) len by (cases "q = r") simp_all
    qed
    ultimately show ?thesis using assms(2)
      by (intro exI [of _ ?st']) (simp add: forget_def)
  qed
qed

lemma same_var_trans: "same_var a b y \<Longrightarrow> same_var b c y \<Longrightarrow> same_var a c y"
  by (simp add: same_var_def)

lemma assign_inv:
  assumes "store_inv st" and "x < length (vars st)" and "y < length (vars st)" and "x \<noteq> y"
    and "m_string_reference (vars st ! y) \<noteq> None"
  shows "\<exists>st'. assign st x y = Inr st' \<and> store_inv st' \<and> length (vars st') = length (vars st) \<and>
    vars st' ! x = vars st ! y \<and> data_of st' x = data_of st y \<and>
    (\<forall>z < length (vars st). z \<noteq> x \<longrightarrow> same_var st st' z)"
proof -
  obtain st1 where st1: "check_release_current_data st x = Inr st1" "store_inv st1"
    "length (vars st1) = length (vars st)" "m_string_reference (vars st1 ! x) = None"
    "\<forall>z < length (vars st). z \<noteq> x \<longrightarrow> same_var st st1 z"
    using release_inv [OF assms(1, 2)] by blast
  have y1: "same_var st st1 y" using st1(5) assms(3, 4) by auto
  then have src: "vars st1 ! y = vars st ! y" by (simp add: same_var_def)
  with assms(5) obtain r where r: "m_string_reference (vars st1 ! y) = Some r" by auto
  have y: "y < length (vars st1)" and x: "x < length (vars st1)" using assms(2, 3) st1(3) by simp_all
  note v = store_inv_view [OF st1(2) y r] and len = store_inv_length [OF st1(2)]
  let ?hs = "(vars st1)[x := vars st1 ! y]"
  have refs: "references ?hs q = references (vars st1) q + (if q = r then 1 else 0)" for q
    using references_update [OF x, of "vars st1 ! y" q] st1(4) r by (auto split: if_splits)
  let ?st' = "(update_ref st1 r ((ref_at st1 r)\<lparr>sr_count := references ?hs r\<rparr>))\<lparr>vars := ?hs\<rparr>"
  have run: "assign st x y = Inr ?st'"
    using st1(1) r v(4) refs [of r] by (simp add: assign_def retain_def Let_def)
  have "store_inv ?st'"
  proof (rule recount_inv [OF st1(2) v(1, 3)])
    show "references ?hs q = references (vars st1) q" if "q \<noteq> r" for q using refs [of q] that by simp
    show "references ?hs r \<noteq> 0" using refs [of r] by simp
    fix h q assume h: "h \<in> set ?hs" "m_string_reference h = Some q"
    then have "h \<in> set (vars st1)" using set_update_subset_insert [of "vars st1" x "vars st1 ! y"] y by auto
    then obtain z where "z < length (vars st1)" "vars st1 ! z = h" by (auto simp: in_set_conv_nth)
    with store_inv_view(1, 2) [OF st1(2)] h(2)
    show "q < cache_capacity (string_pool st1) \<and> m_start_index h + m_length h \<le> length (sr_data (ref_at st1 q))"
      by auto
  qed
  moreover have dt: "sr_data (ref_at ?st' q) = sr_data (ref_at st1 q)" for q
    using v(1) len by (cases "q = r") simp_all
  moreover have "same_var st ?st' z" if "z < length (vars st)" "z \<noteq> x" for z
  proof (rule same_var_trans)
    show "same_var st st1 z" using st1(5) that by simp
    show "same_var st1 ?st' z" by (rule same_varI) (use that dt in simp_all)
  qed
  moreover have "data_of ?st' x = data_of st1 y" using r x dt by (simp add: data_of_def Let_def)
  moreover have "data_of st1 y = data_of st y" using y1 by (simp add: same_var_def)
  ultimately show ?thesis using run src x st1(3) by (intro exI [of _ ?st']) simp
qed

text \<open>The operations of a program that does not assign a variable to itself.\<close>

inductive string_step :: "string_store \<Rightarrow> string_store \<Rightarrow> bool" where
  construct: "construct st s = Inr st' \<Longrightarrow> string_step st st'"
| copy: "x < length (vars st) \<Longrightarrow> copy_construct st x = Inr st' \<Longrightarrow> string_step st st'"
| assign: "x < length (vars st) \<Longrightarrow> y < length (vars st) \<Longrightarrow> x \<noteq> y \<Longrightarrow> assign st x y = Inr st' \<Longrightarrow> string_step st st'"
| substr: "x < length (vars st) \<Longrightarrow> from_substr st x i n = Inr st' \<Longrightarrow> string_step st st'"
| destroy: "x < length (vars st) \<Longrightarrow> destroy st x = Inr st' \<Longrightarrow> string_step st st'"

lemma copy_construct_ref: "copy_construct st x = Inr st' \<Longrightarrow> \<exists>r. m_string_reference (vars st ! x) = Some r"
  by (auto simp: copy_construct_def retain_def split: option.splits)

lemma assign_ref:
  assumes "store_inv st" and "x < length (vars st)" and "y < length (vars st)" and "x \<noteq> y" and "assign st x y = Inr st'"
  shows "m_string_reference (vars st ! y) \<noteq> None"
proof -
  obtain st1 where "check_release_current_data st x = Inr st1"
    "\<forall>z < length (vars st). z \<noteq> x \<longrightarrow> same_var st st1 z"
    using release_inv [OF assms(1, 2)] by blast
  with assms(3, 4, 5) show ?thesis
    by (auto simp: assign_def Let_def retain_def same_var_def split: option.splits)
qed

lemma string_step_inv:
  assumes "string_step st st'" and "store_inv st"
  shows "store_inv st'"
  using assms
proof (induction rule: string_step.induct)
  case (construct st s st')
  then show ?case using construct_inv(1) by blast
next
  case (copy x st st')
  then obtain r where r: "m_string_reference (vars st ! x) = Some r" using copy_construct_ref by blast
  show ?case
    by (rule derive_inv(1) [OF copy.prems copy.hyps(1) r r])
      (use copy store_inv_view(2) [OF copy.prems copy.hyps(1) r] copy_construct_eq [OF r] in simp_all)
next
  case (assign x st y st')
  then show ?case using assign_inv [OF assign.prems assign.hyps(1, 2, 3)] assign_ref [OF assign.prems assign.hyps] by auto
next
  case (substr x st i n st')
  have fits: "i + n \<le> m_length (vars st ! x)" and "\<exists>st1. copy_construct st x = Inr st1"
    using substr.hyps(2) by (auto simp: from_substr_def Let_def split: if_splits)
  then obtain r where r: "m_string_reference (vars st ! x) = Some r" using copy_construct_ref by blast
  have st': "st' = (update_ref st r ((ref_at st r)\<lparr>sr_count := sr_count (ref_at st r) + 1\<rparr>))
    \<lparr>vars := vars st @ [(vars st ! x)\<lparr>m_start_index := m_start_index (vars st ! x) + i, m_length := n\<rparr>]\<rparr>"
    using substr.hyps(2) from_substr_eq [OF r fits] by simp
  show ?case
    by (rule derive_inv(1) [OF substr.prems substr.hyps(1) r _ _ st'])
      (use r fits store_inv_view(2) [OF substr.prems substr.hyps(1) r] in simp_all)
next
  case (destroy x st st')
  then show ?case using release_inv [OF destroy.prems destroy.hyps(1)] by (auto simp: destroy_def)
qed

lemma new_store_inv:
  assumes "0 < n" and "n < 2 ^ 64"
  shows "store_inv (new_store n)"
proof -
  note new = new_cache_pool_inv [OF assms, of "''StringReference''" "\<lparr>sr_data = [], sr_count = 0\<rparr>"]
  then show ?thesis by (simp add: store_inv_def new_store_def counts_ok_def references_def)
qed

section \<open>Properties\<close>


definition demo_store :: "cpp_error + string_store" where
  "demo_store = sum_bind (construct (new_store 2) ''hello'') (\<lambda>st. from_substr st 0 1 3)"

lemma demo_store_eq:
  "\<exists>st. demo_store = Inr st \<and> string_step\<^sup>*\<^sup>* (new_store 2) st \<and> length (vars st) = 2 \<and>
     m_string_reference (vars st ! 1) = Some 0 \<and> data_of st 1 = Inr ''ell'' \<and>
     m_start_index (vars st ! 0) = 0 \<and> m_length (vars st ! 0) = 5"
proof -
  obtain st1 where st1: "construct (new_store 2) ''hello'' = Inr st1" "length (vars st1) = 1"
    "m_string_reference (vars st1 ! 0) = Some 0" "m_start_index (vars st1 ! 0) = 0" "m_length (vars st1 ! 0) = 5"
    "sr_data (ref_at st1 0) = ''hello''" "length (pool_data (string_pool st1)) = 2"
    by (simp add: construct_def cache_acquire_def new_store_def new_cache_pool_def buffer_take_def
        new_pool_buffer_def get_current_head_def update_ref_def)
  obtain st2 where st2: "from_substr st1 0 1 3 = Inr st2" "length (vars st2) = 2"
    "m_string_reference (vars st2 ! 1) = Some 0" "data_of st2 1 = Inr ''ell''"
    "m_start_index (vars st2 ! 0) = 0" "m_length (vars st2 ! 0) = 5"
    using st1 from_substr_eq [of st1 0 0 1 3]
    by (simp add: data_of_def Let_def nth_append)
  have "string_step (new_store 2) st1" by (rule string_step.construct [OF st1(1)])
  moreover have "string_step st1 st2" using string_step.substr [of 0 st1 1 3 st2] st1(2) st2(1) by simp
  ultimately have "string_step\<^sup>*\<^sup>* (new_store 2) st2" by (meson r_into_rtranclp rtranclp_trans)
  with st1(1) st2 show ?thesis by (auto simp: demo_store_def)
qed


text \<open>
  \<^verbatim>\<open>from_substr\<close> gives exactly the requested part of the text. \<^verbatim>\<open>from_substr_with_end\<close> counts
  the character at the end index, yet accepts an end index equal to the length: the new string
  then shows the character of the underlying string just past the end of the old one.
\<close>

theorem substrings_and_off_by_one:
  assumes "store_inv st" and "x < length (vars st)" and "data_of st x = Inr shown"
    and "m_string_reference (vars st ! x) = Some r"
  shows "(i + n \<le> length shown \<longrightarrow>
      (\<exists>st'. from_substr st x i n = Inr st' \<and> data_of st' (length (vars st)) = Inr (take n (drop i shown)))) \<and>
    (length shown < i + n \<longrightarrow> (\<exists>e. from_substr st x i n = Inl e)) \<and>
    (i < length shown \<longrightarrow>
      (\<exists>st'. from_substr_with_end st x i (length shown) = Inr st' \<and>
        data_of st' (length (vars st)) =
          Inr (drop i shown @ take 1 (drop (m_start_index (vars st ! x) + length shown) (sr_data (ref_at st r))))))"
proof (intro conjI impI)
  let ?h = "vars st ! x" and ?s = "sr_data (ref_at st r)"
  note v = store_inv_view [OF assms(1, 2, 4)] and len = store_inv_length [OF assms(1)]
  have shown_eq: "shown = take (m_length ?h) (drop (m_start_index ?h) ?s)"
    using assms(3, 4) v(2) by (simp add: data_of_def Let_def)
  then have n: "length shown = m_length ?h" using v(2) by simp
  show "\<exists>st'. from_substr st x i n = Inr st' \<and> data_of st' (length (vars st)) = Inr (take n (drop i shown))"
    if "i + n \<le> length shown"
  proof -
    have fits: "i + n \<le> m_length ?h" using that n by simp
    let ?h' = "?h\<lparr>m_start_index := m_start_index ?h + i, m_length := n\<rparr>"
    have "take n (drop (m_start_index ?h + i) ?s) = take n (drop i shown)"
      using fits by (simp add: shown_eq take_drop add.commute)
    then show ?thesis
      using from_substr_eq [OF assms(4) fits] derive_inv(3) [OF assms(1, 2, 4), of ?h'] fits v(2) assms(4) by auto
  qed
  show "length shown < i + n \<Longrightarrow> \<exists>e. from_substr st x i n = Inl e"
    using n by (simp add: from_substr_def Let_def)
  show "\<exists>st'. from_substr_with_end st x i (length shown) = Inr st' \<and>
        data_of st' (length (vars st)) = Inr (drop i shown @ take 1 (drop (m_start_index ?h + length shown) ?s))"
    if i: "i < length shown"
  proof -
    have "drop (m_start_index ?h + i) ?s = drop i (take (m_length ?h) (drop (m_start_index ?h) ?s))
        @ drop (m_start_index ?h + m_length ?h) ?s"
      using i n v(2) append_take_drop_id [of "m_length ?h - i" "drop (m_start_index ?h + i) ?s"]
      by (simp add: drop_take add.commute)
    then have "take (m_length ?h - i + 1) (drop (m_start_index ?h + i) ?s)
        = drop i shown @ take 1 (drop (m_start_index ?h + length shown) ?s)"
      using i n shown_eq by simp
    then show ?thesis
      using i n v(1, 2) assms(4) len
      by (simp add: from_substr_with_end_def copy_construct_eq data_of_def Let_def)
  qed
qed

theorem substrings_and_off_by_one_witness:
  "\<exists>st st'. string_step\<^sup>*\<^sup>* (new_store 2) st \<and> data_of st 1 = Inr ''ell'' \<and>
     from_substr_with_end st 1 0 3 = Inr st' \<and> data_of st' 2 = Inr ''ello''"
proof -
  obtain st1 where st1: "string_step\<^sup>*\<^sup>* (new_store 2) st1" "length (vars st1) = 2" "data_of st1 1 = Inr ''ell''"
    "m_string_reference (vars st1 ! 1) = Some 0" "m_start_index (vars st1 ! 1) = 1" "sr_data (ref_at st1 0) = ''hello''"
    "demo_store = Inr st1"
    using demo_store_eq
    by (auto simp: demo_store_def construct_def cache_acquire_def new_store_def new_cache_pool_def buffer_take_def
        new_pool_buffer_def get_current_head_def update_ref_def from_substr_def copy_construct_def retain_def Let_def)
  have inv: "store_inv st1" using st1(1) new_store_inv [of 2]
    by (induction rule: rtranclp_induct) (auto intro: string_step_inv)
  obtain st' where "from_substr_with_end st1 1 0 (length ''ell'') = Inr st'"
    "data_of st' (length (vars st1)) = Inr (drop 0 ''ell'' @ take 1 (drop (m_start_index (vars st1 ! 1) + length ''ell'') (sr_data (ref_at st1 0))))"
    using substrings_and_off_by_one [OF inv _ st1(3, 4), of 0] st1(2) by auto
  then have "from_substr_with_end st1 1 0 3 = Inr st'" "data_of st' 2 = Inr ''ello''"
    using st1(2, 5, 6) by (simp_all add: numeral_3_eq_3)
  then show ?thesis using st1(1, 3) by blast
qed

text \<open>
  Assigning a shared string to itself dereferences a null pointer: the assignment
  releases the reference of the target before it reads the source. Assigning another live
  string gives the target its text.
\<close>

lemma self_assignment_dereferences_null:
  assumes "store_inv st" and "x < length (vars st)" and "y < length (vars st)"
  shows "assign st x x = Inl UB_null_pointer \<and>
    (x \<noteq> y \<longrightarrow> m_string_reference (vars st ! y) \<noteq> None \<longrightarrow>
      (\<exists>st'. assign st x y = Inr st' \<and> data_of st' x = data_of st y \<and> data_of st' y = data_of st y))"
proof (intro conjI impI)
  show "assign st x x = Inl UB_null_pointer"
    using release_inv [OF assms(1, 2)] by (auto simp: assign_def Let_def retain_def)
  show "\<exists>st'. assign st x y = Inr st' \<and> data_of st' x = data_of st y \<and> data_of st' y = data_of st y"
    if "x \<noteq> y" "m_string_reference (vars st ! y) \<noteq> None"
    using assign_inv [OF assms that] assms(3) that(1) by (auto simp: same_var_def)
qed

end
