(* ===== verification/MPSC_Queue.thy ===== *)
theory MPSC_Queue
  imports Prelude "HOL-Library.Sublist"
begin

text \<open>
  The bounded queue with many producers and one consumer that carries tasks to the event loops
  (\<^verbatim>\<open>src/core/queue/mpsc_queue.h\<close>). Every atomic operation of \<^verbatim>\<open>push\<close> and \<^verbatim>\<open>pop\<close> is one step;
  a program counter per thread says which comes next, and the steps of the threads interleave
  freely, with sequentially consistent memory. \<open>None\<close> is the null value of the element type;
  \<open>q_pointer_type\<close> says whether that type is a pointer, in which case \<^verbatim>\<open>push\<close> refuses null.
  The counters are the 64-bit words of the code.
\<close>

section \<open>Definitions\<close>

record 'a mpsc_slot =
  slot_sequence :: u64
  slot_value :: "'a option"

record 'a MPSCQueue =
  q_name :: string
  q_pointer_type :: bool
  q_slots :: "'a mpsc_slot list"
  q_head :: u64
  q_size :: u64
  q_tail :: u64

definition new_queue :: "string \<Rightarrow> bool \<Rightarrow> nat \<Rightarrow> 'a MPSCQueue" where
  "new_queue nm ptr n =
     \<lparr>q_name = nm, q_pointer_type = ptr,
      q_slots = map (\<lambda>i. \<lparr>slot_sequence = of_nat i, slot_value = None\<rparr>) [0..<n],
      q_head = 0, q_size = 0, q_tail = 0\<rparr>"

text \<open>Between two atomic operations of \<^verbatim>\<open>push\<close> and of \<^verbatim>\<open>pop\<close>.\<close>

datatype 'a push_pc =
    Push_idle
  | Push_enter "'a option"
  | Push_at "'a option" u64
  | Push_seen "'a option" u64 u64
  | Push_claimed "'a option" u64
  | Push_written u64
  | Push_published

datatype 'a pop_pc =
    Pop_idle
  | Pop_seen u64
  | Pop_took "'a option"
  | Pop_freed "'a option"
  | Pop_moved "'a option"

text \<open>What a step shows to the outside.\<close>

datatype 'a queue_event =
    Internal
  | Claimed "'a option"
  | Returned_null
  | Returned "'a option"
  | Thrown cpp_error

definition slot_index :: "'a MPSCQueue \<Rightarrow> u64 \<Rightarrow> nat" where
  "slot_index q pos = unat pos mod length (q_slots q)"

definition slot_at :: "'a MPSCQueue \<Rightarrow> u64 \<Rightarrow> 'a mpsc_slot" where
  "slot_at q pos = q_slots q ! slot_index q pos"

definition set_slot :: "'a MPSCQueue \<Rightarrow> u64 \<Rightarrow> 'a mpsc_slot \<Rightarrow> 'a MPSCQueue" where
  "set_slot q pos sl = q\<lparr>q_slots := (q_slots q)[slot_index q pos := sl]\<rparr>"

text \<open>
  \<^verbatim>\<open>push\<close>. The argument \<open>spurious\<close> is whether a \<^verbatim>\<open>compare_exchange_weak\<close> fails although the value
  is the expected one; a failed exchange loads the current head into \<^verbatim>\<open>pos\<close>.
\<close>

fun push_step :: "bool \<Rightarrow> 'a MPSCQueue \<Rightarrow> 'a push_pc \<Rightarrow> 'a MPSCQueue \<times> 'a push_pc \<times> 'a queue_event" where
  "push_step spurious q Push_idle = (q, Push_idle, Internal)"
| "push_step spurious q (Push_enter item) =
     (if q_pointer_type q \<and> item = None
      then (q, Push_idle, Thrown (Runtime_error
              (''Attempt to release a null item back to the cache pool: ['' @ q_name q @ '']'')))
      else (q, Push_at item (q_head q), Internal))"
| "push_step spurious q (Push_at item pos) = (q, Push_seen item pos (slot_sequence (slot_at q pos)), Internal)"
| "push_step spurious q (Push_seen item pos seq) =
     (let diff = sint seq - sint pos
      in if diff = 0 then
           (if q_head q = pos \<and> \<not> spurious
            then (q\<lparr>q_head := pos + 1\<rparr>, Push_claimed item pos, Claimed item)
            else (q, Push_at item (q_head q), Internal))
         else if diff < 0 then (q, Push_idle, Thrown (Runtime_error (''Queue is full: ['' @ q_name q @ '']'')))
         else (q, Push_at item (q_head q), Internal))"
| "push_step spurious q (Push_claimed item pos) =
     (set_slot q pos ((slot_at q pos)\<lparr>slot_value := item\<rparr>), Push_written pos, Internal)"
| "push_step spurious q (Push_written pos) =
     (set_slot q pos ((slot_at q pos)\<lparr>slot_sequence := pos + 1\<rparr>), Push_published, Internal)"
| "push_step spurious q Push_published = (q\<lparr>q_size := q_size q + 1\<rparr>, Push_idle, Internal)"

text \<open>\<^verbatim>\<open>pop\<close>, which one thread calls.\<close>

fun pop_step :: "'a MPSCQueue \<Rightarrow> 'a pop_pc \<Rightarrow> 'a MPSCQueue \<times> 'a pop_pc \<times> 'a queue_event" where
  "pop_step q Pop_idle = (q, Pop_seen (slot_sequence (slot_at q (q_tail q))), Internal)"
| "pop_step q (Pop_seen seq) =
     (let pos = q_tail q; diff = sint seq - sint (pos + 1)
      in if diff = 0
         then (set_slot q pos ((slot_at q pos)\<lparr>slot_value := None\<rparr>), Pop_took (slot_value (slot_at q pos)), Internal)
         else (q, Pop_idle, Returned_null))"
| "pop_step q (Pop_took item) =
     (let pos = q_tail q
      in (set_slot q pos ((slot_at q pos)\<lparr>slot_sequence := pos + of_nat (length (q_slots q))\<rparr>), Pop_freed item, Internal))"
| "pop_step q (Pop_freed item) = (q\<lparr>q_tail := q_tail q + 1\<rparr>, Pop_moved item, Internal)"
| "pop_step q (Pop_moved item) = (q\<lparr>q_size := q_size q - 1\<rparr>, Pop_idle, Returned item)"

type_synonym 'a queue_state = "'a MPSCQueue \<times> 'a push_pc list \<times> 'a pop_pc"

inductive queue_step :: "'a queue_state \<Rightarrow> 'a queue_event \<Rightarrow> 'a queue_state \<Rightarrow> bool" where
  call_push: "t < length ps \<Longrightarrow> ps ! t = Push_idle \<Longrightarrow>
    queue_step (q, ps, c) Internal (q, ps[t := Push_enter item], c)"
| step_push: "t < length ps \<Longrightarrow> ps ! t \<noteq> Push_idle \<Longrightarrow> push_step spurious q (ps ! t) = (q', pc, e) \<Longrightarrow>
    queue_step (q, ps, c) e (q', ps[t := pc], c)"
| step_pop: "pop_step q c = (q', c', e) \<Longrightarrow> queue_step (q, ps, c) e (q', ps, c')"

inductive queue_run :: "'a queue_state \<Rightarrow> 'a queue_event list \<Rightarrow> 'a queue_state \<Rightarrow> bool" for s0 where
  start: "queue_run s0 [] s0"
| step: "queue_run s0 es s \<Longrightarrow> queue_step s e s' \<Longrightarrow> queue_run s0 (es @ [e]) s'"

text \<open>The items in the order in which \<^verbatim>\<open>push\<close> claimed their places, and in the order \<^verbatim>\<open>pop\<close> returned them.\<close>

fun pushed :: "'a queue_event list \<Rightarrow> 'a option list" where
  "pushed [] = []"
| "pushed (Claimed x # es) = x # pushed es"
| "pushed (_ # es) = pushed es"

fun popped :: "'a queue_event list \<Rightarrow> 'a option list" where
  "popped [] = []"
| "popped (Returned x # es) = x # popped es"
| "popped (_ # es) = popped es"

definition new_system :: "string \<Rightarrow> bool \<Rightarrow> nat \<Rightarrow> nat \<Rightarrow> 'a queue_state" where
  "new_system nm ptr n threads = (new_queue nm ptr n, replicate threads Push_idle, Pop_idle)"

section \<open>Positions\<close>

lemma pushed_append [simp]: "pushed (es @ es') = pushed es @ pushed es'"
  by (induction es rule: pushed.induct) auto

lemma popped_append [simp]: "popped (es @ es') = popped es @ popped es'"
  by (induction es rule: popped.induct) auto

abbreviation at_pos :: "nat \<Rightarrow> u64" where
  "at_pos p \<equiv> of_nat p"

lemma at_pos_unat: "p < 2 ^ 63 \<Longrightarrow> unat (at_pos p) = p"
  by (simp add: unsigned_of_nat take_bit_nat_eq_self)

lemma at_pos_eq_iff: "p < 2 ^ 63 \<Longrightarrow> r < 2 ^ 63 \<Longrightarrow> at_pos p = at_pos r \<longleftrightarrow> p = r"
  by (metis at_pos_unat)

lemma at_pos_sint: "p < 2 ^ 63 \<Longrightarrow> sint (at_pos p) = int p"
  by (simp add: signed_of_nat signed_take_bit_int_eq_self)

lemma mod_window:
  assumes "(f :: nat) \<le> p" "p < f + n" "f \<le> r" "r < f + n" "p mod n = r mod n"
  shows "p = r"
proof -
  have *: "a = b" if "a \<le> b" "f \<le> a" "b < f + n" "a mod n = b mod n" for a b
  proof -
    have "n dvd b - a" using that by (metis mod_eq_dvd_iff_nat)
    moreover have "b - a < n" using that by simp
    ultimately show ?thesis using that(1) by (auto dest: dvd_imp_le)
  qed
  show ?thesis using *[of p r] *[of r p] assms by (metis nat_le_linear)
qed

section \<open>Invariant\<close>

text \<open>
  \<open>xs\<close> are the items claimed so far, in order: item number \<open>p\<close> belongs to slot \<open>p mod n\<close>. \<open>T\<close> is
  the number of items the consumer is past. A producer has a position in flight from its
  successful exchange of the head until it publishes the slot.
\<close>

fun flight :: "'a push_pc \<Rightarrow> u64 option" where
  "flight (Push_claimed item pos) = Some pos"
| "flight (Push_written pos) = Some pos"
| "flight _ = None"

fun unfinished :: "'a push_pc \<Rightarrow> bool" where
  "unfinished (Push_claimed item pos) = True"
| "unfinished (Push_written pos) = True"
| "unfinished Push_published = True"
| "unfinished _ = False"

definition in_flight :: "'a push_pc list \<Rightarrow> nat \<Rightarrow> bool" where
  "in_flight ps p \<longleftrightarrow> (\<exists>t < length ps. flight (ps ! t) = Some (at_pos p))"

definition flights_distinct :: "'a push_pc list \<Rightarrow> bool" where
  "flights_distinct ps \<longleftrightarrow>
     (\<forall>t < length ps. \<forall>u < length ps. t \<noteq> u \<longrightarrow> flight (ps ! t) \<noteq> None \<longrightarrow> flight (ps ! t) \<noteq> flight (ps ! u))"

fun freed :: "'a pop_pc \<Rightarrow> nat \<Rightarrow> nat" where
  "freed (Pop_freed item) T = Suc T"
| "freed _ T = T"

fun delivered :: "'a pop_pc \<Rightarrow> nat \<Rightarrow> nat" where
  "delivered (Pop_moved item) T = T - 1"
| "delivered _ T = T"

fun took :: "'a pop_pc \<Rightarrow> bool" where
  "took (Pop_took item) = True"
| "took _ = False"

definition counters_ok :: "'a option list \<Rightarrow> nat \<Rightarrow> 'a MPSCQueue \<Rightarrow> 'a pop_pc \<Rightarrow> bool" where
  "counters_ok xs T q c \<longleftrightarrow>
     1 < length (q_slots q) \<and> length xs + length (q_slots q) < 2 ^ 63 \<and>
     q_head q = at_pos (length xs) \<and> q_tail q = at_pos T \<and>
     freed c T \<le> length xs \<and> length xs \<le> freed c T + length (q_slots q)"

definition sequences_ok :: "'a option list \<Rightarrow> nat \<Rightarrow> 'a MPSCQueue \<Rightarrow> 'a push_pc list \<Rightarrow> bool" where
  "sequences_ok xs f q ps \<longleftrightarrow>
     (\<forall>p. f \<le> p \<longrightarrow> p < f + length (q_slots q) \<longrightarrow>
        slot_sequence (q_slots q ! (p mod length (q_slots q)))
          = at_pos (if p < length xs \<and> \<not> in_flight ps p then Suc p else p))"

definition values_ok :: "'a option list \<Rightarrow> nat \<Rightarrow> 'a MPSCQueue \<Rightarrow> 'a push_pc list \<Rightarrow> 'a pop_pc \<Rightarrow> bool" where
  "values_ok xs f q ps c \<longleftrightarrow>
     (\<forall>p. f \<le> p \<longrightarrow> p < length xs \<longrightarrow> \<not> in_flight ps p \<longrightarrow> \<not> (p = f \<and> took c) \<longrightarrow>
        slot_value (q_slots q ! (p mod length (q_slots q))) = xs ! p)"

fun producer_ok :: "'a option list \<Rightarrow> nat \<Rightarrow> 'a MPSCQueue \<Rightarrow> 'a push_pc \<Rightarrow> bool" where
  "producer_ok xs f q (Push_at item pos) \<longleftrightarrow> (\<exists>p \<le> length xs. pos = at_pos p)"
| "producer_ok xs f q (Push_seen item pos seq) \<longleftrightarrow>
     (\<exists>p \<le> length xs. pos = at_pos p \<and> (seq = pos \<longrightarrow> p < f + length (q_slots q)))"
| "producer_ok xs f q (Push_claimed item pos) \<longleftrightarrow>
     (\<exists>p. pos = at_pos p \<and> f \<le> p \<and> p < length xs \<and> item = xs ! p)"
| "producer_ok xs f q (Push_written pos) \<longleftrightarrow>
     (\<exists>p. pos = at_pos p \<and> f \<le> p \<and> p < length xs \<and>
        slot_value (q_slots q ! (p mod length (q_slots q))) = xs ! p)"
| "producer_ok xs f q _ \<longleftrightarrow> True"

fun consumer_ok :: "'a option list \<Rightarrow> nat \<Rightarrow> 'a MPSCQueue \<Rightarrow> 'a pop_pc \<Rightarrow> bool" where
  "consumer_ok xs T q Pop_idle \<longleftrightarrow> True"
| "consumer_ok xs T q (Pop_seen seq) \<longleftrightarrow>
     (seq = at_pos (Suc T) \<longrightarrow> slot_sequence (q_slots q ! (T mod length (q_slots q))) = at_pos (Suc T))"
| "consumer_ok xs T q (Pop_took item) \<longleftrightarrow>
     slot_sequence (q_slots q ! (T mod length (q_slots q))) = at_pos (Suc T) \<and> T < length xs \<and> item = xs ! T"
| "consumer_ok xs T q (Pop_freed item) \<longleftrightarrow> T < length xs \<and> item = xs ! T"
| "consumer_ok xs T q (Pop_moved item) \<longleftrightarrow> 0 < T \<and> T \<le> length xs \<and> item = xs ! (T - 1)"

definition size_ok :: "'a option list \<Rightarrow> nat \<Rightarrow> 'a MPSCQueue \<Rightarrow> 'a push_pc list \<Rightarrow> 'a pop_pc \<Rightarrow> bool" where
  "size_ok xs T q ps c \<longleftrightarrow>
     q_size q + of_nat (length (filter unfinished ps)) + of_nat (delivered c T) = of_nat (length xs)"

definition queue_inv :: "'a option list \<Rightarrow> nat \<Rightarrow> 'a queue_state \<Rightarrow> bool" where
  "queue_inv xs T s = (case s of (q, ps, c) \<Rightarrow>
     counters_ok xs T q c \<and> sequences_ok xs (freed c T) q ps \<and> values_ok xs (freed c T) q ps c \<and>
     (\<forall>t < length ps. producer_ok xs (freed c T) q (ps ! t)) \<and> flights_distinct ps \<and>
     consumer_ok xs T q c \<and> size_ok xs T q ps c)"

lemma queue_invI:
  assumes "counters_ok xs T q c" "sequences_ok xs (freed c T) q ps" "values_ok xs (freed c T) q ps c"
    "\<And>t. t < length ps \<Longrightarrow> producer_ok xs (freed c T) q (ps ! t)" "flights_distinct ps"
    "consumer_ok xs T q c" "size_ok xs T q ps c"
  shows "queue_inv xs T (q, ps, c)"
  using assms by (simp add: queue_inv_def)

lemma queue_invD:
  assumes "queue_inv xs T (q, ps, c)"
  shows "counters_ok xs T q c" "sequences_ok xs (freed c T) q ps" "values_ok xs (freed c T) q ps c"
    "t < length ps \<Longrightarrow> producer_ok xs (freed c T) q (ps ! t)" "flights_distinct ps"
    "consumer_ok xs T q c" "size_ok xs T q ps c"
  using assms by (auto simp: queue_inv_def)

lemma new_system_inv:
  assumes "1 < n" and "n < 2 ^ 63"
  shows "queue_inv [] 0 (new_system nm ptr n threads)"
  using assms
  by (auto simp: new_system_def new_queue_def queue_inv_def counters_ok_def sequences_ok_def values_ok_def
      in_flight_def flights_distinct_def size_ok_def)

subsection \<open>Access to slots\<close>

lemma slot_index_at_pos: "p < 2 ^ 63 \<Longrightarrow> slot_index q (at_pos p) = p mod length (q_slots q)"
  by (simp add: slot_index_def at_pos_unat)

lemma slot_at_pos: "p < 2 ^ 63 \<Longrightarrow> slot_at q (at_pos p) = q_slots q ! (p mod length (q_slots q))"
  by (simp add: slot_at_def slot_index_at_pos)

lemma set_slot_slots:
  "p < 2 ^ 63 \<Longrightarrow> q_slots (set_slot q (at_pos p) sl) = (q_slots q)[p mod length (q_slots q) := sl]"
  by (simp add: set_slot_def slot_index_at_pos)

lemma set_slot_frame [simp]:
  "length (q_slots (set_slot q pos sl)) = length (q_slots q)" "q_head (set_slot q pos sl) = q_head q"
  "q_tail (set_slot q pos sl) = q_tail q" "q_size (set_slot q pos sl) = q_size q"
  by (simp_all add: set_slot_def)

text \<open>A field that a write to a slot does not change is the same in all slots.\<close>

lemma set_slot_field:
  assumes "g sl = g (slot_at q pos)"
  shows "g (q_slots (set_slot q pos sl) ! k) = g (q_slots q ! k)"
  using assms
  by (cases "slot_index q pos < length (q_slots q)"; cases "k = slot_index q pos")
    (simp_all add: set_slot_def slot_at_def list_update_beyond)

text \<open>Inside the window of live positions, different positions have different slots.\<close>

lemma set_slot_window:
  assumes "1 < length (q_slots q)" "p < 2 ^ 63"
    "f \<le> p" "p < f + length (q_slots q)" "f \<le> r" "r < f + length (q_slots q)"
  shows "q_slots (set_slot q (at_pos p) sl) ! (r mod length (q_slots q))
    = (if r = p then sl else q_slots q ! (r mod length (q_slots q)))"
proof -
  have "r mod length (q_slots q) < length (q_slots q)"
    using mod_less_divisor [of "length (q_slots q)" r] assms(1) by linarith
  moreover have "p mod length (q_slots q) \<noteq> r mod length (q_slots q)" if "r \<noteq> p"
    using mod_window assms(3-6) that by metis
  ultimately show ?thesis using assms(2) by (cases "r = p") (simp_all add: set_slot_slots)
qed

lemma in_flight_update:
  "t < length ps \<Longrightarrow> in_flight (ps[t := pc]) p \<longleftrightarrow>
     flight pc = Some (at_pos p) \<or> (\<exists>u < length ps. u \<noteq> t \<and> flight (ps ! u) = Some (at_pos p))"
  by (auto simp: in_flight_def nth_list_update)

lemma flight_same: "flight pc = flight (ps ! t) \<Longrightarrow> flight (ps[t := pc] ! u) = flight (ps ! u)"
  by (cases "t < length ps"; cases "u = t") (simp_all add: list_update_beyond)

lemma in_flight_same: "flight pc = flight (ps ! t) \<Longrightarrow> in_flight (ps[t := pc]) = in_flight ps"
  by (rule ext) (simp add: in_flight_def flight_same)

lemma flights_distinct_same: "flight pc = flight (ps ! t) \<Longrightarrow> flights_distinct (ps[t := pc]) = flights_distinct ps"
  by (simp add: flights_distinct_def flight_same)

lemma in_flight_land:
  assumes "t < length ps" "flights_distinct ps" "flight (ps ! t) = Some (at_pos r)" "flight pc = None"
    and "p < 2 ^ 63" "r < 2 ^ 63"
  shows "in_flight (ps[t := pc]) p \<longleftrightarrow> in_flight ps p \<and> p \<noteq> r"
proof -
  have other: "flight (ps ! u) \<noteq> Some (at_pos r)" if "u < length ps" "u \<noteq> t" for u
    using assms(1-3) that by (force simp: flights_distinct_def)
  have "(\<exists>u < length ps. u \<noteq> t \<and> flight (ps ! u) = Some (at_pos p)) \<longleftrightarrow> in_flight ps p \<and> at_pos p \<noteq> at_pos r"
  proof (cases "at_pos p = at_pos r")
    case True
    then show ?thesis using other by auto
  next
    case False
    then have "u \<noteq> t" if "flight (ps ! u) = Some (at_pos p)" for u using that assms(3) by auto
    then show ?thesis using False by (auto simp: in_flight_def)
  qed
  then show ?thesis using assms(1, 4-6) by (simp add: in_flight_update at_pos_eq_iff)
qed

lemma in_flight_start:
  assumes "t < length ps" "flight (ps ! t) = None" "flight pc = Some (at_pos w)" "w < 2 ^ 63" "r < 2 ^ 63"
  shows "in_flight (ps[t := pc]) r \<longleftrightarrow> r = w \<or> in_flight ps r"
proof -
  have "(\<exists>u < length ps. u \<noteq> t \<and> flight (ps ! u) = Some (at_pos r)) \<longleftrightarrow> in_flight ps r"
    using assms(2) by (auto simp: in_flight_def)
  moreover have "flight pc = Some (at_pos r) \<longleftrightarrow> r = w" using assms(3-5) by (auto simp: at_pos_eq_iff)
  ultimately show ?thesis using assms(1) by (simp only: in_flight_update)
qed

lemma flights_distinct_start:
  assumes "t < length ps" "flights_distinct ps" "flight pc = Some (at_pos w)" "\<not> in_flight ps w"
  shows "flights_distinct (ps[t := pc])"
proof -
  have other: "flight (ps ! u) \<noteq> flight pc" if "u < length ps" for u
    using assms(3, 4) that by (auto simp: in_flight_def)
  show ?thesis
    unfolding flights_distinct_def
  proof (intro allI impI)
    fix a b assume "a < length (ps[t := pc])" "b < length (ps[t := pc])" "a \<noteq> b" "flight (ps[t := pc] ! a) \<noteq> None"
    then show "flight (ps[t := pc] ! a) \<noteq> flight (ps[t := pc] ! b)"
      using other [of a] other [of b] assms(1, 2)
      by (cases "a = t"; cases "b = t") (auto simp: flights_distinct_def)
  qed
qed

lemma length_filter_update:
  "t < length ps \<Longrightarrow>
     length (filter P (ps[t := pc])) + (if P (ps ! t) then 1 else 0) = length (filter P ps) + (if P pc then 1 else 0)"
proof (induction ps arbitrary: t)
  case (Cons a ps)
  then show ?case by (cases t) auto
qed simp

subsection \<open>Steps of the producers\<close>

lemma quiet_push_inv:
  assumes inv: "queue_inv xs T (q, ps, c)" and t: "t < length ps" and "flight pc = flight (ps ! t)"
    and "unfinished pc = unfinished (ps ! t)" and "producer_ok xs (freed c T) q pc"
  shows "queue_inv xs T (q, ps[t := pc], c)"
proof (rule queue_invI)
  note d = queue_invD [OF inv]
  show "counters_ok xs T q c" "consumer_ok xs T q c" using d by simp_all
  show "sequences_ok xs (freed c T) q (ps[t := pc])" "values_ok xs (freed c T) q (ps[t := pc]) c"
    using d(2, 3) by (simp_all add: sequences_ok_def values_ok_def in_flight_same [OF assms(3)])
  show "producer_ok xs (freed c T) q (ps[t := pc] ! u)" if "u < length (ps[t := pc])" for u
    using d(4) [of u] that assms(5) by (cases "u = t") simp_all
  show "flights_distinct (ps[t := pc])" using d(5) by (simp add: flights_distinct_same [OF assms(3)])
  show "size_ok xs T q (ps[t := pc]) c"
    using d(7) length_filter_update [OF t, of unfinished pc] assms(4) by (simp add: size_ok_def split: if_splits)
qed

lemma producer_ok_claim:
  "producer_ok xs f q pc \<Longrightarrow> producer_ok (xs @ [x]) f (q\<lparr>q_head := h\<rparr>) pc"
  by (cases pc) (auto simp: nth_append intro: le_SucI less_SucI)

lemma consumer_ok_claim:
  "consumer_ok xs T q c \<Longrightarrow> consumer_ok (xs @ [x]) T (q\<lparr>q_head := h\<rparr>) c"
  by (cases c) (auto simp: nth_append)

lemma in_flight_bound:
  assumes "queue_inv xs T (q, ps, c)" and "in_flight ps p" and "p < 2 ^ 63"
  shows "freed c T \<le> p" and "p < length xs"
proof -
  obtain t where t: "t < length ps" "flight (ps ! t) = Some (at_pos p)" using assms(2) by (auto simp: in_flight_def)
  have small: "length xs < 2 ^ 63" using queue_invD(1) [OF assms(1)] by (simp add: counters_ok_def)
  have ok: "producer_ok xs (freed c T) q (ps ! t)" by (rule queue_invD(4) [OF assms(1) t(1)])
  obtain r where "at_pos p = at_pos r" "freed c T \<le> r" "r < length xs"
    using ok t(2) by (cases "ps ! t") auto
  moreover from this have "p = r" using assms(3) small by (simp add: at_pos_eq_iff)
  ultimately show "freed c T \<le> p" and "p < length xs" by simp_all
qed

lemma claim_inv:
  assumes inv: "queue_inv xs T (q, ps, c)" and t: "t < length ps" "ps ! t = Push_seen item pos pos" and "q_head q = pos"
    and room: "Suc (length xs) + length (q_slots q) < 2 ^ 63"
  shows "queue_inv (xs @ [item]) T (q\<lparr>q_head := pos + 1\<rparr>, ps[t := Push_claimed item pos], c)"
proof (rule queue_invI)
  note d = queue_invD [OF inv]
  let ?f = "freed c T" and ?n = "length (q_slots q)" and ?ps = "ps[t := Push_claimed item pos]"
  have counters: "1 < ?n" "length xs + ?n < 2 ^ 63" "q_head q = at_pos (length xs)" "?f \<le> length xs" "length xs \<le> ?f + ?n"
    using d(1) by (simp_all add: counters_ok_def)
  obtain p where p: "p \<le> length xs" "pos = at_pos p" "p < ?f + ?n" using d(4) [OF t(1)] t(2) by auto
  have "p = length xs" using p counters assms(4) by (simp add: at_pos_eq_iff)
  with p have pos: "pos = at_pos (length xs)" and free: "length xs < ?f + ?n" by simp_all
  have small: "length xs < 2 ^ 63" using counters(2) by linarith
  have fl: "in_flight ?ps r \<longleftrightarrow> r = length xs \<or> in_flight ps r" if "r < 2 ^ 63" for r
    using in_flight_start [OF t(1) _ _ small that] t(2) pos by simp
  from small have none: "\<not> in_flight ps (length xs)" using in_flight_bound(2) [OF inv, of "length xs"] by blast
  show "counters_ok (xs @ [item]) T (q\<lparr>q_head := pos + 1\<rparr>) c"
    using d(1) room free by (simp add: counters_ok_def pos)
  show "sequences_ok (xs @ [item]) ?f (q\<lparr>q_head := pos + 1\<rparr>) ?ps"
    unfolding sequences_ok_def
  proof (intro allI impI)
    fix r assume r: "?f \<le> r" "r < ?f + length (q_slots (q\<lparr>q_head := pos + 1\<rparr>))"
    then have "r < 2 ^ 63" using counters by simp
    with r d(2) fl [of r] none show "slot_sequence (q_slots (q\<lparr>q_head := pos + 1\<rparr>) ! (r mod length (q_slots (q\<lparr>q_head := pos + 1\<rparr>))))
        = at_pos (if r < length (xs @ [item]) \<and> \<not> in_flight ?ps r then Suc r else r)"
      by (auto simp: sequences_ok_def less_Suc_eq)
  qed
  show "values_ok (xs @ [item]) ?f (q\<lparr>q_head := pos + 1\<rparr>) ?ps c"
    unfolding values_ok_def
  proof (intro allI impI)
    fix r assume r: "?f \<le> r" "r < length (xs @ [item])" "\<not> in_flight ?ps r" "\<not> (r = ?f \<and> took c)"
    then have "r < 2 ^ 63" using counters by simp
    with r fl [of r] have "r < length xs" "\<not> in_flight ps r" by (auto simp: less_Suc_eq)
    with r d(3) show "slot_value (q_slots (q\<lparr>q_head := pos + 1\<rparr>) ! (r mod length (q_slots (q\<lparr>q_head := pos + 1\<rparr>))))
        = (xs @ [item]) ! r"
      by (simp add: values_ok_def nth_append)
  qed
  show "producer_ok (xs @ [item]) ?f (q\<lparr>q_head := pos + 1\<rparr>) (?ps ! u)" if "u < length ?ps" for u
  proof (cases "u = t")
    case True
    have "\<exists>p. pos = at_pos p \<and> ?f \<le> p \<and> p < length (xs @ [item]) \<and> item = (xs @ [item]) ! p"
      using counters(4) pos by (intro exI [of _ "length xs"]) simp
    with True t(1) show ?thesis by simp
  next
    case False
    then show ?thesis using that d(4) [of u] by (simp add: producer_ok_claim)
  qed
  show "flights_distinct ?ps" using flights_distinct_start [OF t(1) d(5) _ none] pos by simp
  show "consumer_ok (xs @ [item]) T (q\<lparr>q_head := pos + 1\<rparr>) c" using d(6) by (rule consumer_ok_claim)
  show "size_ok (xs @ [item]) T (q\<lparr>q_head := pos + 1\<rparr>) ?ps c"
    using d(7) length_filter_update [OF t(1), of unfinished "Push_claimed item pos"] t(2)
    by (simp add: size_ok_def algebra_simps)
qed

lemma write_inv:
  assumes inv: "queue_inv xs T (q, ps, c)" and t: "t < length ps" "ps ! t = Push_claimed item pos"
  shows "queue_inv xs T (set_slot q pos ((slot_at q pos)\<lparr>slot_value := item\<rparr>), ps[t := Push_written pos], c)"
proof (rule queue_invI)
  note d = queue_invD [OF inv]
  let ?f = "freed c T" and ?n = "length (q_slots q)" and ?ps = "ps[t := Push_written pos]"
  let ?q = "set_slot q pos ((slot_at q pos)\<lparr>slot_value := item\<rparr>)"
  have counters: "1 < ?n" "length xs + ?n < 2 ^ 63" "length xs \<le> ?f + ?n" "?f \<le> length xs"
    using d(1) by (simp_all add: counters_ok_def)
  obtain p where p: "pos = at_pos p" "?f \<le> p" "p < length xs" "item = xs ! p" using d(4) [OF t(1)] t(2) by auto
  have small: "p < 2 ^ 63" using p(3) counters(2) by linarith
  have fl: "in_flight ?ps = in_flight ps" by (rule in_flight_same) (simp add: t(2))
  have here: "in_flight ps p" using t p(1) by (auto simp: in_flight_def)
  have slot: "q_slots ?q ! (r mod ?n) = (if r = p then (q_slots q ! (p mod ?n))\<lparr>slot_value := item\<rparr> else q_slots q ! (r mod ?n))"
    if "?f \<le> r" "r < ?f + ?n" for r
    using set_slot_window [OF counters(1) small p(2) _ that] p counters(3) small by (simp add: slot_at_pos)
  show "counters_ok xs T ?q c" using d(1) by (simp add: counters_ok_def)
  show "sequences_ok xs ?f ?q ?ps" using d(2) slot by (simp add: sequences_ok_def fl)
  show "values_ok xs ?f ?q ?ps c"
    using d(3) slot here counters(3) by (auto simp: values_ok_def fl)
  show "producer_ok xs ?f ?q (?ps ! u)" if "u < length ?ps" for u
  proof (cases "u = t")
    case True
    have "slot_value (q_slots ?q ! (p mod ?n)) = xs ! p" using slot [of p] p counters(3) by simp
    then show ?thesis using True t(1) p by auto
  next
    case False
    have u: "u < length ps" using that by simp
    have other: "flight (ps ! u) \<noteq> Some pos"
      using d(5) t u False by (force simp: flights_distinct_def)
    show ?thesis
    proof (cases "ps ! u")
      case (Push_written w)
      then obtain r where r: "w = at_pos r" "?f \<le> r" "r < length xs" "slot_value (q_slots q ! (r mod ?n)) = xs ! r"
        using d(4) [OF u] by auto
      have "r \<noteq> p" using other Push_written r(1) p(1) by auto
      then have "slot_value (q_slots ?q ! (r mod ?n)) = xs ! r" using r slot [of r] counters(3) by simp
      then show ?thesis using False Push_written r by auto
    qed (use d(4) [OF u] False in auto)
  qed
  show "flights_distinct ?ps" using d(5) flights_distinct_same [of "Push_written pos" ps t] t(2) by simp
  have "slot_sequence (q_slots ?q ! (T mod ?n)) = slot_sequence (q_slots q ! (T mod ?n))"
    by (rule set_slot_field) simp
  then show "consumer_ok xs T ?q c" using d(6) by (cases c) simp_all
  show "size_ok xs T ?q ?ps c"
    using d(7) length_filter_update [OF t(1), of unfinished "Push_written pos"] t(2) by (simp add: size_ok_def)
qed

lemma publish_inv:
  assumes inv: "queue_inv xs T (q, ps, c)" and t: "t < length ps" "ps ! t = Push_written pos"
  shows "queue_inv xs T (set_slot q pos ((slot_at q pos)\<lparr>slot_sequence := pos + 1\<rparr>), ps[t := Push_published], c)"
proof (rule queue_invI)
  note d = queue_invD [OF inv]
  let ?f = "freed c T" and ?n = "length (q_slots q)" and ?ps = "ps[t := Push_published]"
  let ?q = "set_slot q pos ((slot_at q pos)\<lparr>slot_sequence := pos + 1\<rparr>)"
  have counters: "1 < ?n" "length xs + ?n < 2 ^ 63" "length xs \<le> ?f + ?n" "?f \<le> length xs"
    using d(1) by (simp_all add: counters_ok_def)
  obtain p where p: "pos = at_pos p" "?f \<le> p" "p < length xs" "slot_value (q_slots q ! (p mod ?n)) = xs ! p"
    using d(4) [OF t(1)] t(2) by auto
  have small: "p < 2 ^ 63" using p(3) counters(2) by linarith
  have here: "in_flight ps p" using t p(1) by (auto simp: in_flight_def)
  have fl: "in_flight ?ps r \<longleftrightarrow> in_flight ps r \<and> r \<noteq> p" if "?f \<le> r" "r < ?f + ?n" for r
    using in_flight_land [OF t(1) d(5) _ _ _ small, of Push_published r] t(2) p(1) that counters by simp
  have slot: "q_slots ?q ! (r mod ?n) = (if r = p then (q_slots q ! (p mod ?n))\<lparr>slot_sequence := at_pos (Suc p)\<rparr> else q_slots q ! (r mod ?n))"
    if "?f \<le> r" "r < ?f + ?n" for r
    using set_slot_window [OF counters(1) small p(2) _ that] p counters(3) small by (simp add: slot_at_pos add.commute)
  show "counters_ok xs T ?q c" using d(1) by (simp add: counters_ok_def)
  show "sequences_ok xs ?f ?q ?ps" using d(2) slot fl p(3) by (auto simp: sequences_ok_def)
  show "values_ok xs ?f ?q ?ps c"
    unfolding values_ok_def
  proof (intro allI impI)
    fix r assume r: "?f \<le> r" "r < length xs" "\<not> in_flight ?ps r" "\<not> (r = ?f \<and> took c)"
    then have "r = p \<or> \<not> in_flight ps r" using fl [of r] counters(3) by auto
    then show "slot_value (q_slots ?q ! (r mod length (q_slots ?q))) = xs ! r"
      using slot [of r] r counters(3) p(4) d(3) by (auto simp: values_ok_def)
  qed
  have same: "slot_value (q_slots ?q ! (k mod ?n)) = slot_value (q_slots q ! (k mod ?n))" for k
    by (rule set_slot_field) simp
  show "producer_ok xs ?f ?q (?ps ! u)" if "u < length ?ps" for u
  proof (cases "u = t")
    case False
    with that d(4) [of u] show ?thesis by (cases "ps ! u") (auto simp: same)
  qed (use t(1) in simp)
  show "flights_distinct ?ps" using d(5) t(1) by (auto simp: flights_distinct_def nth_list_update)
  show "consumer_ok xs T ?q c"
  proof -
    have "slot_sequence (q_slots ?q ! (T mod ?n)) = at_pos (Suc T)"
      if "slot_sequence (q_slots q ! (T mod ?n)) = at_pos (Suc T)" "?f = T"
    proof -
      have "?f \<le> T" "T < ?f + ?n" using that(2) counters(1) by auto
      from slot [OF this] show ?thesis using that(1) by (cases "T = p") simp_all
    qed
    then show ?thesis using d(6) by (cases c) simp_all
  qed
  show "size_ok xs T ?q ?ps c"
    using d(7) length_filter_update [OF t(1), of unfinished Push_published] t(2) by (simp add: size_ok_def)
qed

lemma count_inv:
  assumes inv: "queue_inv xs T (q, ps, c)" and t: "t < length ps" "ps ! t = Push_published"
  shows "queue_inv xs T (q\<lparr>q_size := q_size q + 1\<rparr>, ps[t := Push_idle], c)"
proof (rule queue_invI)
  note d = queue_invD [OF inv]
  have fl: "flight Push_idle = flight (ps ! t)" using t(2) by simp
  show "counters_ok xs T (q\<lparr>q_size := q_size q + 1\<rparr>) c" using d(1) by (simp add: counters_ok_def)
  show "sequences_ok xs (freed c T) (q\<lparr>q_size := q_size q + 1\<rparr>) (ps[t := Push_idle])"
    "values_ok xs (freed c T) (q\<lparr>q_size := q_size q + 1\<rparr>) (ps[t := Push_idle]) c"
    using d(2, 3) by (simp_all add: sequences_ok_def values_ok_def in_flight_same [OF fl])
  show "producer_ok xs (freed c T) (q\<lparr>q_size := q_size q + 1\<rparr>) (ps[t := Push_idle] ! u)"
    if "u < length (ps[t := Push_idle])" for u
  proof (cases "u = t")
    case False
    with that d(4) [of u] show ?thesis by (cases "ps ! u") auto
  qed (use t(1) in simp)
  show "flights_distinct (ps[t := Push_idle])" using d(5) by (simp add: flights_distinct_same [OF fl])
  show "consumer_ok xs T (q\<lparr>q_size := q_size q + 1\<rparr>) c" using d(6) by (cases c) simp_all
  have len: "length (filter unfinished ps) = Suc (length (filter unfinished (ps[t := Push_idle])))"
    using length_filter_update [OF t(1), of unfinished Push_idle] t(2) by simp
  show "size_ok xs T (q\<lparr>q_size := q_size q + 1\<rparr>) (ps[t := Push_idle]) c"
    using d(7) by (simp add: size_ok_def len algebra_simps)
qed

subsection \<open>Steps of the consumer\<close>

lemma look_inv:
  assumes inv: "queue_inv xs T (q, ps, Pop_idle)"
  shows "queue_inv xs T (q, ps, Pop_seen (slot_sequence (slot_at q (q_tail q))))"
proof -
  note d = queue_invD [OF inv]
  have "q_tail q = at_pos T" "T < 2 ^ 63" using d(1) by (simp_all add: counters_ok_def)
  then have "slot_at q (q_tail q) = q_slots q ! (T mod length (q_slots q))" by (simp add: slot_at_pos)
  then show ?thesis using inv by (simp add: queue_inv_def counters_ok_def values_ok_def size_ok_def)
qed

lemma nothing_inv: "queue_inv xs T (q, ps, Pop_seen seq) \<Longrightarrow> queue_inv xs T (q, ps, Pop_idle)"
  by (simp add: queue_inv_def counters_ok_def values_ok_def size_ok_def)

text \<open>A published slot at the tail holds the next item, and no producer has it in flight.\<close>

lemma next_item:
  assumes inv: "queue_inv xs T (q, ps, c)" and "freed c T = T"
    and seq: "slot_sequence (q_slots q ! (T mod length (q_slots q))) = at_pos (Suc T)"
  shows "T < length xs" and "\<not> in_flight ps T"
    and "\<not> took c \<Longrightarrow> slot_value (q_slots q ! (T mod length (q_slots q))) = xs ! T"
proof -
  note d = queue_invD [OF inv]
  let ?n = "length (q_slots q)"
  have n: "1 < ?n" "length xs + ?n < 2 ^ 63" "T \<le> length xs" using d(1) assms(2) by (simp_all add: counters_ok_def)
  have "T < T + ?n" using n(1) by auto
  note T = d(2) [unfolded sequences_ok_def assms(2), rule_format, OF order_refl this]
  have "at_pos (Suc T) = at_pos (if T < length xs \<and> \<not> in_flight ps T then Suc T else T)"
    by (rule trans [OF seq [symmetric] T])
  moreover have "Suc T < 2 ^ 63" using n by linarith
  then have "at_pos (Suc T) \<noteq> at_pos T" using at_pos_eq_iff [of "Suc T" T] by simp
  ultimately have "T < length xs \<and> \<not> in_flight ps T" by presburger
  then show lt: "T < length xs" and fl: "\<not> in_flight ps T" by blast+
  show "slot_value (q_slots q ! (T mod ?n)) = xs ! T" if "\<not> took c"
    using d(3) lt fl that assms(2) by (simp add: values_ok_def)
qed

lemma take_inv:
  assumes inv: "queue_inv xs T (q, ps, Pop_seen seq)" and seq: "seq = q_tail q + 1"
  shows "queue_inv xs T (set_slot q (q_tail q) ((slot_at q (q_tail q))\<lparr>slot_value := None\<rparr>), ps,
    Pop_took (slot_value (slot_at q (q_tail q))))"
proof (rule queue_invI)
  note d = queue_invD [OF inv]
  let ?n = "length (q_slots q)"
  let ?q = "set_slot q (q_tail q) ((slot_at q (q_tail q))\<lparr>slot_value := None\<rparr>)"
  let ?c = "Pop_took (slot_value (slot_at q (q_tail q)))"
  have counters: "1 < ?n" "length xs + ?n < 2 ^ 63" "T \<le> length xs" "length xs \<le> T + ?n" "q_tail q = at_pos T"
    using d(1) by (simp_all add: counters_ok_def)
  have small: "T < 2 ^ 63" and ne: "q_slots q \<noteq> []" using counters by auto
  have pub: "slot_sequence (q_slots q ! (T mod ?n)) = at_pos (Suc T)"
    using d(6) seq counters(5) by (simp add: add.commute)
  note item = next_item [OF inv _ pub]
  have at: "slot_at q (q_tail q) = q_slots q ! (T mod ?n)" using counters(5) small by (simp add: slot_at_pos)
  have seqs: "slot_sequence (q_slots ?q ! k) = slot_sequence (q_slots q ! k)" for k by (rule set_slot_field) simp
  show "counters_ok xs T ?q ?c" using d(1) by (simp add: counters_ok_def)
  show "sequences_ok xs (freed ?c T) ?q ps" using d(2) by (simp add: sequences_ok_def seqs)
  have slot: "slot_value (q_slots ?q ! (r mod ?n)) = slot_value (q_slots q ! (r mod ?n))"
    if "T \<le> r" "r < T + ?n" "r \<noteq> T" for r
    using set_slot_window [OF counters(1) small, of T r] that ne counters(5) by simp
  show "values_ok xs (freed ?c T) ?q ps ?c"
    using d(3) slot counters(4) by (simp add: values_ok_def)
  show "producer_ok xs (freed ?c T) ?q (ps ! u)" if u: "u < length ps" for u
  proof (cases "ps ! u")
    case (Push_written w)
    then obtain r where r: "w = at_pos r" "T \<le> r" "r < length xs" "slot_value (q_slots q ! (r mod ?n)) = xs ! r"
      using d(4) [OF u] by auto
    have "in_flight ps r" using u Push_written r(1) by (auto simp: in_flight_def)
    then have "r \<noteq> T" using item(2) by auto
    then have "slot_value (q_slots ?q ! (r mod ?n)) = xs ! r" using slot [of r] r counters(4) by simp
    then show ?thesis using Push_written r by auto
  qed (use d(4) [OF u] in auto)
  show "flights_distinct ps" by (rule d(5))
  show "consumer_ok xs T ?q ?c" using pub item seqs by (simp only: consumer_ok.simps set_slot_frame at) simp
  show "size_ok xs T ?q ps ?c" using d(7) by (simp add: size_ok_def)
qed

lemma free_inv:
  assumes inv: "queue_inv xs T (q, ps, Pop_took item)"
  shows "queue_inv xs T (set_slot q (q_tail q) ((slot_at q (q_tail q))
    \<lparr>slot_sequence := q_tail q + of_nat (length (q_slots q))\<rparr>), ps, Pop_freed item)"
proof (rule queue_invI)
  note d = queue_invD [OF inv]
  let ?n = "length (q_slots q)"
  let ?q = "set_slot q (q_tail q) ((slot_at q (q_tail q))\<lparr>slot_sequence := q_tail q + of_nat ?n\<rparr>)"
  have counters: "1 < ?n" "length xs + ?n < 2 ^ 63" "T \<le> length xs" "length xs \<le> T + ?n" "q_tail q = at_pos T"
    using d(1) by (simp_all add: counters_ok_def)
  have small: "T < 2 ^ 63" and ne: "q_slots q \<noteq> []" using counters by auto
  have c: "slot_sequence (q_slots q ! (T mod ?n)) = at_pos (Suc T)" "T < length xs" "item = xs ! T"
    using d(6) by simp_all
  have fl: "\<not> in_flight ps T" using next_item(2) [OF inv _ c(1)] by simp
  have vals: "slot_value (q_slots ?q ! k) = slot_value (q_slots q ! k)" for k by (rule set_slot_field) simp
  have slot: "slot_sequence (q_slots ?q ! (r mod ?n)) = (if r = T + ?n then at_pos (T + ?n) else slot_sequence (q_slots q ! (r mod ?n)))"
    if "Suc T \<le> r" "r < Suc T + ?n" for r
  proof (cases "r = T + ?n")
    case True
    then show ?thesis using set_slot_window [OF counters(1) small, of T T] ne counters(5) by simp
  next
    case False
    with that show ?thesis using set_slot_window [OF counters(1) small, of T r] ne counters(5) by simp
  qed
  show "counters_ok xs T ?q (Pop_freed item)" using d(1) c(2) by (simp add: counters_ok_def)
  show "sequences_ok xs (freed (Pop_freed item) T) ?q ps"
    using d(2) slot counters(4) by (auto simp: sequences_ok_def)
  show "values_ok xs (freed (Pop_freed item) T) ?q ps (Pop_freed item)"
    using d(3) by (simp add: values_ok_def vals)
  show "producer_ok xs (freed (Pop_freed item) T) ?q (ps ! u)" if u: "u < length ps" for u
  proof -
    have "r \<noteq> T" if "flight (ps ! u) = Some (at_pos r)" for r using fl that u by (auto simp: in_flight_def)
    then show ?thesis using d(4) [OF u] by (cases "ps ! u") (auto simp: vals Suc_le_eq le_less)
  qed
  show "flights_distinct ps" by (rule d(5))
  show "consumer_ok xs T ?q (Pop_freed item)" using c by simp
  show "size_ok xs T ?q ps (Pop_freed item)" using d(7) by (simp add: size_ok_def)
qed

lemma move_inv:
  assumes inv: "queue_inv xs T (q, ps, Pop_freed item)"
  shows "queue_inv xs (Suc T) (q\<lparr>q_tail := q_tail q + 1\<rparr>, ps, Pop_moved item)"
proof (rule queue_invI)
  note d = queue_invD [OF inv]
  let ?q = "q\<lparr>q_tail := q_tail q + 1\<rparr>"
  show "counters_ok xs (Suc T) ?q (Pop_moved item)" using d(1) by (simp add: counters_ok_def)
  show "sequences_ok xs (freed (Pop_moved item) (Suc T)) ?q ps" using d(2) by (simp add: sequences_ok_def)
  show "values_ok xs (freed (Pop_moved item) (Suc T)) ?q ps (Pop_moved item)" using d(3) by (simp add: values_ok_def)
  show "producer_ok xs (freed (Pop_moved item) (Suc T)) ?q (ps ! u)" if "u < length ps" for u
    using d(4) [OF that] by (cases "ps ! u") auto
  show "flights_distinct ps" by (rule d(5))
  show "consumer_ok xs (Suc T) ?q (Pop_moved item)" using d(6) by auto
  show "size_ok xs (Suc T) ?q ps (Pop_moved item)" using d(7) by (simp add: size_ok_def)
qed

lemma return_inv:
  assumes inv: "queue_inv xs T (q, ps, Pop_moved item)"
  shows "queue_inv xs T (q\<lparr>q_size := q_size q - 1\<rparr>, ps, Pop_idle)"
proof (rule queue_invI)
  note d = queue_invD [OF inv]
  let ?q = "q\<lparr>q_size := q_size q - 1\<rparr>"
  show "counters_ok xs T ?q Pop_idle" using d(1) by (simp add: counters_ok_def)
  show "sequences_ok xs (freed Pop_idle T) ?q ps" using d(2) by (simp add: sequences_ok_def)
  show "values_ok xs (freed Pop_idle T) ?q ps Pop_idle" using d(3) by (simp add: values_ok_def)
  show "producer_ok xs (freed Pop_idle T) ?q (ps ! u)" if "u < length ps" for u
    using d(4) [OF that] by (cases "ps ! u") auto
  show "flights_distinct ps" by (rule d(5))
  show "consumer_ok xs T ?q Pop_idle" by simp
  have "0 < T" using d(6) by simp
  then show "size_ok xs T ?q ps Pop_idle" using d(7) by (cases T) (simp_all add: size_ok_def algebra_simps)
qed

subsection \<open>Runs\<close>

lemma seen_ok:
  assumes inv: "queue_inv xs T (q, ps, c)" and p: "p \<le> length xs"
  shows "producer_ok xs (freed c T) q (Push_seen item (at_pos p) (slot_sequence (slot_at q (at_pos p))))"
proof -
  note d = queue_invD [OF inv]
  let ?f = "freed c T" and ?n = "length (q_slots q)"
  have counters: "1 < ?n" "length xs + ?n < 2 ^ 63" "?f \<le> length xs" "length xs \<le> ?f + ?n"
    using d(1) by (simp_all add: counters_ok_def)
  have "p < ?f + ?n" if eq: "slot_sequence (slot_at q (at_pos p)) = at_pos p"
  proof (rule ccontr)
    assume "\<not> p < ?f + ?n"
    then have last: "p = ?f + ?n" "p = length xs" using p counters by simp_all
    have "?f < ?f + ?n" using counters(1) by auto
    from d(2) [unfolded sequences_ok_def, rule_format, OF order_refl this]
    obtain k where k: "slot_sequence (q_slots q ! (?f mod ?n)) = at_pos k" "k = ?f \<or> k = Suc ?f" by auto
    have "p < 2 ^ 63" "p mod ?n = ?f mod ?n" using last counters(2) by simp_all
    then have "slot_at q (at_pos p) = q_slots q ! (?f mod ?n)" by (simp only: slot_at_pos)
    with eq k(1) have "at_pos p = at_pos k" by simp
    moreover have "p < 2 ^ 63" "k < 2 ^ 63" using k(2) last counters by auto
    ultimately have "p = k" by (simp only: at_pos_eq_iff)
    with k(2) last counters(1) show False by auto
  qed
  with p show ?thesis by auto
qed

text \<open>Every step keeps the invariant, for the items claimed and the items returned so far.\<close>

lemma sint_eq_iff: "sint (a :: u64) = sint b \<longleftrightarrow> a = b"
  by (auto intro: signed_word_eqI)

lemma push_step_inv:
  assumes inv: "queue_inv xs T (q, ps, c)" and t: "t < length ps" "ps ! t \<noteq> Push_idle"
    and step: "push_step spurious q (ps ! t) = (q', pc, e)"
    and room: "length (xs @ pushed [e]) + length (q_slots q) < 2 ^ 63"
  shows "queue_inv (xs @ pushed [e]) T (q', ps[t := pc], c)" and "popped [e] = []"
proof -
  note d = queue_invD [OF inv]
  have head: "producer_ok xs (freed c T) q (Push_at item (q_head q))" for item
    using d(1) by (auto simp: counters_ok_def)
  note quiet = quiet_push_inv [OF inv t(1)]
  have "queue_inv (xs @ pushed [e]) T (q', ps[t := pc], c) \<and> popped [e] = []"
  proof (cases "ps ! t")
    case (Push_enter item)
    then show ?thesis using step head [of item] quiet [of pc] by (auto simp del: producer_ok.simps(1) split: if_splits)
  next
    case (Push_at item pos)
    then obtain p where "p \<le> length xs" "pos = at_pos p" using d(4) [OF t(1)] by auto
    then show ?thesis using step Push_at seen_ok [OF inv, of p item] quiet [of pc]
      by (auto simp del: producer_ok.simps(2))
  next
    case (Push_seen item pos seq)
    show ?thesis
    proof (cases "seq = pos \<and> q_head q = pos \<and> \<not> spurious")
      case True
      then have "q' = q\<lparr>q_head := pos + 1\<rparr>" "pc = Push_claimed item pos" "e = Claimed item"
        using step Push_seen by (auto simp: Let_def)
      with True Push_seen room show ?thesis using claim_inv [OF inv t(1), of item pos] by simp
    next
      case False
      with step Push_seen have "q' = q" "pc = Push_at item (q_head q) \<or> pc = Push_idle" "pushed [e] = []" "popped [e] = []"
        by (auto simp: Let_def sint_eq_iff split: if_splits)
      with Push_seen head [of item] show ?thesis using quiet [of pc] by (auto simp del: producer_ok.simps(1))
    qed
  next
    case (Push_claimed item pos)
    then show ?thesis using step write_inv [OF inv t(1)] by auto
  next
    case (Push_written pos)
    then show ?thesis using step publish_inv [OF inv t(1)] by auto
  next
    case Push_published
    then show ?thesis using step count_inv [OF inv t(1)] by auto
  qed (use t(2) in simp)
  then show "queue_inv (xs @ pushed [e]) T (q', ps[t := pc], c)" and "popped [e] = []" by blast+
qed

lemma pop_step_inv:
  assumes inv: "queue_inv xs T (q, ps, c)" and step: "pop_step q c = (q', c', e)"
  shows "\<exists>T'. queue_inv xs T' (q', ps, c') \<and> pushed [e] = [] \<and>
    take (delivered c' T') xs = take (delivered c T) xs @ popped [e]"
proof (cases c)
  case Pop_idle
  then show ?thesis using step look_inv inv by (intro exI [of _ T]) auto
next
  case (Pop_seen seq)
  show ?thesis
  proof (cases "seq = q_tail q + 1")
    case True
    with inv Pop_seen have "queue_inv xs T (set_slot q (q_tail q) ((slot_at q (q_tail q))\<lparr>slot_value := None\<rparr>), ps,
        Pop_took (slot_value (slot_at q (q_tail q))))" by (intro take_inv) simp_all
    then show ?thesis using True step Pop_seen by (intro exI [of _ T]) (auto simp: Let_def)
  next
    case False
    then show ?thesis using step Pop_seen nothing_inv inv by (intro exI [of _ T]) (auto simp: Let_def sint_eq_iff)
  qed
next
  case (Pop_took item)
  then show ?thesis using step free_inv inv by (intro exI [of _ T]) (auto simp: Let_def)
next
  case (Pop_freed item)
  then show ?thesis using step move_inv inv by (intro exI [of _ "Suc T"]) auto
next
  case (Pop_moved item)
  have "0 < T" "T \<le> length xs" "item = xs ! (T - 1)" using queue_invD(6) [OF inv] Pop_moved by simp_all
  then have "take T xs = take (T - 1) xs @ [item]" by (cases T) (simp_all add: take_Suc_conv_app_nth)
  then show ?thesis using step return_inv inv Pop_moved by (intro exI [of _ T]) auto
qed

lemma delivered_le: "queue_inv xs T (q, ps, c) \<Longrightarrow> delivered c T \<le> length xs"
  by (cases c) (auto simp: queue_inv_def counters_ok_def)

lemma step_slots: "queue_step (q, ps, c) e (q', ps', c') \<Longrightarrow> length (q_slots q') = length (q_slots q)"
proof (induction "(q, ps, c)" e "(q', ps', c')" rule: queue_step.induct)
  case (step_push t spurious pc e)
  then show ?case by (cases "ps ! t") (auto simp: Let_def split: if_splits)
next
  case (step_pop e)
  then show ?case by (cases c) (auto simp: Let_def split: if_splits)
qed simp

lemma queue_run_inv:
  assumes "1 < n" and "queue_run (new_system nm ptr n threads) es s" and "length (pushed es) + n < 2 ^ 63"
  shows "\<exists>T. queue_inv (pushed es) T s \<and> popped es = take (delivered (snd (snd s)) T) (pushed es) \<and>
    length (q_slots (fst s)) = n"
  using assms(2, 3)
proof (induction rule: queue_run.induct)
  case start
  then show ?case using new_system_inv [OF assms(1)] by (auto simp: new_system_def new_queue_def)
next
  case (step es s e s')
  obtain q ps c where s: "s = (q, ps, c)" by (cases s)
  obtain T where inv: "queue_inv (pushed es) T (q, ps, c)" "popped es = take (delivered c T) (pushed es)"
    "length (q_slots q) = n" using step s by auto
  have n: "length (q_slots (fst s')) = n" using step_slots inv(3) step(2) s by (cases s') auto
  from step(2) [unfolded s] show ?case
  proof cases
    case (call_push t item)
    then show ?thesis using quiet_push_inv [OF inv(1) call_push(3), of "Push_enter item"] inv(2) n by auto
  next
    case (step_push t spurious q' pc)
    then show ?thesis
      using push_step_inv [OF inv(1) step_push(2-4)] step(4) inv n delivered_le [OF inv(1)] by (intro exI [of _ T]) auto
  next
    case (step_pop q' c')
    then show ?thesis using pop_step_inv [OF inv(1) step_pop(2)] inv(2) n by auto
  qed
qed

text \<open>A producer finds its slot behind its position only when the queue is full.\<close>

lemma window_position:
  assumes "0 < (n :: nat)"
  shows "\<exists>r. f \<le> r \<and> r < f + n \<and> r mod n = p mod n"
proof -
  have "f \<le> p + n * f" using assms by (simp add: trans_le_add2)
  then have "(f + (p + n * f - f) mod n) mod n = p mod n" by (simp add: mod_add_right_eq)
  moreover have "(p + n * f - f) mod n < n" using assms by simp
  ultimately show ?thesis by (intro exI [of _ "f + (p + n * f - f) mod n"]) simp
qed

lemma behind_is_full:
  assumes inv: "queue_inv xs T (q, ps, c)" and "p \<le> length xs"
    and behind: "sint (slot_sequence (slot_at q (at_pos p))) < sint (at_pos p)"
  shows "length (q_slots q) \<le> length xs - delivered c T"
proof -
  note d = queue_invD [OF inv]
  let ?f = "freed c T" and ?n = "length (q_slots q)"
  have counters: "1 < ?n" "length xs + ?n < 2 ^ 63" "?f \<le> length xs" "length xs \<le> ?f + ?n"
    using d(1) by (simp_all add: counters_ok_def)
  have small: "p < 2 ^ 63" using assms(2) counters by simp
  obtain r where r: "?f \<le> r" "r < ?f + ?n" "r mod ?n = p mod ?n" using window_position [of ?n ?f p] counters(1) by force
  from d(2) [unfolded sequences_ok_def, rule_format, OF r(1, 2)]
  obtain k where k: "slot_sequence (q_slots q ! (r mod ?n)) = at_pos k" "k = r \<or> k = Suc r" by auto
  have "k < 2 ^ 63" using k(2) r counters by auto
  then have "int k < int p" using behind k(1) r(3) small by (simp only: slot_at_pos at_pos_sint)
  then have "r < p" using k(2) by auto
  have "?f + ?n \<le> p"
  proof (rule ccontr)
    assume "\<not> ?f + ?n \<le> p"
    with r \<open>r < p\<close> mod_window [of ?f r ?n p] show False by simp
  qed
  moreover have "delivered c T \<le> ?f" by (cases c) simp_all
  ultimately show ?thesis using assms(2) by simp
qed

section \<open>Properties\<close>

text \<open>A schedule: a thread calls \<^verbatim>\<open>push\<close>, makes its next step, or the consumer makes its next step.\<close>

datatype 'a turn = Call nat "'a option" | Producer nat bool | Consumer

fun run_turn :: "'a queue_state \<Rightarrow> 'a turn \<Rightarrow> 'a queue_event \<times> 'a queue_state" where
  "run_turn (q, ps, c) (Call t item) = (Internal, q, ps[t := Push_enter item], c)"
| "run_turn (q, ps, c) (Producer t spurious) =
     (case push_step spurious q (ps ! t) of (q', pc, e) \<Rightarrow> (e, q', ps[t := pc], c))"
| "run_turn (q, ps, c) Consumer = (case pop_step q c of (q', c', e) \<Rightarrow> (e, q', ps, c'))"

fun turn_ok :: "'a queue_state \<Rightarrow> 'a turn \<Rightarrow> bool" where
  "turn_ok (q, ps, c) (Call t item) \<longleftrightarrow> t < length ps \<and> ps ! t = Push_idle"
| "turn_ok (q, ps, c) (Producer t spurious) \<longleftrightarrow> t < length ps \<and> ps ! t \<noteq> Push_idle"
| "turn_ok (q, ps, c) Consumer \<longleftrightarrow> True"

fun run_turns :: "'a queue_event list \<Rightarrow> 'a queue_state \<Rightarrow> 'a turn list \<Rightarrow> ('a queue_event list \<times> 'a queue_state) option" where
  "run_turns es s [] = Some (es, s)"
| "run_turns es s (a # as) =
     (if turn_ok s a then case run_turn s a of (e, s') \<Rightarrow> run_turns (es @ [e]) s' as else None)"

lemma run_turn_step: "turn_ok s a \<Longrightarrow> run_turn s a = (e, s') \<Longrightarrow> queue_step s e s'"
  by (cases "(s, a)" rule: run_turn.cases) (auto split: prod.splits intro: queue_step.intros)

lemma run_turns_run: "queue_run s0 es s \<Longrightarrow> run_turns es s as = Some (es', s') \<Longrightarrow> queue_run s0 es' s'"
proof (induction as arbitrary: es s)
  case (Cons a as)
  obtain e s1 where a: "run_turn s a = (e, s1)" "turn_ok s a" "run_turns (es @ [e]) s1 as = Some (es', s')"
    using Cons.prems(2) by (auto split: prod.splits if_splits)
  have "queue_run s0 (es @ [e]) s1" using Cons.prems(1) run_turn_step [OF a(2, 1)] by (rule queue_run.step)
  then show ?case using a(3) by (rule Cons.IH)
qed simp

text \<open>
  (C5) However the producers and the consumer interleave, the queue is first in, first out:
  the items \<^verbatim>\<open>pop\<close> has returned are a prefix of the items in the order in which the pushes
  claimed their places, so none is lost, duplicated, reordered or made up. When no thread is
  inside an operation, \<^verbatim>\<open>size\<close> is the number of items in the queue, at most the capacity, and
  the slots from the tail on hold exactly these items. A push finds the queue full only when
  as many items as the capacity are claimed and not yet returned. (Up to \<open>2\<^sup>63\<close> pushes.)
\<close>

theorem mpsc_queue_is_fifo:
  assumes "1 < n" and "queue_run (new_system nm ptr n threads) es (q, ps, c)" and "length (pushed es) + n < 2 ^ 63"
  shows "prefix (popped es) (pushed es) \<and>
    (set ps \<subseteq> {Push_idle} \<longrightarrow> c = Pop_idle \<longrightarrow>
      unat (q_size q) + length (popped es) = length (pushed es) \<and> unat (q_size q) \<le> n \<and>
      map (\<lambda>p. slot_value (q_slots q ! (p mod n))) [length (popped es)..<length (pushed es)]
        = drop (length (popped es)) (pushed es)) \<and>
    (t < length ps \<longrightarrow> ps ! t = Push_at item pos \<longrightarrow> sint (slot_sequence (slot_at q pos)) < sint pos \<longrightarrow>
      n \<le> length (pushed es) - length (popped es))"
proof -
  obtain T where inv: "queue_inv (pushed es) T (q, ps, c)" "popped es = take (delivered c T) (pushed es)"
    "length (q_slots q) = n" using queue_run_inv [OF assms] by auto
  note d = queue_invD [OF inv(1)]
  have len: "length (popped es) = delivered c T" using inv(2) delivered_le [OF inv(1)] by simp
  have "unat (q_size q) + length (popped es) = length (pushed es) \<and> unat (q_size q) \<le> n \<and>
      map (\<lambda>p. slot_value (q_slots q ! (p mod n))) [length (popped es)..<length (pushed es)]
        = drop (length (popped es)) (pushed es)"
    if "set ps \<subseteq> {Push_idle}" "c = Pop_idle"
  proof -
    have idle: "u < length ps \<Longrightarrow> ps ! u = Push_idle" for u using that(1) nth_mem by fastforce
    then have "filter unfinished ps = []" using that(1) by (auto simp: filter_empty_conv)
    then have "q_size q = of_nat (length (pushed es) - T)"
      using d(1, 7) that(2) by (simp add: size_ok_def counters_ok_def of_nat_diff algebra_simps)
    moreover have "length (pushed es) - T < 2 ^ 64" using assms(3) by simp
    ultimately have "unat (q_size q) = length (pushed es) - T" by (simp add: unsigned_of_nat take_bit_nat_eq_self)
    moreover have "T \<le> length (pushed es)" "length (pushed es) \<le> T + n"
      using d(1) that(2) inv(3) by (simp_all add: counters_ok_def)
    moreover have "slot_value (q_slots q ! (p mod n)) = pushed es ! p" if "T \<le> p" "p < length (pushed es)" for p
      using d(3) that idle \<open>c = Pop_idle\<close> inv(3) by (simp add: values_ok_def in_flight_def)
    ultimately show ?thesis using len that(2) by (auto intro!: nth_equalityI)
  qed
  moreover have "n \<le> length (pushed es) - length (popped es)"
    if "t < length ps" "ps ! t = Push_at item pos" "sint (slot_sequence (slot_at q pos)) < sint pos"
    using behind_is_full [OF inv(1)] d(4) [OF that(1)] that(2, 3) inv(3) len by auto
  ultimately show ?thesis using inv(2) take_is_prefix by metis
qed

theorem mpsc_queue_is_fifo_witness:
  "\<exists>es q. queue_run (new_system ''q'' False 2 2) es (q, [Push_idle, Push_idle], Pop_idle) \<and>
     pushed es = [Some 8, Some (7 :: nat)] \<and> popped es = [Some 8] \<and> unat (q_size q) = 1"
proof -
  let ?as = "[Call 0 (Some (7 :: nat)), Call 1 (Some 8), Producer 0 False, Producer 1 False, Producer 0 False,
    Producer 1 False, Producer 1 False, Producer 0 False, Producer 1 False, Producer 1 False, Producer 1 False,
    Producer 0 False, Producer 0 False, Producer 0 False, Producer 0 False, Producer 0 False,
    Consumer, Consumer, Consumer, Consumer, Consumer]"
  define r where "r = run_turns [] (new_system ''q'' False 2 2) ?as"
  obtain es q where r: "r = Some (es, q, [Push_idle, Push_idle], Pop_idle)"
    "pushed es = [Some 8, Some 7]" "popped es = [Some 8]"
    unfolding r_def
    by (simp add: new_system_def new_queue_def slot_at_def slot_index_def set_slot_def numeral_2_eq_2)
  have run: "queue_run (new_system ''q'' False 2 2) es (q, [Push_idle, Push_idle], Pop_idle)"
    using run_turns_run [OF queue_run.start] r(1) unfolding r_def by blast
  have "unat (q_size q) = 1"
    using mpsc_queue_is_fifo [OF _ run] r(2, 3) by simp
  with run r show ?thesis by blast
qed

text \<open>
  Between the publication of an item and the increment of \<^verbatim>\<open>size\<close> the consumer can already pop it:
  then \<^verbatim>\<open>size\<close>, which the event loop reports as a metric, shows \<open>2\<^sup>64 - 1\<close>.
\<close>

lemma queue_size_can_wrap:
  "\<exists>es q. queue_run (new_system ''q'' False 2 1) es (q, [Push_published], Pop_idle) \<and>
     popped es = [Some (7 :: nat)] \<and> q_size q = - 1"
proof -
  let ?as = "Call 0 (Some (7 :: nat)) # replicate 5 (Producer 0 False) @ replicate 5 Consumer"
  define r where "r = run_turns [] (new_system ''q'' False 2 1) ?as"
  obtain es q where r: "r = Some (es, q, [Push_published], Pop_idle)" "popped es = [Some 7]" "q_size q = - 1"
    unfolding r_def
    by (simp add: new_system_def new_queue_def slot_at_def slot_index_def set_slot_def numeral_2_eq_2 numeral_eq_Suc)
  then show ?thesis using run_turns_run [OF queue_run.start] unfolding r_def by blast
qed

end
