(* ===== verification/Profit_Loss.thy ===== *)
theory Profit_Loss
  imports Prelude
begin

text \<open>
  The profit and loss account of a strategy (\<^verbatim>\<open>src/server_app/pnl\<close>): position, average entry
  price, realized and unrealized result. Prices, volumes and fees are real numbers. A sale has
  a negative volume. The JSON report \<^verbatim>\<open>get_data\<close> is its list of named numbers.
\<close>

section \<open>Definitions\<close>

record 'i PnL =
  pnl_instrument :: "'i option"
  volume :: real
  avg_price :: real
  current_price :: real
  realized :: real
  realized_profit :: real
  realized_loss :: real
  unrealized :: real
  price_diff :: real

definition new_pnl :: "'i option \<Rightarrow> 'i PnL" where
  "new_pnl ins = \<lparr>pnl_instrument = ins, volume = 0, avg_price = 0, current_price = 0, realized = 0,
     realized_profit = 0, realized_loss = 0, unrealized = 0, price_diff = 0\<rparr>"

definition reset_pnl :: "'i PnL \<Rightarrow> 'i PnL" where
  "reset_pnl s = s\<lparr>volume := 0, avg_price := 0, current_price := 0, realized := 0,
     realized_profit := 0, realized_loss := 0, unrealized := 0, price_diff := 0\<rparr>"

definition update_pnl_instrument :: "'i PnL \<Rightarrow> 'i option \<Rightarrow> 'i PnL" where
  "update_pnl_instrument s ins = s\<lparr>pnl_instrument := ins\<rparr>"

definition update_realized_profit_loss :: "'i PnL \<Rightarrow> real \<Rightarrow> 'i PnL" where
  "update_realized_profit_loss s v =
     (let s = (if v > 0 then s\<lparr>realized_profit := realized_profit s + v\<rparr>
               else s\<lparr>realized_loss := realized_loss s + v\<rparr>)
      in s\<lparr>realized := realized s + v\<rparr>)"

definition update_current_price :: "'i PnL \<Rightarrow> real \<Rightarrow> 'i PnL" where
  "update_current_price s p =
     (let s = s\<lparr>current_price := p\<rparr>
      in s\<lparr>unrealized := volume s * (current_price s - avg_price s)\<rparr>)"

definition TINY :: real where
  "TINY = 1 / 10 ^ 12"

definition update_trade :: "'i PnL \<Rightarrow> real \<Rightarrow> real \<Rightarrow> real \<Rightarrow> 'i PnL" where
  "update_trade s p v fee =
     (if \<bar>v\<bar> < TINY then s
      else
        let s = (if \<bar>volume s + v\<bar> < TINY then
                   (update_realized_profit_loss s (volume s * (p - avg_price s) - fee))
                     \<lparr>volume := 0, avg_price := 0, unrealized := 0\<rparr>
                 else if volume s * v > 0 then
                   let total_cost = avg_price s * volume s + p * v + fee;
                       s = s\<lparr>volume := volume s + v\<rparr>
                   in s\<lparr>avg_price := total_cost / volume s\<rparr>
                 else if \<bar>v\<bar> > \<bar>volume s\<bar> then
                   let s = update_realized_profit_loss s (volume s * (p - avg_price s) - fee)
                   in s\<lparr>avg_price := p, volume := volume s + v\<rparr>
                 else
                   let sign = (if volume s > 0 then 1 else -1);
                       s = update_realized_profit_loss s (sign * \<bar>v\<bar> * (p - avg_price s) - fee)
                   in s\<lparr>volume := volume s + v\<rparr>)
        in s\<lparr>unrealized := volume s * (current_price s - avg_price s)\<rparr>)"

definition get_pnl_data :: "'i PnL \<Rightarrow> (string \<times> real) list" where
  "get_pnl_data s =
     [(''volume'', volume s), (''price_diff'', current_price s - avg_price s), (''avg_price'', avg_price s),
      (''current_price'', current_price s), (''loss'', realized_loss s), (''profit'', realized_profit s),
      (''[unrealized]'', unrealized s), (''[realized]'', realized s), (''[total]'', realized s + unrealized s)]"

section \<open>Accounting\<close>

text \<open>
  What happened to the account: trades with price, signed volume and fee, and price updates.
  The reference is the cash account: a trade pays \<open>price * volume\<close> and the fee, and moves the
  position by its volume; the code ignores trades of less than \<open>TINY\<close>.
\<close>

datatype pnl_event = Trade real real real | Price real

fun pnl_step :: "'i PnL \<Rightarrow> pnl_event \<Rightarrow> 'i PnL" where
  "pnl_step s (Trade p v fee) = update_trade s p v fee"
| "pnl_step s (Price p) = update_current_price s p"

fun cash_of :: "pnl_event \<Rightarrow> real" where
  "cash_of (Trade p v fee) = (if \<bar>v\<bar> < TINY then 0 else - (p * v) - fee)"
| "cash_of (Price p) = 0"

fun bought :: "pnl_event \<Rightarrow> real" where
  "bought (Trade p v fee) = (if \<bar>v\<bar> < TINY then 0 else v)"
| "bought (Price p) = 0"

fun slack :: "pnl_event \<Rightarrow> real" where
  "slack (Trade p v fee) = TINY * \<bar>p\<bar>"
| "slack (Price p) = 0"

definition last_price :: "real \<Rightarrow> pnl_event list \<Rightarrow> real" where
  "last_price p0 es = foldl (\<lambda>p e. case e of Price q \<Rightarrow> q | _ \<Rightarrow> p) p0 es"

lemma realized_update [simp]:
  "realized (update_realized_profit_loss s v) = realized s + v"
  "volume (update_realized_profit_loss s v) = volume s"
  "avg_price (update_realized_profit_loss s v) = avg_price s"
  "current_price (update_realized_profit_loss s v) = current_price s"
  by (simp_all add: update_realized_profit_loss_def Let_def)

text \<open>What the position cost, \<open>volume * avg_price\<close>, and the realized result account for all cash.\<close>

definition book_value :: "'i PnL \<Rightarrow> real" where
  "book_value s = realized s - volume s * avg_price s"

lemma update_trade_book:
  "\<bar>book_value (update_trade s p v fee) - (book_value s + cash_of (Trade p v fee))\<bar> \<le> TINY * \<bar>p\<bar>"
proof -
  have tiny: "0 < TINY" by (simp add: TINY_def)
  consider (none) "\<bar>v\<bar> < TINY"
    | (close) "\<not> \<bar>v\<bar> < TINY" "\<bar>volume s + v\<bar> < TINY"
    | (increase) "\<not> \<bar>v\<bar> < TINY" "\<not> \<bar>volume s + v\<bar> < TINY" "volume s * v > 0"
    | (flip) "\<not> \<bar>v\<bar> < TINY" "\<not> \<bar>volume s + v\<bar> < TINY" "\<not> volume s * v > 0" "\<bar>v\<bar> > \<bar>volume s\<bar>"
    | (reduce) "\<not> \<bar>v\<bar> < TINY" "\<not> \<bar>volume s + v\<bar> < TINY" "\<not> volume s * v > 0" "\<not> \<bar>v\<bar> > \<bar>volume s\<bar>"
    by blast
  then show ?thesis
  proof cases
    case none
    then show ?thesis using tiny by (simp add: update_trade_def)
  next
    case close
    then have "book_value (update_trade s p v fee) - (book_value s + cash_of (Trade p v fee)) = (volume s + v) * p"
      by (simp add: update_trade_def book_value_def Let_def algebra_simps)
    moreover have "\<bar>(volume s + v) * p\<bar> \<le> TINY * \<bar>p\<bar>"
      using close(2) by (simp add: abs_mult mult_right_mono)
    ultimately show ?thesis by simp
  next
    case increase
    then have "volume s + v \<noteq> 0" using tiny by auto
    with increase have "volume (update_trade s p v fee) * avg_price (update_trade s p v fee)
        = avg_price s * volume s + p * v + fee" "realized (update_trade s p v fee) = realized s"
      by (simp_all add: update_trade_def Let_def)
    with increase have "book_value (update_trade s p v fee) = book_value s + cash_of (Trade p v fee)"
      by (simp add: book_value_def)
    then show ?thesis using tiny by simp
  next
    case flip
    then have "book_value (update_trade s p v fee) = book_value s + cash_of (Trade p v fee)"
      by (simp add: update_trade_def book_value_def Let_def algebra_simps)
    then show ?thesis using tiny by simp
  next
    case reduce
    have "volume s > 0 \<and> \<bar>v\<bar> = - v \<or> \<not> volume s > 0 \<and> \<bar>v\<bar> = v"
      using reduce by (auto simp: zero_less_mult_iff abs_if split: if_splits)
    with reduce have "book_value (update_trade s p v fee) = book_value s + cash_of (Trade p v fee)"
      by (auto simp: update_trade_def book_value_def Let_def algebra_simps)
    then show ?thesis using tiny by simp
  qed
qed

lemma update_trade_volume:
  "\<bar>volume (update_trade s p v fee) - (volume s + bought (Trade p v fee))\<bar> \<le> TINY"
proof -
  have "0 \<le> TINY" by (simp add: TINY_def)
  moreover have "\<bar>0 - (volume s + v)\<bar> = \<bar>volume s + v\<bar>" by linarith
  ultimately show ?thesis by (simp add: update_trade_def Let_def del: diff_0)
qed

lemma update_trade_current [simp]: "current_price (update_trade s p v fee) = current_price s"
  by (simp add: update_trade_def Let_def)

text \<open>The parts of the account that always agree.\<close>

definition pnl_inv :: "'i PnL \<Rightarrow> bool" where
  "pnl_inv s \<longleftrightarrow>
     unrealized s = volume s * (current_price s - avg_price s) \<and>
     realized s = realized_profit s + realized_loss s \<and> 0 \<le> realized_profit s \<and> realized_loss s \<le> 0"

definition split_inv :: "'i PnL \<Rightarrow> bool" where
  "split_inv s \<longleftrightarrow> realized s = realized_profit s + realized_loss s \<and> 0 \<le> realized_profit s \<and> realized_loss s \<le> 0"

lemma split_inv_update: "split_inv s \<Longrightarrow> split_inv (update_realized_profit_loss s v)"
  by (auto simp: split_inv_def update_realized_profit_loss_def Let_def)

lemma split_inv_frame [simp]:
  "split_inv (s\<lparr>volume := a\<rparr>) = split_inv s" "split_inv (s\<lparr>avg_price := a\<rparr>) = split_inv s"
  "split_inv (s\<lparr>unrealized := a\<rparr>) = split_inv s" "split_inv (s\<lparr>current_price := a\<rparr>) = split_inv s"
  by (simp_all add: split_inv_def)

lemma pnl_inv_split: "pnl_inv s \<longleftrightarrow> split_inv s \<and> unrealized s = volume s * (current_price s - avg_price s)"
  by (auto simp: pnl_inv_def split_inv_def)

lemma pnl_step_inv: "pnl_inv s \<Longrightarrow> pnl_inv (pnl_step s e)"
  by (cases e) (auto simp: pnl_inv_split update_trade_def update_current_price_def Let_def split_inv_update)

lemma new_pnl_inv: "pnl_inv (new_pnl ins)"
  by (simp add: pnl_inv_def new_pnl_def)

lemma reset_pnl_new: "reset_pnl s = (new_pnl (pnl_instrument s))"
  by (simp add: reset_pnl_def new_pnl_def)

lemma pnl_run:
  "\<bar>book_value (foldl pnl_step s es) - (book_value s + sum_list (map cash_of es))\<bar> \<le> sum_list (map slack es) \<and>
   \<bar>volume (foldl pnl_step s es) - (volume s + sum_list (map bought es))\<bar> \<le> TINY * real (length es) \<and>
   current_price (foldl pnl_step s es) = last_price (current_price s) es"
proof (induction es arbitrary: s)
  case Nil
  then show ?case by (simp add: last_price_def)
next
  case (Cons e es)
  have "\<bar>book_value (pnl_step s e) - (book_value s + cash_of e)\<bar> \<le> slack e"
    using update_trade_book [of s] by (cases e) (simp_all add: update_current_price_def book_value_def Let_def del: cash_of.simps(1))
  moreover have "\<bar>volume (pnl_step s e) - (volume s + bought e)\<bar> \<le> TINY"
    using update_trade_volume [of s] by (cases e) (simp_all add: update_current_price_def Let_def TINY_def del: bought.simps(1))
  moreover have "current_price (pnl_step s e) = last_price (current_price s) [e]"
    by (cases e) (simp_all add: update_current_price_def last_price_def Let_def)
  ultimately show ?case using Cons.IH [of "pnl_step s e"] by (auto simp: last_price_def algebra_simps)
qed

section \<open>Properties\<close>

text \<open>
  (C6) After any sequence of trades and price updates on a new account the reported total,
  realized plus unrealized, is the cash the trades left (sales minus purchases minus fees) plus
  the position valued at the current price: opening, extending, reducing, closing and reversing
  a position neither create nor lose money. The difference is at most \<open>10\<^sup>-\<^sup>1\<^sup>2\<close> per trade and unit of
  price, where a close rounds a rest of the position away. The position is the sum of the trades
  up to the same rounding, and the realized result is split into profits and losses.
\<close>

theorem pnl_accounts_for_all_cash:
  fixes ins :: "'i option"
  defines "s es \<equiv> foldl pnl_step (new_pnl ins) es"
  shows "\<bar>realized (s es) + unrealized (s es)
      - (sum_list (map cash_of es) + volume (s es) * last_price 0 es)\<bar> \<le> sum_list (map slack es) \<and>
    \<bar>volume (s es) - sum_list (map bought es)\<bar> \<le> TINY * real (length es) \<and>
    realized (s es) = realized_profit (s es) + realized_loss (s es) \<and>
    0 \<le> realized_profit (s es) \<and> realized_loss (s es) \<le> 0"
proof -
  have "pnl_inv (foldl pnl_step s0 es)" if "pnl_inv s0" for s0 :: "'i PnL"
    using that by (induction es arbitrary: s0) (auto intro: pnl_step_inv)
  then have inv: "pnl_inv (s es)" using new_pnl_inv [of ins] by (simp add: s_def)
  have run: "\<bar>book_value (s es) - sum_list (map cash_of es)\<bar> \<le> sum_list (map slack es)"
    "\<bar>volume (s es) - sum_list (map bought es)\<bar> \<le> TINY * real (length es)"
    "current_price (s es) = last_price 0 es"
    using pnl_run [of "new_pnl ins" es] by (simp_all add: s_def new_pnl_def book_value_def)
  have "realized (s es) + unrealized (s es) = book_value (s es) + volume (s es) * last_price 0 es"
    using inv run(3) by (simp add: pnl_inv_def book_value_def algebra_simps)
  with run inv show ?thesis by (simp add: pnl_inv_def)
qed

end
