(* ===== verification/Volume_Stat.thy ===== *)
theory Volume_Stat
  imports Prelude
begin

text \<open>
  Traded volume per price over a sliding window of time (\<^verbatim>\<open>src/server_app/volume_stat\<close>): a
  \<^verbatim>\<open>VolumeStat\<close> holds one \<^verbatim>\<open>TradeVolumeAtPrice\<close> for each whole-number price, with a queue of the
  trades it counts. Prices and quantities are reals, times and indices 64-bit words; the clock
  is an argument. Reading past the end of the vector is reported as an error.
\<close>

section \<open>Definitions\<close>

record TradeUpdate =
  trade_price :: real
  quantity :: real
  is_buy :: bool
  trade_id :: nat
  timestamp :: u64

record TradeVolumeAtPrice =
  level_price :: real
  total_buy_volume :: real
  total_sell_volume :: real
  trades :: "TradeUpdate list"

record VolumeStat =
  m_trade_volumes :: "TradeVolumeAtPrice list"
  m_max_price_index :: nat
  m_min_price_index :: nat

definition empty_level :: TradeVolumeAtPrice where
  "empty_level = \<lparr>level_price = 0, total_buy_volume = 0, total_sell_volume = 0, trades = []\<rparr>"

text \<open>The constructors reserve space only: the vector is empty, and its size minus one wraps.\<close>

definition new_volume_stat :: VolumeStat where
  "new_volume_stat = \<lparr>m_trade_volumes = [], m_max_price_index = 0, m_min_price_index = 2 ^ 64 - 1\<rparr>"

text \<open>\<^verbatim>\<open>(size_t)price\<close> for a price from \<open>0\<close> up to \<open>2\<^sup>64\<close>.\<close>

definition price_index_of :: "real \<Rightarrow> nat" where
  "price_index_of p = nat \<lfloor>p\<rfloor>"

definition add_volume :: "TradeVolumeAtPrice \<Rightarrow> TradeUpdate \<Rightarrow> TradeVolumeAtPrice" where
  "add_volume l tr =
     (let l = l\<lparr>level_price := real (price_index_of (trade_price tr))\<rparr>;
          l = (if is_buy tr then l\<lparr>total_buy_volume := total_buy_volume l + quantity tr\<rparr>
               else l\<lparr>total_sell_volume := total_sell_volume l + quantity tr\<rparr>)
      in l\<lparr>trades := trades l @ [tr]\<rparr>)"

definition drop_volume :: "TradeVolumeAtPrice \<Rightarrow> TradeUpdate \<Rightarrow> TradeVolumeAtPrice" where
  "drop_volume l tr =
     (if is_buy tr then l\<lparr>total_buy_volume := total_buy_volume l - quantity tr\<rparr>
      else l\<lparr>total_sell_volume := total_sell_volume l - quantity tr\<rparr>)"

fun remove_loop :: "u64 \<Rightarrow> u64 \<Rightarrow> TradeVolumeAtPrice \<Rightarrow> TradeUpdate list \<Rightarrow> TradeVolumeAtPrice" where
  "remove_loop now duration l [] = l\<lparr>trades := []\<rparr>"
| "remove_loop now duration l (tr # trs) =
     (if now - timestamp tr > duration then remove_loop now duration (drop_volume l tr) trs
      else l\<lparr>trades := tr # trs\<rparr>)"

definition remove_old_trades :: "u64 \<Rightarrow> TradeVolumeAtPrice \<Rightarrow> u64 \<Rightarrow> TradeVolumeAtPrice" where
  "remove_old_trades now l duration_in_seconds =
     (if trades l = [] then l else remove_loop now (duration_in_seconds * 1000000000) l (trades l))"

definition update_max_min_price_index :: "VolumeStat \<Rightarrow> nat \<Rightarrow> VolumeStat" where
  "update_max_min_price_index s i =
     s\<lparr>m_max_price_index := max (m_max_price_index s) i, m_min_price_index := min (m_min_price_index s) i\<rparr>"

definition resize_volumes :: "nat \<Rightarrow> TradeVolumeAtPrice list \<Rightarrow> TradeVolumeAtPrice list" where
  "resize_volumes n ls = take n ls @ replicate (n - length ls) empty_level"

definition add_trade_volume :: "VolumeStat \<Rightarrow> TradeUpdate \<Rightarrow> VolumeStat" where
  "add_trade_volume s tr =
     (let i = price_index_of (trade_price tr);
          ls = m_trade_volumes s;
          ls = (if length ls \<le> i then resize_volumes (i + 1) ls else ls)
      in update_max_min_price_index (s\<lparr>m_trade_volumes := ls[i := add_volume (ls ! i) tr]\<rparr>) i)"

definition remove_old_volumes :: "u64 \<Rightarrow> VolumeStat \<Rightarrow> u64 \<Rightarrow> cpp_error + VolumeStat" where
  "remove_old_volumes now s duration_in_seconds =
     sum_fold (\<lambda>s i. if i < length (m_trade_volumes s)
                     then Inr (s\<lparr>m_trade_volumes := (m_trade_volumes s)
                                [i := remove_old_trades now (m_trade_volumes s ! i) duration_in_seconds]\<rparr>)
                     else Inl UB_out_of_bounds)
       s [m_min_price_index s..<Suc (m_max_price_index s)]"

definition get_trade_volume_at_price :: "VolumeStat \<Rightarrow> real \<Rightarrow> cpp_error + TradeVolumeAtPrice option" where
  "get_trade_volume_at_price s p =
     (let i = price_index_of p
      in if i \<le> m_min_price_index s \<or> m_max_price_index s \<le> i then Inr None
         else if i < length (m_trade_volumes s) then Inr (Some (m_trade_volumes s ! i)) else Inl UB_out_of_bounds)"

text \<open>
  The report: rows for the prices from the highest down to the lowest, and the totals. The
  index \<open>i\<close> of the loop is unsigned. When it has passed \<open>0\<close>, which only happens for the lower end
  \<open>lo = 0\<close>, it goes on with \<open>2\<^sup>64 - 1\<close>, and the next read is past the end of any vector.
\<close>

record volume_report =
  rows :: "(nat \<times> real \<times> real) list"
  report_buy :: real
  report_sell :: real

definition report_level :: "real \<Rightarrow> nat \<Rightarrow> TradeVolumeAtPrice \<Rightarrow> volume_report \<Rightarrow> volume_report" where
  "report_level min_volume i l r =
     (if total_buy_volume l \<le> min_volume \<and> total_sell_volume l \<le> min_volume then r
      else r\<lparr>report_buy := report_buy r + total_buy_volume l, report_sell := report_sell r + total_sell_volume l,
             rows := rows r @ [(i, total_buy_volume l, total_sell_volume l)]\<rparr>)"

fun report_loop :: "real \<Rightarrow> TradeVolumeAtPrice list \<Rightarrow> nat \<Rightarrow> nat \<Rightarrow> volume_report \<Rightarrow> cpp_error + volume_report" where
  "report_loop min_volume ls lo i r =
     (if i < lo then Inr r
      else if length ls \<le> i then Inl UB_out_of_bounds
      else if i = 0 then Inl UB_out_of_bounds
      else report_loop min_volume ls lo (i - 1) (report_level min_volume i (ls ! i) r))"

definition get_volume_data :: "VolumeStat \<Rightarrow> real \<Rightarrow> cpp_error + volume_report" where
  "get_volume_data s min_volume =
     report_loop min_volume (m_trade_volumes s) (m_min_price_index s) (m_max_price_index s)
       \<lparr>rows = [], report_buy = 0, report_sell = 0\<rparr>"

section \<open>Invariant\<close>

definition window_volume :: "bool \<Rightarrow> TradeUpdate list \<Rightarrow> real" where
  "window_volume buy trs = sum_list (map quantity (filter (\<lambda>tr. is_buy tr = buy) trs))"

lemma window_volume_simps [simp]:
  "window_volume buy [] = 0"
  "window_volume buy (tr # trs) = (if is_buy tr = buy then quantity tr else 0) + window_volume buy trs"
  "window_volume buy (trs @ trs') = window_volume buy trs + window_volume buy trs'"
  by (simp_all add: window_volume_def)

definition level_inv :: "TradeVolumeAtPrice \<Rightarrow> bool" where
  "level_inv l \<longleftrightarrow> total_buy_volume l = window_volume True (trades l) \<and>
     total_sell_volume l = window_volume False (trades l)"

lemma empty_level_inv [simp]: "level_inv empty_level"
  by (simp add: level_inv_def empty_level_def)

lemma add_volume_inv: "level_inv l \<Longrightarrow> level_inv (add_volume l tr)"
  by (simp add: level_inv_def add_volume_def Let_def)

text \<open>The loop removes the old trades at the front of the queue, and their volume.\<close>

lemma remove_loop_eq:
  "remove_loop now d l trs =
     l\<lparr>trades := dropWhile (\<lambda>tr. now - timestamp tr > d) trs,
       total_buy_volume := total_buy_volume l - window_volume True (takeWhile (\<lambda>tr. now - timestamp tr > d) trs),
       total_sell_volume := total_sell_volume l - window_volume False (takeWhile (\<lambda>tr. now - timestamp tr > d) trs)\<rparr>"
  by (induction now d l trs rule: remove_loop.induct) (auto simp: drop_volume_def)

lemma remove_old_trades_trades:
  "trades (remove_old_trades now l d) = dropWhile (\<lambda>tr. now - timestamp tr > d * 1000000000) (trades l)"
  by (simp add: remove_old_trades_def remove_loop_eq)

lemma remove_old_trades_inv:
  assumes "level_inv l"
  shows "level_inv (remove_old_trades now l d)"
proof -
  let ?P = "\<lambda>tr. now - timestamp tr > d * 1000000000"
  have "window_volume b (trades l) = window_volume b (takeWhile ?P (trades l)) + window_volume b (dropWhile ?P (trades l))" for b
    using window_volume_simps(3) [of b "takeWhile ?P (trades l)" "dropWhile ?P (trades l)"] by simp
  then show ?thesis using assms by (simp add: level_inv_def remove_old_trades_def remove_loop_eq)
qed

definition stat_inv :: "VolumeStat \<Rightarrow> bool" where
  "stat_inv s \<longleftrightarrow>
     (\<forall>l \<in> set (m_trade_volumes s). level_inv l) \<and>
     (if m_trade_volumes s = [] then s = new_volume_stat
      else m_min_price_index s \<le> m_max_price_index s \<and> m_max_price_index s < length (m_trade_volumes s)) \<and>
     (\<forall>i < length (m_trade_volumes s). trades (m_trade_volumes s ! i) \<noteq> [] \<longrightarrow>
        m_min_price_index s \<le> i \<and> i \<le> m_max_price_index s)"

lemma new_volume_stat_inv: "stat_inv new_volume_stat"
  by (simp add: stat_inv_def new_volume_stat_def)

lemma resize_volumes_nth:
  "length (resize_volumes n ls) = n"
  "i < n \<Longrightarrow> resize_volumes n ls ! i = (if i < length ls then ls ! i else empty_level)"
  by (auto simp: resize_volumes_def nth_append)

lemma add_trade_volume_levels:
  defines "i tr \<equiv> price_index_of (trade_price tr)"
  shows "length (m_trade_volumes (add_trade_volume s tr)) = max (length (m_trade_volumes s)) (Suc (i tr))"
    and "j < length (m_trade_volumes (add_trade_volume s tr)) \<Longrightarrow>
      m_trade_volumes (add_trade_volume s tr) ! j =
        (let l = (if j < length (m_trade_volumes s) then m_trade_volumes s ! j else empty_level)
         in if j = i tr then add_volume l tr else l)"
  by (auto simp: add_trade_volume_def update_max_min_price_index_def resize_volumes_nth i_def Let_def nth_list_update)

lemma add_trade_volume_inv:
  assumes inv: "stat_inv s" and bound: "price_index_of (trade_price tr) < 2 ^ 64"
  shows "stat_inv (add_trade_volume s tr)"
proof -
  let ?i = "price_index_of (trade_price tr)" and ?s = "add_trade_volume s tr"
  note lv = add_trade_volume_levels
  have ends: "m_max_price_index ?s = max (m_max_price_index s) ?i" "m_min_price_index ?s = min (m_min_price_index s) ?i"
    by (simp_all add: add_trade_volume_def update_max_min_price_index_def Let_def)
  have old: "level_inv (if j < length (m_trade_volumes s) then m_trade_volumes s ! j else empty_level)" for j
    using inv by (simp add: stat_inv_def)
  have "level_inv (m_trade_volumes ?s ! j)" if "j < length (m_trade_volumes ?s)" for j
    using lv(2) [OF that] old [of j] add_volume_inv [OF old [of j], of tr] by (auto simp: Let_def split: if_splits)
  then have levels: "\<forall>l \<in> set (m_trade_volumes ?s). level_inv l" by (auto simp: in_set_conv_nth)
  have max: "m_max_price_index ?s < length (m_trade_volumes ?s)"
    using inv lv(1) ends(1) by (auto simp: stat_inv_def new_volume_stat_def split: if_splits)
  have "m_min_price_index ?s \<le> j \<and> j \<le> m_max_price_index ?s"
    if "j < length (m_trade_volumes ?s)" "trades (m_trade_volumes ?s ! j) \<noteq> []" for j
  proof (cases "j = ?i")
    case False
    then have "j < length (m_trade_volumes s)" "trades (m_trade_volumes s ! j) \<noteq> []"
      using lv(2) [OF that(1)] that(2) by (auto simp: Let_def empty_level_def split: if_splits)
    then show ?thesis using inv ends by (auto simp: stat_inv_def)
  qed (simp add: ends)
  with levels max show ?thesis using ends by (auto simp: stat_inv_def)
qed

lemma remove_old_volumes_ok:
  assumes "stat_inv s"
  shows "\<exists>s'. remove_old_volumes now s d = Inr s' \<and> stat_inv s' \<and>
    length (m_trade_volumes s') = length (m_trade_volumes s) \<and>
    m_min_price_index s' = m_min_price_index s \<and> m_max_price_index s' = m_max_price_index s \<and>
    (\<forall>j < length (m_trade_volumes s). trades (m_trade_volumes s' ! j) = trades (remove_old_trades now (m_trade_volumes s ! j) d))"
proof -
  define body where "body s i = (if i < length (m_trade_volumes s)
      then Inr (s\<lparr>m_trade_volumes := (m_trade_volumes s)[i := remove_old_trades now (m_trade_volumes s ! i) d]\<rparr>)
      else Inl UB_out_of_bounds)" for s :: VolumeStat and i
  have loop: "sum_fold body s is = Inr (s\<lparr>m_trade_volumes :=
      map (\<lambda>j. if j \<in> set is then remove_old_trades now (m_trade_volumes s ! j) d else m_trade_volumes s ! j)
        [0..<length (m_trade_volumes s)]\<rparr>)"
    if "distinct is" "set is \<subseteq> {0..<length (m_trade_volumes s)}" for s "is"
    using that
  proof (induction "is" arbitrary: s)
    case Nil
    then show ?case by (simp add: map_nth)
  next
    case (Cons i "is")
    then show ?case by (auto simp: body_def nth_list_update intro!: nth_equalityI)
  qed
  let ?is = "[m_min_price_index s..<Suc (m_max_price_index s)]"
  have "set ?is \<subseteq> {0..<length (m_trade_volumes s)}"
    using assms by (auto simp: stat_inv_def new_volume_stat_def split: if_splits)
  note run = loop [OF distinct_upt this]
  have start: "remove_old_volumes now s d = sum_fold body s ?is"
    unfolding remove_old_volumes_def body_def [abs_def] by (rule refl)
  have none: "trades (remove_old_trades now l d) = []" if "trades l = []" for l
    using that by (simp add: remove_old_trades_def)
  have out: "trades (m_trade_volumes s ! j) = []" if "j \<notin> set ?is" "j < length (m_trade_volumes s)" for j
    using assms that by (auto simp: stat_inv_def)
  define s' where "s' = s\<lparr>m_trade_volumes := map (\<lambda>j. if j \<in> set ?is then remove_old_trades now (m_trade_volumes s ! j) d
      else m_trade_volumes s ! j) [0..<length (m_trade_volumes s)]\<rparr>"
  have same: "length (m_trade_volumes s') = length (m_trade_volumes s)" "m_min_price_index s' = m_min_price_index s"
    "m_max_price_index s' = m_max_price_index s" by (simp_all add: s'_def)
  have nth: "m_trade_volumes s' ! j = (if j \<in> set ?is then remove_old_trades now (m_trade_volumes s ! j) d else m_trade_volumes s ! j)"
    if "j < length (m_trade_volumes s)" for j using that by (auto simp: s'_def)
  have trs: "trades (m_trade_volumes s' ! j) = trades (remove_old_trades now (m_trade_volumes s ! j) d)"
    if "j < length (m_trade_volumes s)" for j
    using nth [OF that] out [OF _ that] none by (cases "j \<in> set ?is") (simp_all del: set_upt)
  have "level_inv (m_trade_volumes s' ! j)" if "j < length (m_trade_volumes s)" for j
    using nth [OF that] that assms remove_old_trades_inv by (simp add: stat_inv_def del: set_upt)
  then have levels: "\<forall>l \<in> set (m_trade_volumes s'). level_inv l" by (auto simp: in_set_conv_nth same)
  have "m_trade_volumes s = [] \<Longrightarrow> s' = s" by (simp add: s'_def)
  moreover have "trades (m_trade_volumes s ! j) \<noteq> []" if "j < length (m_trade_volumes s)" "trades (m_trade_volumes s' ! j) \<noteq> []" for j
    using trs [OF that(1)] that(2) none by metis
  moreover have "m_trade_volumes s' = [] \<longleftrightarrow> m_trade_volumes s = []" using same(1) by (metis length_0_conv)
  ultimately have "stat_inv s'" using assms levels same by (auto simp: stat_inv_def)
  moreover have "remove_old_volumes now s d = Inr s'" by (simp only: start run s'_def)
  ultimately show ?thesis using same trs by blast
qed

section \<open>The report\<close>

definition reported :: "real \<Rightarrow> TradeVolumeAtPrice \<Rightarrow> bool" where
  "reported min_volume l \<longleftrightarrow> \<not> (total_buy_volume l \<le> min_volume \<and> total_sell_volume l \<le> min_volume)"

definition report_rows :: "real \<Rightarrow> TradeVolumeAtPrice list \<Rightarrow> nat list \<Rightarrow> (nat \<times> real \<times> real) list" where
  "report_rows min_volume ls is =
     map (\<lambda>i. (i, total_buy_volume (ls ! i), total_sell_volume (ls ! i))) (filter (\<lambda>i. reported min_volume (ls ! i)) is)"

definition add_rows :: "volume_report \<Rightarrow> (nat \<times> real \<times> real) list \<Rightarrow> volume_report" where
  "add_rows r rs = \<lparr>rows = rows r @ rs, report_buy = report_buy r + sum_list (map (fst \<circ> snd) rs),
     report_sell = report_sell r + sum_list (map (snd \<circ> snd) rs)\<rparr>"

lemma report_level_eq: "report_level mv i (ls ! i) r = add_rows r (report_rows mv ls [i])"
  by (cases r) (simp add: report_level_def add_rows_def report_rows_def reported_def)

lemma add_rows_append: "add_rows (add_rows r rs) rs' = add_rows r (rs @ rs')"
  by (simp add: add_rows_def)

lemma report_rows_Cons: "report_rows mv ls (i # is) = report_rows mv ls [i] @ report_rows mv ls is"
  by (simp add: report_rows_def)

declare report_loop.simps [simp del]

lemma report_loop_eq:
  "0 < lo \<Longrightarrow> i < length ls \<Longrightarrow> report_loop mv ls lo i r = Inr (add_rows r (report_rows mv ls (rev [lo..<Suc i])))"
proof (induction i arbitrary: r)
  case 0
  then show ?case by (cases r) (simp add: report_loop.simps [of _ _ _ 0] add_rows_def report_rows_def)
next
  case (Suc i)
  show ?case
  proof (cases "Suc i < lo")
    case True
    then show ?thesis by (cases r) (simp add: report_loop.simps [of _ _ _ "Suc i"] add_rows_def report_rows_def)
  next
    case False
    then have "rev [lo..<Suc (Suc i)] = Suc i # rev [lo..<Suc i]" by simp
    moreover have "report_loop mv ls lo (Suc i) r = report_loop mv ls lo i (report_level mv (Suc i) (ls ! Suc i) r)"
      using False Suc.prems by (subst report_loop.simps) simp
    ultimately show ?thesis
      using Suc.IH [of "report_level mv (Suc i) (ls ! Suc i) r"] Suc.prems
      by (simp add: report_level_eq add_rows_append report_rows_Cons [of mv ls "Suc i" "rev [lo..<Suc i]"] del: upt_Suc)
  qed
qed

lemma report_loop_zero: "i < length ls \<Longrightarrow> report_loop mv ls 0 i r = Inl UB_out_of_bounds"
  by (induction i arbitrary: r) (simp_all add: report_loop.simps)

section \<open>Properties\<close>

inductive stat_reachable :: "VolumeStat \<Rightarrow> bool" where
  new: "stat_reachable new_volume_stat"
| add: "stat_reachable s \<Longrightarrow> trade_price tr < 2 ^ 64 \<Longrightarrow> stat_reachable (add_trade_volume s tr)"
| remove: "stat_reachable s \<Longrightarrow> remove_old_volumes now s d = Inr s' \<Longrightarrow> stat_reachable s'"

lemma stat_reachable_inv: "stat_reachable s \<Longrightarrow> stat_inv s"
proof (induction rule: stat_reachable.induct)
  case (add s tr)
  have "price_index_of (trade_price tr) < 2 ^ 64"
  proof -
    have "\<lfloor>trade_price tr\<rfloor> < 2 ^ 64" using add(2) by (simp add: floor_less_iff)
    then show ?thesis by (cases "0 \<le> \<lfloor>trade_price tr\<rfloor>") (simp_all add: price_index_of_def nat_less_iff)
  qed
  then show ?case using add(3) by (rule add_trade_volume_inv [rotated])
next
  case (remove s now d s')
  then show ?case using remove_old_volumes_ok [of s now d] by auto
qed (rule new_volume_stat_inv)

text \<open>
  (C33) In every reachable state the totals of a level are the volumes of the trades in its
  queue, removing old trades never reads out of range, and the report lists, from the highest
  price to the lowest, the levels above the threshold with their volumes and the sums of these.
  The exception: once a trade below price 1 has been counted the report reads out of range. And
  the query for one price finds nothing at the lowest and at the highest traded price.
\<close>

theorem volume_report_is_exact:
  assumes "stat_reachable s" and "m_trade_volumes s \<noteq> []"
  defines "ls \<equiv> m_trade_volumes s" and "lo \<equiv> m_min_price_index s" and "hi \<equiv> m_max_price_index s"
  shows "(\<forall>l \<in> set ls. total_buy_volume l = window_volume True (trades l) \<and>
        total_sell_volume l = window_volume False (trades l)) \<and>
    (\<exists>s'. remove_old_volumes now s d = Inr s') \<and>
    (\<forall>i < length ls. trades (ls ! i) \<noteq> [] \<longrightarrow> lo \<le> i \<and> i \<le> hi) \<and>
    (0 < lo \<longrightarrow> get_volume_data s min_volume =
      Inr (add_rows \<lparr>rows = [], report_buy = 0, report_sell = 0\<rparr> (report_rows min_volume ls (rev [lo..<Suc hi])))) \<and>
    (lo = 0 \<longrightarrow> get_volume_data s min_volume = Inl UB_out_of_bounds) \<and>
    get_trade_volume_at_price s (real lo) = Inr None \<and> get_trade_volume_at_price s (real hi) = Inr None"
proof -
  have inv: "stat_inv s" by (rule stat_reachable_inv [OF assms(1)])
  then have hi: "hi < length ls" using assms(2) by (simp add: stat_inv_def ls_def hi_def)
  have "\<forall>l \<in> set ls. total_buy_volume l = window_volume True (trades l) \<and> total_sell_volume l = window_volume False (trades l)"
    "\<forall>i < length ls. trades (ls ! i) \<noteq> [] \<longrightarrow> lo \<le> i \<and> i \<le> hi"
    using inv by (simp_all add: stat_inv_def ls_def lo_def hi_def level_inv_def)
  moreover have "\<exists>s'. remove_old_volumes now s d = Inr s'" using remove_old_volumes_ok [OF inv] by blast
  moreover have "get_volume_data s min_volume =
      Inr (add_rows \<lparr>rows = [], report_buy = 0, report_sell = 0\<rparr> (report_rows min_volume ls (rev [lo..<Suc hi])))"
    if "0 < lo"
    using report_loop_eq [OF that hi] by (simp add: get_volume_data_def ls_def lo_def hi_def)
  moreover have "get_volume_data s min_volume = Inl UB_out_of_bounds" if "lo = 0"
    using report_loop_zero [OF hi] that by (simp add: get_volume_data_def ls_def lo_def hi_def)
  moreover have "get_trade_volume_at_price s (real lo) = Inr None" "get_trade_volume_at_price s (real hi) = Inr None"
    by (simp_all add: get_trade_volume_at_price_def price_index_of_def lo_def hi_def)
  ultimately show ?thesis by blast
qed

definition demo_trade :: "real \<Rightarrow> u64 \<Rightarrow> TradeUpdate" where
  "demo_trade p t = \<lparr>trade_price = p, quantity = 2, is_buy = True, trade_id = 0, timestamp = t\<rparr>"

theorem volume_report_is_exact_witness:
  "\<exists>s. stat_reachable s \<and> m_trade_volumes s \<noteq> [] \<and> get_volume_data s 0 = Inl UB_out_of_bounds"
proof -
  let ?s = "add_trade_volume new_volume_stat (demo_trade (1 / 2) 0)"
  have reach: "stat_reachable ?s" by (intro stat_reachable.intros) (simp add: demo_trade_def)
  have "m_min_price_index ?s = 0" "m_trade_volumes ?s \<noteq> []"
    by (simp_all add: add_trade_volume_def update_max_min_price_index_def new_volume_stat_def demo_trade_def
        price_index_of_def resize_volumes_def Let_def)
  then show ?thesis using volume_report_is_exact [OF reach] reach by blast
qed

text \<open>
  Removing old trades keeps exactly the trades of the window when the queue is in order of
  time and no trade is from the future. A trade whose time stamp is later than the clock, by as
  little as a nanosecond, is dropped at once: the unsigned difference wraps around.
\<close>

theorem old_trades_leave_the_window:
  assumes "sorted (map timestamp (trades l))" and "unat d * 1000000000 < 2 ^ 64"
  shows "((\<forall>tr \<in> set (trades l). timestamp tr \<le> now) \<longrightarrow>
      trades (remove_old_trades now l d) =
        filter (\<lambda>tr. unat now - unat (timestamp tr) \<le> unat d * 1000000000) (trades l)) \<and>
    (trades l = tr # trs \<longrightarrow> now < timestamp tr \<longrightarrow> timestamp tr - now < 2 ^ 63 \<longrightarrow>
      unat d * 1000000000 < 2 ^ 63 \<longrightarrow> tr \<notin> set trs \<longrightarrow> tr \<notin> set (trades (remove_old_trades now l d)))"
proof (intro conjI impI)
  have d: "unat (d * 1000000000) = unat d * 1000000000"
    using assms(2) by (simp add: unat_word_ariths)
  show "trades (remove_old_trades now l d) =
      filter (\<lambda>tr. unat now - unat (timestamp tr) \<le> unat d * 1000000000) (trades l)"
    if past: "\<forall>tr \<in> set (trades l). timestamp tr \<le> now"
  proof -
    have "dropWhile (\<lambda>tr. now - timestamp tr > d * 1000000000) trs
        = filter (\<lambda>tr. unat now - unat (timestamp tr) \<le> unat d * 1000000000) trs"
      if "sorted (map timestamp trs)" "\<forall>tr \<in> set trs. timestamp tr \<le> now" for trs
      using that
    proof (induction trs)
      case (Cons tr trs)
      have test: "(now - timestamp t > d * 1000000000) \<longleftrightarrow> \<not> unat now - unat (timestamp t) \<le> unat d * 1000000000"
        if "timestamp t \<le> now" for t
        using that d by (simp add: word_less_nat_alt unat_sub not_le)
      have "\<forall>t \<in> set trs. unat (timestamp tr) \<le> unat (timestamp t)" using Cons.prems(1) by (simp add: word_le_nat_alt)
      then have rest: "filter (\<lambda>t. unat now - unat (timestamp t) \<le> unat d * 1000000000) trs = trs"
        if "unat now - unat (timestamp tr) \<le> unat d * 1000000000"
        using that by (intro filter_True ballI) (meson diff_le_mono2 le_trans)
      with Cons test [of tr] show ?case by auto
    qed simp
    then show ?thesis using assms(1) past by (simp add: remove_old_trades_trades)
  qed
  assume a: "trades l = tr # trs" "now < timestamp tr" "timestamp tr - now < 2 ^ 63"
    "unat d * 1000000000 < 2 ^ 63" "tr \<notin> set trs"
  have "unat (now - timestamp tr) + unat (timestamp tr - now) = 2 ^ 64"
  proof -
    have "unat now < unat (timestamp tr)" "unat (timestamp tr) < 2 ^ 64"
      using a(2) unsigned_less [where ?'a = nat, of "timestamp tr"] by (simp_all add: word_less_nat_alt)
    then show ?thesis
      using unat_sub_if' [of now "timestamp tr"] unat_sub [of now "timestamp tr"] by (simp add: word_le_nat_alt)
  qed
  moreover have "unat (timestamp tr - now) < 2 ^ 63" using a(3) by (simp add: word_less_nat_alt)
  ultimately have "now - timestamp tr > d * 1000000000" using a(4) d by (simp add: word_less_nat_alt)
  with a(1, 5) show "tr \<notin> set (trades (remove_old_trades now l d))"
    by (auto simp: remove_old_trades_trades dest: set_dropWhileD)
qed

theorem old_trades_leave_the_window_witness:
  "demo_trade 1 1001 \<notin> set (trades (remove_old_trades 1000 (add_volume empty_level (demo_trade 1 1001)) 60)) \<and>
   trades (remove_old_trades 2000 (add_volume empty_level (demo_trade 1 1001)) 60) = [demo_trade 1 1001]"
proof -
  let ?l = "add_volume empty_level (demo_trade 1 1001)"
  have l: "trades ?l = [demo_trade 1 1001]" by (simp add: add_volume_def empty_level_def Let_def)
  note w = old_trades_leave_the_window [of ?l 60]
  have "demo_trade 1 1001 \<notin> set (trades (remove_old_trades 1000 ?l 60))"
    using w [where now = 1000 and tr = "demo_trade 1 1001" and trs = "[]"] l by (simp add: demo_trade_def)
  moreover have "trades (remove_old_trades 2000 ?l 60) = [demo_trade 1 1001]"
    using w [where now = 2000] l by (simp add: demo_trade_def)
  ultimately show ?thesis by blast
qed

end
