(* ===== verification/Order_Manager.thy ===== *)
theory Order_Manager
  imports Prelude "HOL-Library.AList"
begin

text \<open>
  Orders, the order manager and the order simulator (\<^verbatim>\<open>src/server_app/order\<close>). Instruments are
  numbered; amounts are reals. An \<^verbatim>\<open>unordered_map\<close> is an association list with distinct keys.
  The manager's work runs as tasks on two event loops: \<^verbatim>\<open>handle_update_order\<close> on the order loop,
  \<^verbatim>\<open>update_order_in_db\<close> on the loop for system I/O. Each loop takes its tasks in order, and the
  tasks, none of which suspends, interleave. What a \<^verbatim>\<open>SavableObject\<close> asks the database to do
  is recorded in order; documents are numbered as they are created.
\<close>

section \<open>Orders\<close>

datatype Status = NOT_AVAILABLE | NEW | CANCELED | REJECTED | PARTIALLY_FILLED | FILLED

datatype Side = BUY | SELL

datatype OrderType =
    LIMIT | MARKET | TAKE_PROFIT_MARKET | STOP_LOSS_MARKET | TAKE_PROFIT_LIMIT | STOP_LOSS_LIMIT
  | TRAILING_STOP_MARKET | POST_ONLY | TOTAL_ORDER_TYPES

datatype SourceType = SOURCE_NOT_AVAILABLE | SIMULATOR | WEB | IOS | ANDROID | STRATEGY

record Order =
  order_id :: nat
  trace_id :: nat
  status :: Status
  order_instrument :: "nat option"
  side :: Side
  order_type :: OrderType
  price :: real
  order_quantity :: real
  last_updated :: nat
  filled_quantity :: real
  filled_price :: real
  fee :: real
  output_quantity :: real
  volumn_in_quote_currency :: real
  commission_asset :: string
  output_asset :: string
  error_code :: int
  error_message :: string
  source_type :: SourceType
  source_strategy :: nat

text \<open>The number of \<^verbatim>\<open>EventBaseID::NO_STRATEGY\<close>.\<close>

definition NO_STRATEGY :: nat where
  "NO_STRATEGY = 9"

text \<open>
  The default constructor leaves instrument, side and type without a value; the ones here are
  never read.
\<close>

definition new_order :: Order where
  "new_order = \<lparr>order_id = 0, trace_id = 0, status = NOT_AVAILABLE, order_instrument = None, side = BUY,
     order_type = LIMIT, price = 0, order_quantity = 0, last_updated = 0, filled_quantity = 0, filled_price = 0,
     fee = 0, output_quantity = 0, volumn_in_quote_currency = 0, commission_asset = [], output_asset = [],
     error_code = 0, error_message = [], source_type = SOURCE_NOT_AVAILABLE, source_strategy = NO_STRATEGY\<rparr>"

definition make_order :: "nat \<Rightarrow> Status \<Rightarrow> nat option \<Rightarrow> Side \<Rightarrow> OrderType \<Rightarrow> real \<Rightarrow> real \<Rightarrow> Order" where
  "make_order i st ins sd ty p q = new_order\<lparr>order_id := i, status := st, order_instrument := ins, side := sd,
     order_type := ty, price := p, order_quantity := q\<rparr>"

definition is_null_order :: "Order \<Rightarrow> bool" where
  "is_null_order ord \<longleftrightarrow> order_id ord = 0 \<and> status ord = NOT_AVAILABLE"

section \<open>OrderManager\<close>

record saved_order =
  saved_object :: Order
  saved_doc :: nat

datatype db_op = Create_doc nat | Save_doc nat Order | Remove_doc nat

record OrderManager =
  m_order_list :: "(nat \<times> Order) list"
  m_order_update_callbacks :: nat
  notified :: "(nat \<times> Order) list"
  order_tasks :: "Order list"
  io_tasks :: "Order list"
  m_order_db_cache :: "(nat \<times> saved_order) list"
  next_doc :: nat
  db_ops :: "db_op list"

text \<open>After \<^verbatim>\<open>init\<close>: the orders of the database, stored in the first documents.\<close>

definition init_manager :: "(nat \<times> Order) list \<Rightarrow> OrderManager" where
  "init_manager os = \<lparr>m_order_list = os, m_order_update_callbacks = 0, notified = [], order_tasks = [],
     io_tasks = [], m_order_db_cache = [], next_doc = length os, db_ops = []\<rparr>"

definition is_valid_order :: "OrderManager \<Rightarrow> nat \<Rightarrow> bool" where
  "is_valid_order s i \<longleftrightarrow> map_of (m_order_list s) i \<noteq> None"

definition get_order_status :: "OrderManager \<Rightarrow> nat \<Rightarrow> Status" where
  "get_order_status s i = (case map_of (m_order_list s) i of Some ord \<Rightarrow> status ord | None \<Rightarrow> NOT_AVAILABLE)"

definition get_all_orders :: "OrderManager \<Rightarrow> Order list" where
  "get_all_orders s = map snd (m_order_list s)"

definition get_open_orders :: "OrderManager \<Rightarrow> nat list" where
  "get_open_orders s = map fst (filter (\<lambda>(i, ord). status ord = NEW) (m_order_list s))"

definition register_order_update :: "OrderManager \<Rightarrow> OrderManager" where
  "register_order_update s = s\<lparr>m_order_update_callbacks := m_order_update_callbacks s + 1\<rparr>"

definition update_order :: "OrderManager \<Rightarrow> Order \<Rightarrow> OrderManager" where
  "update_order s ord = s\<lparr>order_tasks := order_tasks s @ [ord]\<rparr>"

definition set_cancel_order :: "OrderManager \<Rightarrow> nat \<Rightarrow> OrderManager" where
  "set_cancel_order s i =
     (case map_of (m_order_list s) i of
        None \<Rightarrow> s
      | Some ord \<Rightarrow> update_order s (ord\<lparr>status := CANCELED\<rparr>))"

definition get_order_by_id :: "OrderManager \<Rightarrow> nat \<Rightarrow> Order \<times> OrderManager" where
  "get_order_by_id s i =
     (case map_of (m_order_list s) i of
        None \<Rightarrow> (new_order\<lparr>order_id := i\<rparr>, s\<lparr>m_order_list := AList.update i (new_order\<lparr>order_id := i\<rparr>) (m_order_list s)\<rparr>)
      | Some ord \<Rightarrow> (ord, s))"

text \<open>The report \<open>ord\<close> of the exchange, combined with what is known of the order.\<close>

definition settle :: "Order \<Rightarrow> Order \<Rightarrow> Order" where
  "settle cur ord =
     (if status ord = FILLED \<or> status ord = PARTIALLY_FILLED
      then
        let ord = (if side ord = BUY
                   then ord\<lparr>output_quantity := filled_quantity ord - fee ord,
                            volumn_in_quote_currency := filled_quantity ord * filled_price ord\<rparr>
                   else
                     let ord = ord\<lparr>output_quantity := filled_quantity ord * filled_price ord - fee ord\<rparr>
                     in ord\<lparr>volumn_in_quote_currency := output_quantity ord\<rparr>);
            ord = ord\<lparr>filled_quantity := filled_quantity ord + filled_quantity cur, fee := fee ord + fee cur,
                      output_quantity := output_quantity ord + output_quantity cur,
                      volumn_in_quote_currency := volumn_in_quote_currency ord + volumn_in_quote_currency cur\<rparr>
        in if filled_quantity ord = order_quantity ord then ord\<lparr>status := FILLED\<rparr> else ord
      else ord)"

definition handle_update_order :: "OrderManager \<Rightarrow> Order \<Rightarrow> OrderManager" where
  "handle_update_order s ord =
     (case get_order_by_id s (order_id ord) of (cur, s1) \<Rightarrow>
        let ord = settle cur ord;
            s2 = s1\<lparr>m_order_list := AList.update (order_id ord) ord (m_order_list s1)\<rparr>;
            s3 = (if status ord \<in> {NEW, CANCELED, REJECTED, PARTIALLY_FILLED, FILLED}
                  then s2\<lparr>notified := notified s2 @ map (\<lambda>k. (k, ord)) [0..<m_order_update_callbacks s2]\<rparr>
                  else s2)
        in s3\<lparr>io_tasks := io_tasks s3 @ [ord]\<rparr>)"

definition update_order_in_db :: "OrderManager \<Rightarrow> Order \<Rightarrow> OrderManager" where
  "update_order_in_db s ord =
     (if status ord = REJECTED then s\<lparr>m_order_list := AList.delete (order_id ord) (m_order_list s)\<rparr>
      else
        let s = (if map_of (m_order_db_cache s) (order_id ord) = None
                 then s\<lparr>m_order_db_cache := AList.update (order_id ord) \<lparr>saved_object = new_order, saved_doc = next_doc s\<rparr>
                          (m_order_db_cache s),
                        next_doc := next_doc s + 1, db_ops := db_ops s @ [Create_doc (next_doc s)]\<rparr>
                 else s);
            order_db = the (map_of (m_order_db_cache s) (order_id ord))
        in if status ord = CANCELED
           then
             let i = order_id (saved_object order_db)
             in s\<lparr>db_ops := db_ops s @ [Remove_doc (saved_doc order_db)],
                  m_order_db_cache := AList.delete i (m_order_db_cache s),
                  m_order_list := AList.delete i (m_order_list s)\<rparr>
           else
             let s = s\<lparr>m_order_db_cache := AList.update (order_id ord) (order_db\<lparr>saved_object := ord\<rparr>) (m_order_db_cache s),
                       db_ops := db_ops s @ [Save_doc (saved_doc order_db) ord]\<rparr>
             in if status ord = FILLED
                then s\<lparr>m_order_db_cache := AList.delete (order_id ord) (m_order_db_cache s)\<rparr>
                else s)"

text \<open>One task of one of the two loops, or a new report.\<close>

datatype manager_event = Report Order | Cancel_request nat | Order_task | Io_task

fun manager_step :: "OrderManager \<Rightarrow> manager_event \<Rightarrow> OrderManager" where
  "manager_step s (Report ord) = update_order s ord"
| "manager_step s (Cancel_request i) = set_cancel_order s i"
| "manager_step s Order_task =
     (case order_tasks s of [] \<Rightarrow> s | ord # rest \<Rightarrow> handle_update_order (s\<lparr>order_tasks := rest\<rparr>) ord)"
| "manager_step s Io_task =
     (case io_tasks s of [] \<Rightarrow> s | ord # rest \<Rightarrow> update_order_in_db (s\<lparr>io_tasks := rest\<rparr>) ord)"

section \<open>Accumulated fills\<close>

lemma settle_id [simp]: "order_id (settle cur ord) = order_id ord"
  by (simp add: settle_def Let_def)



definition fill_volume :: "Order \<Rightarrow> real" where
  "fill_volume ord = (if side ord = BUY then filled_quantity ord * filled_price ord else filled_quantity ord * filled_price ord - fee ord)"




section \<open>Interleavings\<close>

text \<open>The reports the order loop has worked off in a run, in order.\<close>

fun handled :: "OrderManager \<Rightarrow> manager_event list \<Rightarrow> Order list" where
  "handled s [] = []"
| "handled s (e # es) =
     (case (e, order_tasks s) of (Order_task, ord # rest) \<Rightarrow> [ord] | _ \<Rightarrow> []) @ handled (manager_step s e) es"

lemma handled_append: "handled s (es @ es') = handled s es @ handled (foldl manager_step s es) es'"
  by (induction es arbitrary: s) simp_all






lemma handle_update_order_list:
  "map_of (m_order_list (handle_update_order s ord)) =
     (map_of (m_order_list s))(order_id ord \<mapsto>
        settle (case map_of (m_order_list s) (order_id ord) of Some c \<Rightarrow> c | None \<Rightarrow> new_order\<lparr>order_id := order_id ord\<rparr>) ord)"
  by (auto simp: handle_update_order_def get_order_by_id_def update_conv' Let_def split: option.split)

lemma handle_update_order_io:
  "io_tasks (handle_update_order s ord) = io_tasks s @
     [settle (case map_of (m_order_list s) (order_id ord) of Some c \<Rightarrow> c | None \<Rightarrow> new_order\<lparr>order_id := order_id ord\<rparr>) ord]"
  "m_order_db_cache (handle_update_order s ord) = m_order_db_cache s"
  "order_tasks (handle_update_order s ord) = order_tasks s"
  "next_doc (handle_update_order s ord) = next_doc s" "db_ops (handle_update_order s ord) = db_ops s"
  by (auto simp: handle_update_order_def get_order_by_id_def Let_def split: option.split)






section \<open>SimulatorOrder\<close>

text \<open>
  Orders by instrument. \<^verbatim>\<open>place\<close>, \<^verbatim>\<open>cancel\<close> and \<^verbatim>\<open>price_update\<close> start the \<^verbatim>\<open>execute_\<close> tasks on the
  order loop; each such task is one function here, and hands its reports to the manager.
  \<^verbatim>\<open>cancel_all\<close> does nothing.
\<close>

datatype SimulatorState = SIMULATOR_ACTIVE | REAL_TRADING

record Simulator =
  sim_state :: SimulatorState
  sim_orders :: "(nat option \<times> (nat \<times> Order) list) list"


definition set_active :: "Simulator \<Rightarrow> bool \<Rightarrow> Simulator" where
  "set_active sim act = sim\<lparr>sim_state := (if act then SIMULATOR_ACTIVE else REAL_TRADING)\<rparr>"

definition get_active :: "Simulator \<Rightarrow> bool" where
  "get_active sim \<longleftrightarrow> sim_state sim = SIMULATOR_ACTIVE"

definition orders_of :: "Simulator \<Rightarrow> nat option \<Rightarrow> (nat \<times> Order) list" where
  "orders_of sim ins = (case map_of (sim_orders sim) ins of Some os \<Rightarrow> os | None \<Rightarrow> [])"

definition set_orders :: "Simulator \<Rightarrow> nat option \<Rightarrow> (nat \<times> Order) list \<Rightarrow> Simulator" where
  "set_orders sim ins os = sim\<lparr>sim_orders := AList.update ins os (sim_orders sim)\<rparr>"



definition execute_cancel :: "Simulator \<times> OrderManager \<Rightarrow> Order \<Rightarrow> Simulator \<times> OrderManager" where
  "execute_cancel s ord =
     (let ord = ord\<lparr>status := CANCELED\<rparr>;
          ins = order_instrument ord
      in (set_orders (fst s) ins (AList.delete (order_id ord) (orders_of (fst s) ins)), update_order (snd s) ord))"

definition execute_cancel_all :: "Simulator \<times> OrderManager \<Rightarrow> string \<Rightarrow> Simulator \<times> OrderManager" where
  "execute_cancel_all s symbol = s"





lemma orders_of_set_orders [simp]:
  "orders_of (set_orders sim ins os) ins' = (if ins' = ins then os else orders_of sim ins')"
  by (simp add: orders_of_def set_orders_def update_conv')



section \<open>Properties\<close>



definition demo_fill :: "real \<Rightarrow> Order" where
  "demo_fill q = (make_order 7 PARTIALLY_FILLED (Some 0) BUY LIMIT 10 3)\<lparr>filled_quantity := q, filled_price := 10\<rparr>"

lemma demo_fill_simps [simp]:
  "order_id (demo_fill q) = 7" "status (demo_fill q) = PARTIALLY_FILLED" "filled_quantity (demo_fill q) = q"
  "order_quantity (demo_fill q) = 3" "fill_volume (demo_fill q) = q * 10"
  by (simp_all add: demo_fill_def make_order_def fill_volume_def)


text \<open>
  Cancelling an order that the manager has saved removes it from the list and its document
  from the database. Cancelling an order that was loaded from the database does neither: it
  stays in the list as cancelled, and the document that is removed is an empty one created for
  the purpose, since the identifier is read from the new, still empty \<^verbatim>\<open>SavableObject\<close>.
\<close>

theorem cancelled_orders_are_removed_unless_loaded:
  assumes "map_of (m_order_list s) i = Some ord" and "order_id ord = i" and "i \<noteq> 0"
    and "order_tasks s = []" and "io_tasks s = []"
    and "s' = foldl manager_step s [Cancel_request i, Order_task, Io_task]"
  shows "(map_of (m_order_db_cache s) i = Some sv \<and> order_id (saved_object sv) = i \<longrightarrow>
      \<not> is_valid_order s' i \<and> db_ops s' = db_ops s @ [Remove_doc (saved_doc sv)]) \<and>
    (map_of (m_order_db_cache s) i = None \<longrightarrow>
      map_of (m_order_list s') i = Some (ord\<lparr>status := CANCELED\<rparr>) \<and>
      db_ops s' = db_ops s @ [Create_doc (next_doc s), Remove_doc (next_doc s)])"
proof -
  let ?c = "ord\<lparr>status := CANCELED\<rparr>"
  define s1 where "s1 = handle_update_order (s\<lparr>order_tasks := []\<rparr>) ?c"
  have settled: "settle ord ?c = ?c" by (simp add: settle_def)
  have s1: "map_of (m_order_list s1) i = Some ?c" "io_tasks s1 = [?c]" "m_order_db_cache s1 = m_order_db_cache s"
    "next_doc s1 = next_doc s" "db_ops s1 = db_ops s"
    using assms(1, 2, 5) settled by (simp_all add: s1_def handle_update_order_list handle_update_order_io)
  have "s' = update_order_in_db (s1\<lparr>io_tasks := []\<rparr>) ?c"
    using assms(1, 4, 6) s1(2) by (simp add: set_cancel_order_def update_order_def s1_def)
  then show ?thesis
    using s1 assms(2, 3)
    by (auto simp: update_order_in_db_def is_valid_order_def update_conv' delete_conv' new_order_def Let_def)
qed

theorem cancelled_orders_are_removed_unless_loaded_witness:
  "\<exists>s. s = foldl manager_step (init_manager [(7, make_order 7 NEW (Some 0) BUY LIMIT 10 3)]) [Cancel_request 7, Order_task, Io_task] \<and>
     get_order_status s 7 = CANCELED \<and> db_ops s = [Create_doc 1, Remove_doc 1]"
  using cancelled_orders_are_removed_unless_loaded
      [of "init_manager [(7, make_order 7 NEW (Some 0) BUY LIMIT 10 3)]" 7 "make_order 7 NEW (Some 0) BUY LIMIT 10 3"]
  by (simp add: init_manager_def get_order_status_def make_order_def)



end
