(* ===== verification/Json_Tree.thy ===== *)
theory Json_Tree
  imports Cpp_Strings "HOL-Library.AList"
begin

text \<open>
  JSON values (\<^verbatim>\<open>src/core/json\<close>: \<^verbatim>\<open>json.h\<close>, \<^verbatim>\<open>json_value.h\<close>, \<^verbatim>\<open>json_object.h\<close>): what a
  \<^verbatim>\<open>Json\<close> handle holds, how C++ values are stored and read back, access by key and by index, and the
  printer. The model is the tree that is reached from a handle; that copies of a handle share
  their object is outside it. An \<^verbatim>\<open>unordered_map\<close> is an association list in the order in which
  a traversal visits it, which the standard leaves open: a new key is put at its end, and
  statements about printed text hold for every order.
\<close>

section \<open>Values\<close>

datatype json_value =
    VNull
  | VBool bool
  | VInt int
  | VUint nat
  | VDouble real
  | VString string

text \<open>The C++ types from which a value is assigned; integers of every width are one case.\<close>

datatype cpp_value =
    Cpp_null
  | Cpp_bool bool
  | Cpp_integer int
  | Cpp_float real
  | Cpp_double real
  | Cpp_string string

definition as_int64 :: "int \<Rightarrow> int" where
  "as_int64 n = (n + 2 ^ 63) mod 2 ^ 64 - 2 ^ 63"

text \<open>
  \<^verbatim>\<open>static_cast<int64_t>\<close> of a floating-point number drops the fraction; out of range it is
  undefined, and the value here is the one x86-64 gives.
\<close>

definition trunc_int64 :: "real \<Rightarrow> int" where
  "trunc_int64 x =
     (let n = (if 0 \<le> x then \<lfloor>x\<rfloor> else \<lceil>x\<rceil>)
      in if - (2 ^ 63) \<le> n \<and> n < 2 ^ 63 then n else - (2 ^ 63))"

fun store_value :: "cpp_value \<Rightarrow> json_value" where
  "store_value (Cpp_string s) = VString s"
| "store_value (Cpp_bool b) = VBool b"
| "store_value (Cpp_double x) = VDouble x"
| "store_value (Cpp_integer n) = VInt (as_int64 n)"
| "store_value (Cpp_float x) = VInt (trunc_int64 x)"
| "store_value Cpp_null = VNull"

text \<open>The conversions \<^verbatim>\<open>operator T\<close>; a value that does not convert gives \<^verbatim>\<open>T()\<close>.\<close>

fun value_to_bool :: "json_value \<Rightarrow> bool" where
  "value_to_bool (VBool b) = b"
| "value_to_bool (VInt n) = (n \<noteq> 0)"
| "value_to_bool (VUint n) = (n \<noteq> 0)"
| "value_to_bool (VDouble x) = (x \<noteq> 0)"
| "value_to_bool _ = False"

fun value_to_int64 :: "json_value \<Rightarrow> int" where
  "value_to_int64 (VBool b) = (if b then 1 else 0)"
| "value_to_int64 (VInt n) = n"
| "value_to_int64 (VUint n) = as_int64 (int n)"
| "value_to_int64 (VDouble x) = trunc_int64 x"
| "value_to_int64 _ = 0"

fun value_to_double :: "json_value \<Rightarrow> real" where
  "value_to_double (VBool b) = (if b then 1 else 0)"
| "value_to_double (VInt n) = of_int n"
| "value_to_double (VUint n) = of_nat n"
| "value_to_double (VDouble x) = x"
| "value_to_double _ = 0"

fun value_to_string :: "json_value \<Rightarrow> string" where
  "value_to_string (VString s) = s"
| "value_to_string _ = []"

section \<open>Handles\<close>

text \<open>
  A handle is null, points to a \<^verbatim>\<open>JsonValue\<close> (the value and \<^verbatim>\<open>m_is_string_format\<close>), or points
  to a \<^verbatim>\<open>JsonObject\<close> (\<^verbatim>\<open>m_is_array\<close>, \<^verbatim>\<open>m_object\<close>, \<^verbatim>\<open>m_array\<close>).
\<close>

datatype json =
    No_value
  | Value json_value bool
  | Object bool "(string \<times> json) list" "json list"

fun check_create_json_object :: "json \<Rightarrow> json" where
  "check_create_json_object (Object a m xs) = Object a m xs"
| "check_create_json_object _ = Object False [] []"

fun check_create_json_value :: "json \<Rightarrow> json" where
  "check_create_json_value (Value v b) = Value v b"
| "check_create_json_value _ = Value VNull True"

fun assign_value :: "json \<Rightarrow> cpp_value \<Rightarrow> json" where
  "assign_value j v =
     (case check_create_json_value j of Value _ b \<Rightarrow> Value (store_value v) b | k \<Rightarrow> k)"

fun to_value :: "json \<Rightarrow> json_value option" where
  "to_value (Value v b) = Some v"
| "to_value _ = None"

definition json_to_bool :: "json \<Rightarrow> bool" where
  "json_to_bool j = (case to_value j of None \<Rightarrow> False | Some v \<Rightarrow> value_to_bool v)"

definition json_to_int64 :: "json \<Rightarrow> int" where
  "json_to_int64 j = (case to_value j of None \<Rightarrow> 0 | Some v \<Rightarrow> value_to_int64 v)"

definition json_to_double :: "json \<Rightarrow> real" where
  "json_to_double j = (case to_value j of None \<Rightarrow> 0 | Some v \<Rightarrow> value_to_double v)"

fun json_is_null :: "json \<Rightarrow> bool" where
  "json_is_null No_value = True"
| "json_is_null (Value v b) = (v = VNull)"
| "json_is_null (Object a m xs) = False"

fun json_is_string :: "json \<Rightarrow> bool" where
  "json_is_string (Value (VString s) b) = True"
| "json_is_string _ = False"

fun json_is_array :: "json \<Rightarrow> bool" where
  "json_is_array (Object a m xs) = a"
| "json_is_array _ = False"

fun json_is_object :: "json \<Rightarrow> bool" where
  "json_is_object (Object a m xs) = (\<not> a)"
| "json_is_object _ = False"

section \<open>Access by key and by index\<close>

text \<open>
  \<^verbatim>\<open>operator[]\<close> returns a reference into the container and creates what it refers to: the result
  is the changed handle and the referenced value. The overloads for \<^verbatim>\<open>std::string\<close> and
  \<^verbatim>\<open>const char*\<close> end the key at its first NUL.
\<close>

definition emplace :: "string \<Rightarrow> (string \<times> json) list \<Rightarrow> (string \<times> json) list" where
  "emplace k m = (case map_of m k of Some _ \<Rightarrow> m | None \<Rightarrow> m @ [(k, No_value)])"

definition resize_list :: "'a \<Rightarrow> nat \<Rightarrow> 'a list \<Rightarrow> 'a list" where
  "resize_list d n xs = take n xs @ replicate (n - length xs) d"

fun index_view :: "json \<Rightarrow> string \<Rightarrow> json \<times> json" where
  "index_view j k =
     (case check_create_json_object j of
        Object a m xs \<Rightarrow> (Object False (emplace k m) xs, the (map_of (emplace k m) k))
      | i \<Rightarrow> (i, i))"

definition index_key :: "json \<Rightarrow> string \<Rightarrow> json \<times> json" where
  "index_key j k = index_view j (c_str k)"

fun index_at :: "json \<Rightarrow> nat \<Rightarrow> json \<times> json" where
  "index_at j i =
     (case check_create_json_object j of
        Object a m xs \<Rightarrow>
          let ys = (if length xs \<le> i then resize_list No_value (i + 1) xs else xs)
          in (Object True m ys, ys ! i)
      | k \<Rightarrow> (k, k))"

text \<open>The assignments \<^verbatim>\<open>j[k] = v\<close> and \<^verbatim>\<open>j[i] = v\<close> through the returned reference.\<close>

definition set_key :: "json \<Rightarrow> string \<Rightarrow> json \<Rightarrow> json" where
  "set_key j k v =
     (case fst (index_key j k) of
        Object a m xs \<Rightarrow> Object a (AList.update (c_str k) v m) xs
      | i \<Rightarrow> i)"

definition set_at :: "json \<Rightarrow> nat \<Rightarrow> json \<Rightarrow> json" where
  "set_at j i v = (case fst (index_at j i) of Object a m xs \<Rightarrow> Object a m (xs[i := v]) | k \<Rightarrow> k)"

text \<open>\<^verbatim>\<open>has_field\<close>, \<^verbatim>\<open>remove_field\<close> and \<^verbatim>\<open>size\<close> dereference the pointer without a check.\<close>

fun has_field :: "json \<Rightarrow> string \<Rightarrow> cpp_error + bool" where
  "has_field No_value k = Inl UB_null_pointer"
| "has_field (Value v b) k = Inr False"
| "has_field (Object a m xs) k = Inr (if a then False else map_of m k \<noteq> None)"

fun remove_field :: "json \<Rightarrow> string \<Rightarrow> cpp_error + json" where
  "remove_field No_value k = Inl UB_null_pointer"
| "remove_field (Value v b) k = Inr (Value v b)"
| "remove_field (Object a m xs) k = Inr (Object False (AList.delete k m) xs)"

fun json_size :: "json \<Rightarrow> cpp_error + nat" where
  "json_size No_value = Inl UB_null_pointer"
| "json_size (Value v b) = Inr 0"
| "json_size (Object a m xs) = Inr (if a then length xs else length m)"

fun push_back :: "json \<Rightarrow> json \<Rightarrow> json" where
  "push_back j v =
     (case check_create_json_object j of Object a m xs \<Rightarrow> Object True m (xs @ [v]) | k \<Rightarrow> k)"

fun json_reverse :: "json \<Rightarrow> json" where
  "json_reverse j =
     (case check_create_json_object j of Object a m xs \<Rightarrow> Object True m (rev xs) | k \<Rightarrow> k)"

fun set_size :: "json \<Rightarrow> nat \<Rightarrow> json" where
  "set_size j n =
     (case check_create_json_object j of Object a m xs \<Rightarrow> Object True m (resize_list No_value n xs) | k \<Rightarrow> k)"

section \<open>Printing\<close>

text \<open>
  \<^verbatim>\<open>std::to_chars\<close> of a \<^verbatim>\<open>double\<close> is the argument \<open>show_double\<close>. The builder's calls of
  \<^verbatim>\<open>write_char\<close> and \<^verbatim>\<open>write_raw\<close> are the concatenation of what they write.
\<close>

definition int_to_string :: "int \<Rightarrow> string" where
  "int_to_string n = (if n < 0 then ''-'' @ size_to_string (nat (- n)) else size_to_string (nat n))"

fun write_value :: "(real \<Rightarrow> string) \<Rightarrow> json_value \<Rightarrow> bool \<Rightarrow> string" where
  "write_value show_double VNull fmt = ''null''"
| "write_value show_double (VBool b) fmt = (if b then ''true'' else ''false'')"
| "write_value show_double (VInt n) fmt = int_to_string n"
| "write_value show_double (VUint n) fmt = size_to_string n"
| "write_value show_double (VDouble x) fmt = show_double x"
| "write_value show_double (VString s) fmt =
     (if fmt then CHR 0x22 # s @ [CHR 0x22] else s)"

fun separate :: "string list \<Rightarrow> string" where
  "separate [] = []"
| "separate [t] = t"
| "separate (t # ts) = t @ CHR '','' # separate ts"

definition write_field :: "string \<Rightarrow> string \<Rightarrow> string" where
  "write_field k t = CHR 0x22 # k @ CHR 0x22 # CHR '':'' # t"

fun write_string_value :: "(real \<Rightarrow> string) \<Rightarrow> json \<Rightarrow> string" where
  "write_string_value show_double No_value = ''null''"
| "write_string_value show_double (Value v fmt) = write_value show_double v fmt"
| "write_string_value show_double (Object a m xs) =
     (if a then CHR ''['' # separate (map (write_string_value show_double) xs) @ '']''
      else CHR ''{'' # separate (map (\<lambda>(k, v). write_field k (write_string_value show_double v)) m) @ ''}'')"

text \<open>
  \<^verbatim>\<open>get_string_value\<close> writes into an array of \<^verbatim>\<open>STRING_BUFFER_SIZE\<close> bytes on the stack without a
  bound; \<^verbatim>\<open>get_string_value_dynamic\<close> into a string.
\<close>

definition STRING_BUFFER_SIZE :: nat where
  "STRING_BUFFER_SIZE = 1000000"

definition get_string_value :: "(real \<Rightarrow> string) \<Rightarrow> json \<Rightarrow> cpp_error + string" where
  "get_string_value show_double j =
     (let t = write_string_value show_double j
      in if STRING_BUFFER_SIZE < length t then Inl UB_out_of_bounds else Inr t)"

definition get_string_value_dynamic :: "(real \<Rightarrow> string) \<Rightarrow> json \<Rightarrow> string" where
  "get_string_value_dynamic show_double j = write_string_value show_double j"

definition json_to_string :: "(real \<Rightarrow> string) \<Rightarrow> json \<Rightarrow> cpp_error + string" where
  "json_to_string show_double j =
     (case to_value j of None \<Rightarrow> get_string_value show_double j | Some v \<Rightarrow> Inr (value_to_string v))"

end
