(* ===== verification/Json_Parser.thy ===== *)
theory Json_Parser
  imports Json_Tree
begin

text \<open>
  The JSON parser (\<^verbatim>\<open>src/core/json/json_parse.cpp\<close>, \<^verbatim>\<open>json_parse.h\<close>). The parsed text and its
  size are arguments; a function takes and returns the reference parameter \<^verbatim>\<open>start_pos\<close>, and
  returns whether \<^verbatim>\<open>m_is_valid\<close> still holds, which it does whenever a function is called. The
  array loop need not end, so the three functions that call each other take fuel, one unit per
  call and per turn of a loop, and out of fuel is \<^const>\<open>None\<close>.
\<close>

section \<open>Characters of a document\<close>

definition is_number :: "char \<Rightarrow> bool" where
  "is_number c \<longleftrightarrow> cpp_isdigit c \<or> c = CHR ''-''"

definition is_letter :: "char \<Rightarrow> bool" where
  "is_letter c \<longleftrightarrow>
     (97 \<le> (of_char c :: nat) \<and> (of_char c :: nat) \<le> 122) \<or> (65 \<le> (of_char c :: nat) \<and> (of_char c :: nat) \<le> 90)"

datatype boolean_text = TRUE_VALUE | FALSE_VALUE | NOT_BOOLEAN_VALUE

definition is_boolean :: "string \<Rightarrow> nat \<Rightarrow> boolean_text" where
  "is_boolean s p =
     (if p + 4 < length s \<and> \<not> is_letter (s ! (p + 4)) \<and>
         s ! p = CHR ''t'' \<and> s ! (p + 1) = CHR ''r'' \<and> s ! (p + 2) = CHR ''u'' \<and> s ! (p + 3) = CHR ''e''
      then TRUE_VALUE
      else if p + 5 < length s \<and> \<not> is_letter (s ! (p + 5)) \<and>
         s ! p = CHR ''f'' \<and> s ! (p + 1) = CHR ''a'' \<and> s ! (p + 2) = CHR ''l'' \<and> s ! (p + 3) = CHR ''s'' \<and>
         s ! (p + 4) = CHR ''e''
      then FALSE_VALUE
      else NOT_BOOLEAN_VALUE)"

definition is_null :: "string \<Rightarrow> nat \<Rightarrow> bool" where
  "is_null s p \<longleftrightarrow>
     p + 4 < length s \<and> \<not> is_letter (s ! (p + 4)) \<and> \<not> is_number (s ! (p + 4)) \<and>
     s ! p = CHR ''n'' \<and> s ! (p + 1) = CHR ''u'' \<and> s ! (p + 2) = CHR ''l'' \<and> s ! (p + 3) = CHR ''l''"

section \<open>Keys, strings and numbers\<close>

text \<open>\<^verbatim>\<open>while (p < m_size && !stop(p)) ++p\<close>\<close>

function skip_until :: "(nat \<Rightarrow> bool) \<Rightarrow> nat \<Rightarrow> nat \<Rightarrow> nat" where
  "skip_until stop n p = (if p < n \<and> \<not> stop p then skip_until stop n (p + 1) else p)"
  by auto
termination by (relation "measure (\<lambda>(_, n, p). n - p)") auto

declare skip_until.simps [simp del]

text \<open>The text of a substring and the flag \<^verbatim>\<open>m_is_valid\<close>; \<^verbatim>\<open>from_substr\<close> throws past the end.\<close>

definition get_sub_string :: "string \<Rightarrow> nat \<Rightarrow> nat \<Rightarrow> cpp_error + string \<times> bool" where
  "get_sub_string s start stop =
     (if stop < start then Inr ([], False)
      else if start + (stop - start) \<le> length s then Inr (take (stop - start) (drop start s), True)
      else Inl (Out_of_range ''ShareString - Substr out of range''))"

definition parse_key :: "string \<Rightarrow> nat \<Rightarrow> cpp_error + string \<times> nat \<times> bool" where
  "parse_key s pos =
     (let start = skip_until (\<lambda>i. s ! i = CHR 0x22 \<or> s ! i = CHR ''}'') (length s) pos
      in if length s \<le> start then Inr ([], pos, False)
         else if s ! start = CHR ''}'' then Inr (''}'', start + 1, True)
         else let stop = skip_until (\<lambda>i. s ! i = CHR 0x22) (length s) (start + 1)
              in if length s \<le> stop then Inr ([], pos, False)
                 else sum_bind (get_sub_string s (start + 1) stop) (\<lambda>(key, ok). Inr (key, stop + 1, ok)))"

function string_end :: "string \<Rightarrow> nat \<Rightarrow> bool \<Rightarrow> nat option" where
  "string_end s p escaped =
     (if p < length s
      then if escaped then string_end s (p + 1) False
           else if s ! p = CHR 0x5C then string_end s (p + 1) True
           else if s ! p = CHR 0x22 then Some p
           else string_end s (p + 1) False
      else None)"
  by auto
termination by (relation "measure (\<lambda>(s, p, _). length s - p)") auto

declare string_end.simps [simp del]

definition parse_value_string :: "string \<Rightarrow> nat \<Rightarrow> cpp_error + string \<times> nat \<times> bool" where
  "parse_value_string s pos =
     (case string_end s pos False of
        None \<Rightarrow> Inr ([], pos, False)
      | Some stop \<Rightarrow> sum_bind (get_sub_string s pos stop) (\<lambda>(t, ok). Inr (t, stop + 1, ok)))"

definition number_char :: "string \<Rightarrow> nat \<Rightarrow> bool" where
  "number_char s p \<longleftrightarrow>
     is_number (s ! p) \<or> s ! p = CHR ''.'' \<or>
     s ! p = CHR ''e'' \<and> p + 1 < length s \<and> s ! (p + 1) = CHR ''-''"

definition parse_value_number :: "string \<Rightarrow> nat \<Rightarrow> cpp_error + json \<times> nat \<times> bool" where
  "parse_value_number s pos =
     (let stop = skip_until (\<lambda>p. \<not> number_char s p) (length s) pos;
          is_float = (CHR ''.'' \<in> set (take (stop - pos) (drop pos s)))
      in if stop = pos then Inr (No_value, pos, False)
         else sum_bind (get_sub_string s pos stop) (\<lambda>(t, ok).
           if t = [] then Inr (No_value, stop, False)
           else if \<not> is_float
                then case from_chars_int64 t of
                       Some n \<Rightarrow> Inr (Value (VInt n) True, stop, ok)
                     | None \<Rightarrow> Inr (No_value, stop, False)
                else case from_chars_double t of
                       Some x \<Rightarrow> Inr (Value (VDouble x) True, stop, ok)
                     | None \<Rightarrow> Inr (No_value, stop, False)))"

section \<open>Objects, arrays and values\<close>

type_synonym parsed = "(cpp_error + json \<times> nat \<times> bool) option"

definition value_start :: "string \<Rightarrow> nat \<Rightarrow> bool" where
  "value_start s p \<longleftrightarrow>
     s ! p = CHR 0x22 \<or> s ! p = CHR ''{'' \<or> s ! p = CHR ''['' \<or> is_number (s ! p) \<or>
     is_boolean s p \<noteq> NOT_BOOLEAN_VALUE \<or> is_null s p"

definition closing :: "char \<Rightarrow> bool" where
  "closing c \<longleftrightarrow> c = CHR ''}'' \<or> c = CHR '']''"

definition skip_comma :: "string \<Rightarrow> nat \<Rightarrow> nat" where
  "skip_comma s p = (if p < length s \<and> s ! p = CHR '','' then p + 1 else p)"

text \<open>The end of \<^verbatim>\<open>parse_value\<close>: on to the next comma or closing bracket.\<close>

definition finish_value :: "string \<Rightarrow> cpp_error + json \<times> nat \<times> bool \<Rightarrow> cpp_error + json \<times> nat \<times> bool" where
  "finish_value s r = sum_bind r (\<lambda>(j, p, ok).
     let q = skip_until (\<lambda>i. s ! i = CHR '','' \<or> closing (s ! i)) (length s) p
     in Inr (j, q, ok \<and> q < length s))"

text \<open>The check after a call: \<^verbatim>\<open>if (m_is_valid == false) return Json();\<close>\<close>

definition if_valid :: "parsed \<Rightarrow> (json \<Rightarrow> nat \<Rightarrow> parsed) \<Rightarrow> parsed" where
  "if_valid r k =
     (case r of
        None \<Rightarrow> None
      | Some (Inl e) \<Rightarrow> Some (Inl e)
      | Some (Inr (v, pos, ok)) \<Rightarrow> if ok then k v pos else Some (Inr (No_value, pos, False)))"

text \<open>
  The value that starts at \<open>start\<close>; the functions \<open>obj\<close> and \<open>arr\<close> are the calls of
  \<^verbatim>\<open>parse_object\<close> and \<^verbatim>\<open>parse_array\<close> from the position after the bracket.
\<close>

definition value_at :: "(nat \<Rightarrow> parsed) \<Rightarrow> (nat \<Rightarrow> parsed) \<Rightarrow> string \<Rightarrow> nat \<Rightarrow> nat \<Rightarrow> parsed" where
  "value_at obj arr s pos start =
     (if s ! start = CHR 0x22
      then Some (sum_bind (parse_value_string s (start + 1)) (\<lambda>(t, p, ok). Inr (Value (VString t) True, p, ok)))
      else if is_number (s ! start) then Some (parse_value_number s start)
      else case is_boolean s start of
             TRUE_VALUE \<Rightarrow> Some (Inr (Value (VBool True) True, start + 4, True))
           | FALSE_VALUE \<Rightarrow> Some (Inr (Value (VBool False) True, start + 5, True))
           | NOT_BOOLEAN_VALUE \<Rightarrow>
               if is_null s start then Some (Inr (Value VNull True, start + 4, True))
               else if s ! start = CHR ''{'' then obj (start + 1)
               else if s ! start = CHR ''['' then arr (start + 1)
               else Some (Inr (No_value, pos, False)))"

text \<open>
  One turn of the loops of \<^verbatim>\<open>parse_object\<close> and \<^verbatim>\<open>parse_array\<close>, with the call of
  \<^verbatim>\<open>parse_value\<close> and the next turn as arguments, and the body of \<^verbatim>\<open>parse_value\<close>.
\<close>

definition object_turn :: "(nat \<Rightarrow> parsed) \<Rightarrow> (json \<Rightarrow> nat \<Rightarrow> parsed) \<Rightarrow> string \<Rightarrow> json \<Rightarrow> nat \<Rightarrow> parsed" where
  "object_turn val next_turn s res pos =
     (if length s \<le> pos then Some (Inr (No_value, pos, False))
      else if s ! pos = CHR ''}'' then Some (Inr (res, pos + 1, True))
      else case parse_key s pos of
             Inl e \<Rightarrow> Some (Inl e)
           | Inr (key, pos1, ok) \<Rightarrow>
               if \<not> ok then Some (Inr (No_value, pos1, False))
               else if key = ''}'' then Some (Inr (res, pos1, True))
               else if_valid (val pos1) (\<lambda>v pos2. next_turn (set_key res key v) (skip_comma s pos2)))"

definition array_turn :: "(nat \<Rightarrow> parsed) \<Rightarrow> (json \<Rightarrow> nat \<Rightarrow> nat \<Rightarrow> parsed) \<Rightarrow> string \<Rightarrow> json \<Rightarrow> nat \<Rightarrow> nat \<Rightarrow> parsed" where
  "array_turn val next_turn s res index pos =
     (if length s \<le> pos then Some (Inr (No_value, pos, False))
      else if s ! pos = CHR '']'' then Some (Inr (res, pos + 1, True))
      else if_valid (val pos) (\<lambda>v pos2. next_turn (set_at res index v) (index + 1) (skip_comma s pos2)))"

definition value_turn :: "(nat \<Rightarrow> parsed) \<Rightarrow> (nat \<Rightarrow> parsed) \<Rightarrow> string \<Rightarrow> nat \<Rightarrow> parsed" where
  "value_turn obj arr s pos =
     (let start = skip_until (\<lambda>i. value_start s i \<or> closing (s ! i)) (length s) pos
      in if length s \<le> start then Some (Inr (No_value, pos, False))
         else if \<not> value_start s start then Some (Inr (No_value, start, True))
         else map_option (finish_value s) (value_at obj arr s pos start))"

fun parse_object :: "nat \<Rightarrow> string \<Rightarrow> json \<Rightarrow> nat \<Rightarrow> parsed"
  and parse_array :: "nat \<Rightarrow> string \<Rightarrow> json \<Rightarrow> nat \<Rightarrow> nat \<Rightarrow> parsed"
  and parse_value :: "nat \<Rightarrow> string \<Rightarrow> nat \<Rightarrow> parsed" where
  "parse_object 0 s res pos = None"
| "parse_object (Suc f) s res pos = object_turn (parse_value f s) (parse_object f s) s res pos"
| "parse_array 0 s res index pos = None"
| "parse_array (Suc f) s res index pos = array_turn (parse_value f s) (parse_array f s) s res index pos"
| "parse_value 0 s pos = None"
| "parse_value (Suc f) s pos = value_turn (parse_object f s No_value) (parse_array f s No_value 0) s pos"

text \<open>\<^verbatim>\<open>Json::parse\<close>: a text that is not valid gives the null value.\<close>

definition json_parse :: "nat \<Rightarrow> string \<Rightarrow> (cpp_error + json) option" where
  "json_parse f s =
     (let start = skip_until (\<lambda>i. s ! i = CHR ''{'' \<or> s ! i = CHR ''['') (length s) 0
      in if length s \<le> start then Some (Inr (Value VNull True))
         else map_option (\<lambda>r. sum_bind r (\<lambda>(j, _, ok). Inr (if ok then j else Value VNull True)))
           (if s ! start = CHR ''{'' then parse_object f s No_value (start + 1)
            else parse_array f s No_value 0 (start + 1)))"

lemma parse_object_eq:
  "parse_object (Suc f) s res pos =
     (if length s \<le> pos then Some (Inr (No_value, pos, False))
      else if s ! pos = CHR ''}'' then Some (Inr (res, pos + 1, True))
      else case parse_key s pos of
             Inl e \<Rightarrow> Some (Inl e)
           | Inr (key, pos1, ok) \<Rightarrow>
               if \<not> ok then Some (Inr (No_value, pos1, False))
               else if key = ''}'' then Some (Inr (res, pos1, True))
               else if_valid (parse_value f s pos1) (\<lambda>v pos2. parse_object f s (set_key res key v) (skip_comma s pos2)))"
  by (simp add: object_turn_def)

lemma parse_array_eq:
  "parse_array (Suc f) s res index pos =
     (if length s \<le> pos then Some (Inr (No_value, pos, False))
      else if s ! pos = CHR '']'' then Some (Inr (res, pos + 1, True))
      else if_valid (parse_value f s pos) (\<lambda>v pos2. parse_array f s (set_at res index v) (index + 1) (skip_comma s pos2)))"
  by (simp add: array_turn_def)

declare parse_object.simps(2) [simp del] parse_array.simps(2) [simp del] parse_value.simps(2) [simp del]
declare parse_object_eq [simp] parse_array_eq [simp]

section \<open>Positions\<close>

lemma skip_until_ge: "p \<le> skip_until stop n p"
proof (induction stop n p rule: skip_until.induct)
  case (1 stop n p)
  then show ?case by (subst skip_until.simps) auto
qed

lemma skip_until_le: "p \<le> n \<Longrightarrow> skip_until stop n p \<le> n"
proof (induction stop n p rule: skip_until.induct)
  case (1 stop n p)
  then show ?case by (subst skip_until.simps) auto
qed

lemma skip_until_stop: "skip_until stop n p < n \<Longrightarrow> stop (skip_until stop n p)"
proof (induction stop n p rule: skip_until.induct)
  case (1 stop n p)
  then show ?case by (subst skip_until.simps, subst (asm) skip_until.simps) (auto split: if_splits)
qed

lemma skip_until_eq:
  assumes "p \<le> q" and "\<And>i. p \<le> i \<Longrightarrow> i < q \<Longrightarrow> i < n \<and> \<not> stop i" and "n \<le> q \<or> stop q"
  shows "skip_until stop n p = q"
  using assms
proof (induction stop n p rule: skip_until.induct)
  case (1 stop n p)
  show ?case
  proof (cases "p = q")
    case True
    with 1(4) show ?thesis by (subst skip_until.simps) auto
  next
    case False
    with 1(2) have "p < q" by simp
    moreover have "p < n \<and> \<not> stop p" using 1(3) [of p] \<open>p < q\<close> by simp
    moreover have "skip_until stop n (p + 1) = q"
    proof (rule 1(1))
      show "p < n \<and> \<not> stop p" by fact
      show "p + 1 \<le> q" using \<open>p < q\<close> by simp
      show "i < n \<and> \<not> stop i" if "p + 1 \<le> i" "i < q" for i using 1(3) [of i] that by simp
      show "n \<le> q \<or> stop q" by (rule 1(4))
    qed
    ultimately show ?thesis by (subst skip_until.simps) simp
  qed
qed

lemma get_sub_string_in_range:
  assumes "start \<le> stop" and "stop \<le> length s"
  shows "get_sub_string s start stop = Inr (take (stop - start) (drop start s), True)"
  using assms by (simp add: get_sub_string_def)

lemma parse_key_result:
  "\<exists>key p ok. parse_key s pos = Inr (key, p, ok) \<and> (ok \<longrightarrow> pos < p \<and> p \<le> length s)"
proof -
  define start where "start = skip_until (\<lambda>i. s ! i = CHR 0x22 \<or> s ! i = CHR ''}'') (length s) pos"
  define stop where "stop = skip_until (\<lambda>i. s ! i = CHR 0x22) (length s) (Suc start)"
  have "pos \<le> start" "Suc start \<le> stop" unfolding start_def stop_def by (rule skip_until_ge)+
  then show ?thesis
    by (auto simp: parse_key_def start_def [symmetric] stop_def [symmetric] Let_def get_sub_string_in_range)
qed

lemma string_end_bounds: "string_end s p e = Some q \<Longrightarrow> p \<le> q \<and> q < length s"
proof (induction s p e rule: string_end.induct)
  case (1 s p e)
  show ?case using 1(4) by (subst (asm) string_end.simps) (auto split: if_splits dest: 1(1-3))
qed

lemma parse_value_string_result:
  "\<exists>t p ok. parse_value_string s pos = Inr (t, p, ok) \<and> pos \<le> p \<and> (ok \<longrightarrow> p \<le> length s)"
  using string_end_bounds [of s pos False]
  by (auto simp: parse_value_string_def get_sub_string_in_range split: option.split)

lemma parse_value_number_result:
  assumes "pos \<le> length s"
  shows "\<exists>j p ok. parse_value_number s pos = Inr (j, p, ok) \<and> pos \<le> p \<and> (ok \<longrightarrow> pos < p \<and> p \<le> length s)"
proof -
  define stop where "stop = skip_until (\<lambda>p. \<not> number_char s p) (length s) pos"
  have "pos \<le> stop" "stop \<le> length s" unfolding stop_def using skip_until_ge skip_until_le assms by blast+
  then show ?thesis
    by (auto simp: parse_value_number_def stop_def [symmetric] Let_def get_sub_string_in_range split: option.split)
qed

section \<open>Results\<close>

text \<open>A result of a function called at \<open>pos\<close>: no exception, and a position that has not gone back.\<close>

definition moves :: "string \<Rightarrow> nat \<Rightarrow> parsed \<Rightarrow> bool" where
  "moves s pos r \<longleftrightarrow>
     (case r of
        None \<Rightarrow> True
      | Some (Inl e) \<Rightarrow> False
      | Some (Inr (j, p, ok)) \<Rightarrow> ok \<longrightarrow> pos \<le> p \<and> p \<le> length s)"

text \<open>A value that does not start at a closing bracket takes at least one character.\<close>

definition advances :: "string \<Rightarrow> nat \<Rightarrow> parsed \<Rightarrow> bool" where
  "advances s pos r \<longleftrightarrow>
     moves s pos r \<and>
     (\<forall>j p. r = Some (Inr (j, p, True)) \<longrightarrow> pos < p \<or> pos < length s \<and> closing (s ! pos) \<and> p = pos)"

lemma moves_trans: "moves s q r \<Longrightarrow> pos \<le> q \<Longrightarrow> moves s pos r"
  by (auto simp: moves_def split: option.splits sum.splits)

lemma skip_comma_bounds: "p \<le> skip_comma s p" "p \<le> length s \<Longrightarrow> skip_comma s p \<le> length s"
  by (auto simp: skip_comma_def)

lemma moves_finish:
  assumes "moves s q (Some r)" and "pos \<le> q"
  shows "moves s pos (Some (finish_value s r))"
proof (cases r)
  case (Inl e)
  with assms(1) show ?thesis by (simp add: moves_def)
next
  case (Inr x)
  obtain j p ok where x: "x = (j, p, ok)" by (cases x)
  have "p \<le> skip_until (\<lambda>i. s ! i = CHR '','' \<or> closing (s ! i)) (length s) p" by (rule skip_until_ge)
  with assms Inr x show ?thesis by (auto simp: moves_def finish_value_def Let_def)
qed

lemma moves_if_valid:
  assumes "moves s q r" and "\<And>v p. r = Some (Inr (v, p, True)) \<Longrightarrow> moves s pos (k v p)"
  shows "moves s pos (if_valid r k)"
  using assms by (auto simp: moves_def if_valid_def split: option.splits sum.splits)

lemma moves_object_step:
  assumes val: "\<And>p. moves s p (parse_value f s p)" and rest: "\<And>r p. moves s p (parse_object f s r p)"
  shows "moves s pos (parse_object (Suc f) s res pos)"
proof -
  obtain key p1 ok where key: "parse_key s pos = Inr (key, p1, ok)" "ok \<longrightarrow> pos < p1 \<and> p1 \<le> length s"
    using parse_key_result by blast
  have "moves s pos (if_valid (parse_value f s p1) (\<lambda>v p2. parse_object f s (set_key res key v) (skip_comma s p2)))" if ok
  proof (rule moves_if_valid)
    fix v p assume "parse_value f s p1 = Some (Inr (v, p, True))"
    then have "p1 \<le> p" using val [of p1] by (simp add: moves_def)
    then have "pos \<le> skip_comma s p" using key(2) that skip_comma_bounds(1) [of p s] by linarith
    then show "moves s pos (parse_object f s (set_key res key v) (skip_comma s p))" using rest moves_trans by blast
  qed (rule val)
  then show ?thesis using key by (auto simp: moves_def)
qed

lemma moves_array_step:
  assumes val: "\<And>p. moves s p (parse_value f s p)" and rest: "\<And>r i p. moves s p (parse_array f s r i p)"
  shows "moves s pos (parse_array (Suc f) s res index pos)"
proof -
  have "moves s pos (if_valid (parse_value f s pos)
      (\<lambda>v p2. parse_array f s (set_at res index v) (index + 1) (skip_comma s p2)))"
  proof (rule moves_if_valid)
    fix v p assume "parse_value f s pos = Some (Inr (v, p, True))"
    then have "pos \<le> p" using val [of pos] by (simp add: moves_def)
    then have "pos \<le> skip_comma s p" using skip_comma_bounds(1) [of p s] by linarith
    then show "moves s pos (parse_array f s (set_at res index v) (index + 1) (skip_comma s p))"
      using rest moves_trans by blast
  qed (rule val)
  then show ?thesis by (auto simp: moves_def)
qed

abbreviation bare_value :: "nat \<Rightarrow> string \<Rightarrow> nat \<Rightarrow> nat \<Rightarrow> parsed" where
  "bare_value f s \<equiv> value_at (parse_object f s No_value) (parse_array f s No_value 0) s"

lemma parse_value_eq:
  "parse_value (Suc f) s pos =
     (let start = skip_until (\<lambda>i. value_start s i \<or> closing (s ! i)) (length s) pos
      in if length s \<le> start then Some (Inr (No_value, pos, False))
         else if \<not> value_start s start then Some (Inr (No_value, start, True))
         else map_option (finish_value s) (bare_value f s pos start))"
  by (simp only: parse_value.simps value_turn_def)

lemma advancesI: "moves s (pos + 1) r \<Longrightarrow> advances s pos r"
  by (auto simp: advances_def moves_def split: option.splits sum.splits)

lemma moves_bare_value:
  assumes "start < length s"
    and "moves s (start + 1) (parse_object f s No_value (start + 1))"
    and "moves s (start + 1) (parse_array f s No_value 0 (start + 1))"
  shows "moves s (start + 1) (bare_value f s pos start)"
proof -
  obtain t p ok where str: "parse_value_string s (start + 1) = Inr (t, p, ok)" "start + 1 \<le> p" "ok \<longrightarrow> p \<le> length s"
    using parse_value_string_result by blast
  obtain j q ok' where num: "parse_value_number s start = Inr (j, q, ok')" "ok' \<longrightarrow> start < q \<and> q \<le> length s"
    using parse_value_number_result assms(1) by (meson less_imp_le)
  show ?thesis
  proof (cases "is_boolean s start")
    case TRUE_VALUE
    then have "start + 4 < length s" by (simp add: is_boolean_def split: if_splits)
    with TRUE_VALUE str num show ?thesis by (auto simp: value_at_def moves_def)
  next
    case FALSE_VALUE
    then have "start + 5 < length s" by (simp add: is_boolean_def split: if_splits)
    with FALSE_VALUE str num show ?thesis by (auto simp: value_at_def moves_def)
  next
    case NOT_BOOLEAN_VALUE
    have "is_null s start \<Longrightarrow> start + 4 < length s" by (simp add: is_null_def)
    with NOT_BOOLEAN_VALUE str num assms(2, 3) show ?thesis by (auto simp: value_at_def moves_def)
  qed
qed

lemma advances_value_step:
  assumes "\<And>r p. moves s p (parse_object f s r p)" and "\<And>r i p. moves s p (parse_array f s r i p)"
  shows "advances s pos (parse_value (Suc f) s pos)"
proof -
  define start where "start = skip_until (\<lambda>i. value_start s i \<or> closing (s ! i)) (length s) pos"
  have ge: "pos \<le> start" unfolding start_def by (rule skip_until_ge)
  have stop: "start < length s \<Longrightarrow> value_start s start \<or> closing (s ! start)"
    unfolding start_def by (rule skip_until_stop)
  consider "length s \<le> start" | "start < length s" "\<not> value_start s start" | "start < length s" "value_start s start"
    by linarith
  then show ?thesis
  proof cases
    case 1
    then show ?thesis by (simp add: parse_value_eq start_def [symmetric] advances_def moves_def)
  next
    case 2
    then show ?thesis using ge stop by (auto simp: parse_value_eq start_def [symmetric] advances_def moves_def)
  next
    case 3
    then have bare: "moves s (start + 1) (bare_value f s pos start)" by (intro moves_bare_value assms)
    have "moves s (start + 1) (map_option (finish_value s) (bare_value f s pos start))"
    proof (cases "bare_value f s pos start")
      case None
      then show ?thesis by (simp add: moves_def)
    next
      case (Some r)
      then show ?thesis using bare moves_finish [of s "start + 1" r "start + 1"] by simp
    qed
    then have "moves s (pos + 1) (parse_value (Suc f) s pos)"
      using 3 ge moves_trans [of s "start + 1"] by (simp add: parse_value_eq start_def [symmetric])
    then show ?thesis by (rule advancesI)
  qed
qed

lemma parse_moves:
  "moves s pos (parse_object f s res pos) \<and> moves s pos (parse_array f s res index pos) \<and>
   advances s pos (parse_value f s pos)"
proof (induction f arbitrary: res index pos)
  case 0
  show ?case by (simp add: moves_def advances_def)
next
  case (Suc f)
  then have "moves s p (parse_object f s r p)" "moves s p (parse_array f s r i p)"
    "moves s p (parse_value f s p)" for r i p by (auto simp: advances_def)
  then show ?case by (intro conjI moves_object_step moves_array_step advances_value_step)
qed

section \<open>Fuel\<close>

lemma brace_is_no_value: "s ! p = CHR ''}'' \<Longrightarrow> \<not> value_start s p"
  by (simp add: value_start_def is_boolean_def is_null_def is_number_def cpp_isdigit_def)

lemma parse_value_at_brace:
  assumes "pos < length s" and "s ! pos = CHR ''}''"
  shows "parse_value (Suc f) s pos = Some (Inr (No_value, pos, True))"
proof -
  have "skip_until (\<lambda>i. value_start s i \<or> closing (s ! i)) (length s) pos = pos"
    by (rule skip_until_eq) (use assms in \<open>simp_all add: closing_def\<close>)
  with assms show ?thesis by (simp add: parse_value_eq brace_is_no_value)
qed

text \<open>The loop of \<^verbatim>\<open>parse_array\<close> does not move past a closing brace.\<close>

lemma parse_array_hangs_at_brace:
  assumes "pos < length s" and "s ! pos = CHR ''}''"
  shows "parse_array f s res index pos = None"
proof (induction f arbitrary: res index)
  case (Suc f)
  then show ?case
    by (cases f) (use assms in \<open>simp_all add: parse_value_at_brace if_valid_def skip_comma_def\<close>)
qed simp

text \<open>What a call returns with some fuel it returns with any fuel that suffices for the rest of the text.\<close>

definition enough :: "(nat \<Rightarrow> parsed) \<Rightarrow> nat \<Rightarrow> nat \<Rightarrow> bool" where
  "enough call g n \<longleftrightarrow> (\<forall>r f. call g = Some r \<longrightarrow> n \<le> f \<longrightarrow> call f = Some r)"

lemma enoughD: "enough call g n \<Longrightarrow> call g = Some r \<Longrightarrow> n \<le> f \<Longrightarrow> call f = Some r"
  by (simp add: enough_def)

lemma if_valid_enough:
  assumes some: "if_valid r k = Some x" and same: "\<And>y. r = Some y \<Longrightarrow> r' = Some y"
    and rest: "\<And>v p y. r = Some (Inr (v, p, True)) \<Longrightarrow> k v p = Some y \<Longrightarrow> k' v p = Some y"
  shows "if_valid r' k' = Some x"
proof (cases r)
  case None
  with some show ?thesis by (simp add: if_valid_def)
next
  case (Some y)
  with some rest show ?thesis using same [OF Some]
    by (auto simp: if_valid_def split: sum.splits if_splits)
qed

lemma parse_object_enough:
  assumes "\<And>p. enough (\<lambda>f. parse_value f s p) g (2 * (length s - p) + 1)"
    and "\<And>r p. enough (\<lambda>f. parse_object f s r p) g (2 * (length s - p) + 2)"
  shows "enough (\<lambda>f. parse_object f s res pos) (Suc g) (2 * (length s - pos) + 2)"
  unfolding enough_def
proof (intro allI impI)
  fix r f assume some: "parse_object (Suc g) s res pos = Some r" and le: "2 * (length s - pos) + 2 \<le> f"
  obtain f' where f: "f = Suc f'" using le by (cases f) auto
  obtain key p1 ok where key: "parse_key s pos = Inr (key, p1, ok)" "ok \<longrightarrow> pos < p1 \<and> p1 \<le> length s"
    using parse_key_result by blast
  show "parse_object f s res pos = Some r"
  proof (cases "pos < length s \<and> s ! pos \<noteq> CHR ''}'' \<and> ok \<and> key \<noteq> ''}''")
    case False
    with some key show ?thesis by (auto simp: f)
  next
    case True
    have fuel: "2 * (length s - q) + 2 \<le> f'" if "p1 \<le> q" for q using that True key(2) le f by linarith
    have "if_valid (parse_value f' s p1) (\<lambda>v p2. parse_object f' s (set_key res key v) (skip_comma s p2)) = Some r"
    proof (rule if_valid_enough)
      show "if_valid (parse_value g s p1) (\<lambda>v p2. parse_object g s (set_key res key v) (skip_comma s p2)) = Some r"
        using some key True by simp
      show "parse_value f' s p1 = Some y" if "parse_value g s p1 = Some y" for y
        using enoughD [OF assms(1) that] fuel [of p1] by simp
      fix v p y assume "parse_value g s p1 = Some (Inr (v, p, True))"
        and y: "parse_object g s (set_key res key v) (skip_comma s p) = Some y"
      then have "p1 \<le> p" using parse_moves [of s p1 g] by (simp add: advances_def moves_def)
      then have "p1 \<le> skip_comma s p" using skip_comma_bounds(1) [of p s] by linarith
      then show "parse_object f' s (set_key res key v) (skip_comma s p) = Some y"
        using enoughD [OF assms(2) y] fuel by blast
    qed
    then show ?thesis using key True by (simp add: f)
  qed
qed

lemma parse_array_enough:
  assumes "\<And>p. enough (\<lambda>f. parse_value f s p) g (2 * (length s - p) + 1)"
    and "\<And>r i p. enough (\<lambda>f. parse_array f s r i p) g (2 * (length s - p) + 2)"
  shows "enough (\<lambda>f. parse_array f s res index pos) (Suc g) (2 * (length s - pos) + 2)"
  unfolding enough_def
proof (intro allI impI)
  fix r f assume some: "parse_array (Suc g) s res index pos = Some r" and le: "2 * (length s - pos) + 2 \<le> f"
  obtain f' where f: "f = Suc f'" using le by (cases f) auto
  show "parse_array f s res index pos = Some r"
  proof (cases "pos < length s \<and> s ! pos \<noteq> CHR '']''")
    case False
    with some show ?thesis by (auto simp: f)
  next
    case True
    have "if_valid (parse_value f' s pos) (\<lambda>v p2. parse_array f' s (set_at res index v) (index + 1) (skip_comma s p2)) = Some r"
    proof (rule if_valid_enough)
      show "if_valid (parse_value g s pos) (\<lambda>v p2. parse_array g s (set_at res index v) (index + 1) (skip_comma s p2)) = Some r"
        using some True by simp
      show "parse_value f' s pos = Some y" if "parse_value g s pos = Some y" for y
        using enoughD [OF assms(1) that] le f by simp
      fix v p y assume v: "parse_value g s pos = Some (Inr (v, p, True))"
        and y: "parse_array g s (set_at res index v) (index + 1) (skip_comma s p) = Some y"
      have "\<not> (closing (s ! pos) \<and> p = pos)"
        using True y parse_array_hangs_at_brace [of pos s g] by (auto simp: closing_def skip_comma_def)
      then have "pos < p" using v parse_moves [of s pos g] by (auto simp: advances_def)
      then have "2 * (length s - skip_comma s p) + 2 \<le> f'"
        using skip_comma_bounds(1) [of p s] True le f by linarith
      then show "parse_array f' s (set_at res index v) (index + 1) (skip_comma s p) = Some y"
        using enoughD [OF assms(2) y] by blast
    qed
    then show ?thesis using True by (simp add: f)
  qed
qed

lemma parse_value_enough:
  assumes "\<And>p. enough (\<lambda>f. parse_object f s No_value p) g (2 * (length s - p) + 2)"
    and "\<And>p. enough (\<lambda>f. parse_array f s No_value 0 p) g (2 * (length s - p) + 2)"
  shows "enough (\<lambda>f. parse_value f s pos) (Suc g) (2 * (length s - pos) + 1)"
  unfolding enough_def
proof (intro allI impI)
  fix r f assume some: "parse_value (Suc g) s pos = Some r" and le: "2 * (length s - pos) + 1 \<le> f"
  obtain f' where f: "f = Suc f'" using le by (cases f) auto
  define start where "start = skip_until (\<lambda>i. value_start s i \<or> closing (s ! i)) (length s) pos"
  have ge: "pos \<le> start" unfolding start_def by (rule skip_until_ge)
  have "bare_value f' s pos start = Some y" if "start < length s" "bare_value g s pos start = Some y" for y
  proof -
    have fuel: "2 * (length s - (start + 1)) + 2 \<le> f'" using that(1) ge le f by linarith
    show ?thesis using that(2) enoughD [OF assms(1) _ fuel] enoughD [OF assms(2) _ fuel]
      by (auto simp: value_at_def split: if_splits boolean_text.splits)
  qed
  then show "parse_value f s pos = Some r"
    using some by (auto simp: f parse_value_eq start_def [symmetric] Let_def split: if_splits)
qed

lemma parse_enough:
  "enough (\<lambda>f. parse_object f s res pos) g (2 * (length s - pos) + 2) \<and>
   enough (\<lambda>f. parse_array f s res index pos) g (2 * (length s - pos) + 2) \<and>
   enough (\<lambda>f. parse_value f s pos) g (2 * (length s - pos) + 1)"
proof (induction g arbitrary: res index pos)
  case 0
  show ?case by (simp add: enough_def)
next
  case (Suc g)
  then show ?case by (intro conjI parse_object_enough parse_array_enough parse_value_enough) blast+
qed

lemma parse_fuel:
  "parse_object g s res pos = Some r \<Longrightarrow> 2 * (length s - pos) + 2 \<le> f \<Longrightarrow> parse_object f s res pos = Some r"
  "parse_array g s res index pos = Some r \<Longrightarrow> 2 * (length s - pos) + 2 \<le> f \<Longrightarrow> parse_array f s res index pos = Some r"
  "parse_value g s pos = Some r \<Longrightarrow> 2 * (length s - pos) + 1 \<le> f \<Longrightarrow> parse_value f s pos = Some r"
  using parse_enough unfolding enough_def by blast+

text \<open>No closing brace follows an opening bracket.\<close>

definition no_brace_after_bracket :: "string \<Rightarrow> bool" where
  "no_brace_after_bracket s \<longleftrightarrow> CHR ''}'' \<notin> set (dropWhile (\<lambda>c. c \<noteq> CHR ''['') s)"

lemma no_brace_after_bracket:
  assumes "no_brace_after_bracket s" and "s ! i = CHR ''[''" and "i < j" and "j < length s"
  shows "s ! j \<noteq> CHR ''}''"
proof -
  let ?t = "takeWhile (\<lambda>c. c \<noteq> CHR ''['') s" and ?d = "dropWhile (\<lambda>c. c \<noteq> CHR ''['') s"
  have "\<not> i < length ?t"
  proof
    assume "i < length ?t"
    then have "?t ! i \<noteq> CHR ''[''" "?t ! i = s ! i" using nth_mem set_takeWhileD takeWhile_nth by fast+
    with assms(2) show False by simp
  qed
  then have "length ?t \<le> j" using assms(3) by simp
  moreover have "s ! j = (?t @ ?d) ! j" "length (?t @ ?d) = length s" by (simp_all only: takeWhile_dropWhile_id)
  ultimately have "s ! j = ?d ! (j - length ?t)" "j - length ?t < length ?d"
    using assms(4) by (simp_all only: nth_append length_append) simp_all
  then have "s ! j \<in> set ?d" by (metis nth_mem)
  with assms(1) show ?thesis by (auto simp: no_brace_after_bracket_def)
qed

lemma if_valid_returns:
  assumes "r \<noteq> None" and "\<And>v p. r = Some (Inr (v, p, True)) \<Longrightarrow> k v p \<noteq> None"
  shows "if_valid r k \<noteq> None"
  using assms by (auto simp: if_valid_def split: option.splits sum.splits)

lemma parse_object_returns:
  assumes val: "\<And>p. 2 * (length s - p) + 1 \<le> f \<Longrightarrow> parse_value f s p \<noteq> None"
    and rest: "\<And>r p. 2 * (length s - p) + 2 \<le> f \<Longrightarrow> parse_object f s r p \<noteq> None"
    and fuel: "2 * (length s - pos) + 2 \<le> Suc f"
  shows "parse_object (Suc f) s res pos \<noteq> None"
proof -
  obtain key p1 ok where key: "parse_key s pos = Inr (key, p1, ok)" "ok \<longrightarrow> pos < p1 \<and> p1 \<le> length s"
    using parse_key_result by blast
  have "if_valid (parse_value f s p1) (\<lambda>v p2. parse_object f s (set_key res key v) (skip_comma s p2)) \<noteq> None" if ok
  proof (rule if_valid_returns)
    have le: "2 * (length s - q) + 2 \<le> f" if "p1 \<le> q" for q using that \<open>ok\<close> key(2) fuel by linarith
    have "2 * (length s - p1) + 1 \<le> f" using le [of p1] by linarith
    then show "parse_value f s p1 \<noteq> None" by (rule val)
    fix v p assume "parse_value f s p1 = Some (Inr (v, p, True))"
    then have "p1 \<le> p" using parse_moves [of s p1 f] by (simp add: advances_def moves_def)
    then show "parse_object f s (set_key res key v) (skip_comma s p) \<noteq> None"
      using rest le skip_comma_bounds(1) [of p s] by simp
  qed
  then show ?thesis using key by auto
qed

lemma parse_array_returns:
  assumes val: "\<And>p. 2 * (length s - p) + 1 \<le> f \<Longrightarrow> parse_value f s p \<noteq> None"
    and rest: "\<And>r i p. 2 * (length s - p) + 2 \<le> f \<Longrightarrow> pos \<le> p \<Longrightarrow> parse_array f s r i p \<noteq> None"
    and fuel: "2 * (length s - pos) + 2 \<le> Suc f" and brace: "\<And>j. pos \<le> j \<Longrightarrow> j < length s \<Longrightarrow> s ! j \<noteq> CHR ''}''"
  shows "parse_array (Suc f) s res index pos \<noteq> None"
proof (cases "pos < length s \<and> s ! pos \<noteq> CHR '']''")
  case True
  have "if_valid (parse_value f s pos) (\<lambda>v p2. parse_array f s (set_at res index v) (index + 1) (skip_comma s p2)) \<noteq> None"
  proof (rule if_valid_returns)
    show "parse_value f s pos \<noteq> None" using val fuel by simp
    fix v p assume "parse_value f s pos = Some (Inr (v, p, True))"
    then have "pos < p" using parse_moves [of s pos f] True brace [of pos] by (auto simp: advances_def closing_def)
    then have "2 * (length s - skip_comma s p) + 2 \<le> f" "pos \<le> skip_comma s p"
      using skip_comma_bounds(1) [of p s] True fuel by linarith+
    then show "parse_array f s (set_at res index v) (index + 1) (skip_comma s p) \<noteq> None" by (rule rest)
  qed
  with True show ?thesis by simp
qed auto

lemma parse_value_returns:
  assumes clear: "no_brace_after_bracket s"
    and obj: "\<And>r p. 2 * (length s - p) + 2 \<le> f \<Longrightarrow> parse_object f s r p \<noteq> None"
    and arr: "\<And>r i p. 2 * (length s - p) + 2 \<le> f \<Longrightarrow> (\<And>j. p \<le> j \<Longrightarrow> j < length s \<Longrightarrow> s ! j \<noteq> CHR ''}'') \<Longrightarrow>
      parse_array f s r i p \<noteq> None"
    and fuel: "2 * (length s - pos) + 1 \<le> Suc f"
  shows "parse_value (Suc f) s pos \<noteq> None"
proof -
  define start where "start = skip_until (\<lambda>i. value_start s i \<or> closing (s ! i)) (length s) pos"
  have ge: "pos \<le> start" unfolding start_def by (rule skip_until_ge)
  have "bare_value f s pos start \<noteq> None" if "start < length s"
  proof -
    have "2 * (length s - (start + 1)) + 2 \<le> f" using that ge fuel by linarith
    then have "parse_object f s No_value (start + 1) \<noteq> None"
      "s ! start = CHR ''['' \<Longrightarrow> parse_array f s No_value 0 (start + 1) \<noteq> None"
      using obj arr no_brace_after_bracket [OF clear, of start] by force+
    then show ?thesis by (auto simp: value_at_def split: boolean_text.splits)
  qed
  then show ?thesis by (auto simp: parse_value_eq start_def [symmetric] Let_def)
qed

lemma parse_returns:
  assumes "no_brace_after_bracket s"
  shows "(2 * (length s - pos) + 2 \<le> f \<longrightarrow> parse_object f s res pos \<noteq> None) \<and>
    (2 * (length s - pos) + 2 \<le> f \<longrightarrow> (\<forall>j \<ge> pos. j < length s \<longrightarrow> s ! j \<noteq> CHR ''}'') \<longrightarrow>
       parse_array f s res index pos \<noteq> None) \<and>
    (2 * (length s - pos) + 1 \<le> f \<longrightarrow> parse_value f s pos \<noteq> None)"
proof (induction f arbitrary: res index pos)
  case (Suc f)
  show ?case
  proof (intro conjI impI)
    show "parse_object (Suc f) s res pos \<noteq> None" if "2 * (length s - pos) + 2 \<le> Suc f"
      by (rule parse_object_returns) (use Suc that in blast)+
    show "parse_array (Suc f) s res index pos \<noteq> None"
      if "2 * (length s - pos) + 2 \<le> Suc f" "\<forall>j \<ge> pos. j < length s \<longrightarrow> s ! j \<noteq> CHR ''}''"
      by (rule parse_array_returns) (use Suc that in \<open>auto intro: order_trans\<close>)
    show "parse_value (Suc f) s pos \<noteq> None" if "2 * (length s - pos) + 1 \<le> Suc f"
      by (rule parse_value_returns) (use Suc assms that in blast)+
  qed
qed simp

end
