(* ===== verification/Json_Round_Trip.thy ===== *)
theory Json_Round_Trip
  imports Json_Parser
begin

text \<open>
  Printing and parsing JSON: what the parser (\<^verbatim>\<open>json_parse.cpp\<close>) makes of the text the printer
  (\<^verbatim>\<open>write_string_value\<close>) writes, which texts it does not return from, and which it reads wrongly.
\<close>

section \<open>What survives printing and parsing\<close>










section \<open>Scalars\<close>












lemma not_number [simp]:
  "\<not> is_number CHR ''n''" "\<not> is_number CHR ''t''" "\<not> is_number CHR ''f''" "\<not> is_number CHR ''{''"
  "\<not> is_number CHR ''[''" "\<not> is_number CHR 0x22"
  by (simp_all add: is_number_def cpp_isdigit_def)






section \<open>Containers\<close>





declare parse_object_eq [simp del] parse_array_eq [simp del]













section \<open>Whole documents\<close>







section \<open>A document\<close>




section \<open>Properties\<close>



text \<open>
  (C13) Termination: no text makes the parser throw; a text is either parsed with a number of calls and
  loop turns bounded by twice its length, with the same result for any larger bound, or never; and
  it is always parsed if no closing brace follows an opening bracket.
\<close>

theorem json_parse_terminates_or_never:
  "json_parse f s \<noteq> Some (Inl e) \<and>
   (json_parse f s = Some r \<longrightarrow> 2 * length s + 2 \<le> f' \<longrightarrow> json_parse f' s = Some r) \<and>
   (no_brace_after_bracket s \<longrightarrow> 2 * length s + 2 \<le> f \<longrightarrow> json_parse f s \<noteq> None)"
proof -
  define start where "start = skip_until (\<lambda>i. s ! i = CHR ''{'' \<or> s ! i = CHR ''['') (length s) 0"
  have stop: "start < length s \<Longrightarrow> s ! start = CHR ''{'' \<or> s ! start = CHR ''[''"
    unfolding start_def by (rule skip_until_stop)
  let ?p = "\<lambda>f. if s ! start = CHR ''{'' then parse_object f s No_value (start + 1)
    else parse_array f s No_value 0 (start + 1)"
  have eq: "json_parse f s = (if length s \<le> start then Some (Inr (Value VNull True))
      else map_option (\<lambda>r. sum_bind r (\<lambda>(j, _, ok). Inr (if ok then j else Value VNull True))) (?p f))" for f
    by (simp add: json_parse_def start_def Let_def)
  have "moves s (start + 1) (?p f)" using parse_moves by simp
  then have "?p f \<noteq> Some (Inl e)" by (auto simp: moves_def)
  then have "json_parse f s \<noteq> Some (Inl e)" by (auto simp: eq sum_bind_eq_Inl)
  moreover have "json_parse f' s = Some r" if "json_parse f s = Some r" "2 * length s + 2 \<le> f'"
  proof -
    have fuel: "2 * (length s - (start + 1)) + 2 \<le> f'" using that(2) by simp
    have "?p f' = Some x" if "?p f = Some x" for x
    proof (cases "s ! start = CHR ''{''")
      case True
      with that parse_fuel(1) [OF _ fuel, of f No_value x] show ?thesis by simp
    next
      case False
      with that parse_fuel(2) [OF _ fuel, of f No_value 0 x] show ?thesis by simp
    qed
    with that(1) show ?thesis by (auto simp: eq split: if_splits)
  qed
  moreover have "json_parse f s \<noteq> None" if c: "no_brace_after_bracket s" and "2 * length s + 2 \<le> f"
  proof -
    have "s ! start = CHR ''['' \<Longrightarrow> \<forall>j \<ge> start + 1. j < length s \<longrightarrow> s ! j \<noteq> CHR ''}''"
      using no_brace_after_bracket [OF c] by simp
    then have "start < length s \<Longrightarrow> ?p f \<noteq> None"
      using parse_returns [OF c, of "start + 1" f] stop that(2) by auto
    then show ?thesis by (auto simp: eq)
  qed
  ultimately show ?thesis by blast
qed

theorem json_parse_terminates_or_never_witness:
  "json_parse 100 ''[1,[2]]'' = Some (Inr (Object True [] [Value (VInt 1) True, Object True [] [Value (VInt 2) True]])) \<and>
   json_parse 100 ''[1,'' \<noteq> None"
proof -
  let ?r = "Inr (Object True [] [Value (VInt 1) True, Object True [] [Value (VInt 2) True]]) :: cpp_error + json"
  have "json_parse 5 ''[1,[2]]'' = Some ?r" by code_simp
  moreover have "2 * length ''[1,[2]]'' + 2 \<le> 100" by simp
  ultimately have "json_parse 100 ''[1,[2]]'' = Some ?r"
    using json_parse_terminates_or_never [of 5 "''[1,[2]]''" UB_null_pointer ?r 100] by blast
  moreover have "no_brace_after_bracket ''[1,''" "2 * length ''[1,'' + 2 \<le> 100"
    by (simp_all add: no_brace_after_bracket_def)
  then have "json_parse 100 ''[1,'' \<noteq> None"
    using json_parse_terminates_or_never [of 100 "''[1,''" UB_null_pointer ?r 100] by blast
  ultimately show ?thesis by blast
qed


end
