(* ===== verification/Shared_Cache_Pool.thy ===== *)
theory Shared_Cache_Pool
  imports Cache_Pool
begin

text \<open>
  \<^verbatim>\<open>SharedCachePool\<close> (\<^verbatim>\<open>src/core/cache/shared_cache_pool.h\<close>): objects with a reference counter,
  handed out as \<^verbatim>\<open>ObjectPointer\<close>s that return the object to the pool when the last of them goes.
  The ring of free objects is the \<^verbatim>\<open>PoolBuffer\<close> of \<open>Cache_Pool\<close>. The live pointers of the program
  are numbered; a pointer that is null, moved from or destroyed is \<^const>\<open>None\<close>. Operations run one
  after the other.
\<close>

section \<open>State and operations\<close>

record 'a SharedCachePool =
  shared_name :: string
  shared_buffer :: PoolBuffer
  reference_counters :: "nat list"
  shared_objects :: "'a list"
  pointers :: "nat option list"

definition new_shared_pool :: "string \<Rightarrow> nat \<Rightarrow> 'a \<Rightarrow> 'a SharedCachePool" where
  "new_shared_pool nm n v =
     \<lparr>shared_name = nm, shared_buffer = new_pool_buffer n, reference_counters = replicate n 0,
      shared_objects = replicate n v, pointers = []\<rparr>"

definition shared_acquire :: "('a \<Rightarrow> 'a) \<Rightarrow> 'a SharedCachePool \<Rightarrow> cpp_error + 'a SharedCachePool" where
  "shared_acquire init st =
     (case buffer_take (shared_buffer st) of
        None \<Rightarrow> Inl (Runtime_error (''No available items in cache pool: ['' @ shared_name st @ '']''))
      | Some (r, b) \<Rightarrow>
          Inr (st\<lparr>shared_buffer := b, reference_counters := (reference_counters st)[r := 1],
                  shared_objects := (shared_objects st)[r := init (shared_objects st ! r)],
                  pointers := pointers st @ [Some r]\<rparr>))"

definition shared_release :: "('a \<Rightarrow> 'a) \<Rightarrow> 'a SharedCachePool \<Rightarrow> nat \<Rightarrow> 'a SharedCachePool" where
  "shared_release refresh st r =
     st\<lparr>shared_objects := (shared_objects st)[r := refresh (shared_objects st ! r)],
        shared_buffer := buffer_put (shared_buffer st) r\<rparr>"

text \<open>
  \<^verbatim>\<open>if (reference_counter->fetch_sub(1) == 1) release(wrapper)\<close> for the pointer \<open>x\<close>, which then no
  longer counts: the destructor, and the first half of an assignment.
\<close>

definition drop_pointer :: "('a \<Rightarrow> 'a) \<Rightarrow> 'a SharedCachePool \<Rightarrow> nat \<Rightarrow> 'a SharedCachePool" where
  "drop_pointer refresh st x =
     (case pointers st ! x of
        None \<Rightarrow> st
      | Some r \<Rightarrow>
          let st1 = st\<lparr>reference_counters := (reference_counters st)[r := reference_counters st ! r - 1],
                       pointers := (pointers st)[x := None]\<rparr>
          in if reference_counters st ! r = 1 then shared_release refresh st1 r else st1)"

text \<open>\<^verbatim>\<open>x\<close> becomes a copy of \<^verbatim>\<open>p\<close>.\<close>

definition point_to :: "'a SharedCachePool \<Rightarrow> nat \<Rightarrow> nat option \<Rightarrow> 'a SharedCachePool" where
  "point_to st x p =
     (case p of
        None \<Rightarrow> st\<lparr>pointers := (pointers st)[x := None]\<rparr>
      | Some r \<Rightarrow> st\<lparr>reference_counters := (reference_counters st)[r := reference_counters st ! r + 1],
                     pointers := (pointers st)[x := Some r]\<rparr>)"

definition declare_pointer :: "'a SharedCachePool \<Rightarrow> 'a SharedCachePool" where
  "declare_pointer st = st\<lparr>pointers := pointers st @ [None]\<rparr>"

definition pointer_copy :: "'a SharedCachePool \<Rightarrow> nat \<Rightarrow> 'a SharedCachePool" where
  "pointer_copy st y = point_to (declare_pointer st) (length (pointers st)) (pointers st ! y)"

definition pointer_move :: "'a SharedCachePool \<Rightarrow> nat \<Rightarrow> 'a SharedCachePool" where
  "pointer_move st y = st\<lparr>pointers := (pointers st)[y := None] @ [pointers st ! y]\<rparr>"

definition pointer_destroy :: "('a \<Rightarrow> 'a) \<Rightarrow> 'a SharedCachePool \<Rightarrow> nat \<Rightarrow> 'a SharedCachePool" where
  "pointer_destroy refresh st x = drop_pointer refresh st x"

definition pointer_assign :: "('a \<Rightarrow> 'a) \<Rightarrow> 'a SharedCachePool \<Rightarrow> nat \<Rightarrow> nat \<Rightarrow> 'a SharedCachePool" where
  "pointer_assign refresh st x y =
     (if x = y then st else point_to (drop_pointer refresh st x) x (pointers st ! y))"

definition pointer_move_assign :: "('a \<Rightarrow> 'a) \<Rightarrow> 'a SharedCachePool \<Rightarrow> nat \<Rightarrow> nat \<Rightarrow> 'a SharedCachePool" where
  "pointer_move_assign refresh st x y =
     (if x = y then st
      else let st1 = drop_pointer refresh st x
           in st1\<lparr>pointers := (pointers st1)[x := pointers st1 ! y, y := None]\<rparr>)"

inductive shared_step :: "('a \<Rightarrow> 'a) \<Rightarrow> ('a \<Rightarrow> 'a) \<Rightarrow> 'a SharedCachePool \<Rightarrow> 'a SharedCachePool \<Rightarrow> bool"
  for init refresh where
  acquires: "shared_acquire init st = Inr st' \<Longrightarrow> shared_step init refresh st st'"
| copies: "y < length (pointers st) \<Longrightarrow> shared_step init refresh st (pointer_copy st y)"
| moves_to_new: "y < length (pointers st) \<Longrightarrow> shared_step init refresh st (pointer_move st y)"
| destroys: "x < length (pointers st) \<Longrightarrow> shared_step init refresh st (pointer_destroy refresh st x)"
| assigns: "x < length (pointers st) \<Longrightarrow> y < length (pointers st) \<Longrightarrow>
    shared_step init refresh st (pointer_assign refresh st x y)"
| move_assigns: "x < length (pointers st) \<Longrightarrow> y < length (pointers st) \<Longrightarrow>
    shared_step init refresh st (pointer_move_assign refresh st x y)"

section \<open>Reference counts\<close>

definition pointer_count :: "'a SharedCachePool \<Rightarrow> nat \<Rightarrow> nat" where
  "pointer_count st r = count (mset (pointers st)) (Some r)"

abbreviation shared_free :: "'a SharedCachePool \<Rightarrow> nat list" where
  "shared_free st \<equiv> buffer_free (shared_buffer st)"

abbreviation shared_capacity :: "'a SharedCachePool \<Rightarrow> nat" where
  "shared_capacity st \<equiv> buffer_capacity (shared_buffer st)"

definition pointers_counted :: "'a SharedCachePool \<Rightarrow> nat \<Rightarrow> bool" where
  "pointers_counted st r \<longleftrightarrow>
     (r \<in> set (shared_free st) \<longleftrightarrow> pointer_count st r = 0) \<and>
     (pointer_count st r \<noteq> 0 \<longrightarrow> reference_counters st ! r = pointer_count st r)"

definition shared_inv :: "'a SharedCachePool \<Rightarrow> bool" where
  "shared_inv st \<longleftrightarrow>
     buffer_inv (shared_buffer st) \<and> distinct (shared_free st) \<and> set (shared_free st) \<subseteq> {0..<shared_capacity st} \<and>
     length (reference_counters st) = shared_capacity st \<and> length (shared_objects st) = shared_capacity st \<and>
     (\<forall>r. Some r \<in> set (pointers st) \<longrightarrow> r < shared_capacity st) \<and>
     (\<forall>r < shared_capacity st. pointers_counted st r)"

text \<open>What a step leaves alone: the objects that are still pointed to.\<close>

definition keeps_objects :: "'a SharedCachePool \<Rightarrow> 'a SharedCachePool \<Rightarrow> bool" where
  "keeps_objects st st' \<longleftrightarrow>
     shared_capacity st' = shared_capacity st \<and>
     (\<forall>r. pointer_count st r \<noteq> 0 \<longrightarrow> pointer_count st' r \<noteq> 0 \<longrightarrow> shared_objects st' ! r = shared_objects st ! r)"

lemma shared_invD:
  assumes "shared_inv st"
  shows "buffer_inv (shared_buffer st)" "distinct (shared_free st)" "set (shared_free st) \<subseteq> {0..<shared_capacity st}"
    "length (reference_counters st) = shared_capacity st" "length (shared_objects st) = shared_capacity st"
    "Some r \<in> set (pointers st) \<Longrightarrow> r < shared_capacity st" "r < shared_capacity st \<Longrightarrow> pointers_counted st r"
  using assms by (auto simp: shared_inv_def)

lemma pointer_count_pos: "pointer_count st r \<noteq> 0 \<longleftrightarrow> Some r \<in> set (pointers st)"
  by (simp add: pointer_count_def)

lemma pointer_count_update:
  assumes "x < length ps"
  shows "count (mset (ps[x := p])) q = count (mset ps) q - (if ps ! x = q then 1 else 0) + (if p = q then 1 else 0)"
  using assms by (simp add: mset_update)

lemma pointer_count_update_add:
  assumes "x < length ps"
  shows "count (mset (ps[x := p])) q + (if ps ! x = q then 1 else 0) = count (mset ps) q + (if p = q then 1 else 0)"
  using pointer_count_update [OF assms, of p q] assms by (auto simp: count_mset_gt_0 Suc_leI)

text \<open>A pointer is set to null and its object, if no other points to it, goes back.\<close>

lemma drop_pointer_spec:
  assumes inv: "shared_inv st" and x: "x < length (pointers st)"
  shows "shared_inv (drop_pointer refresh st x) \<and> pointers (drop_pointer refresh st x) = (pointers st)[x := None] \<and>
    keeps_objects st (drop_pointer refresh st x)"
proof (cases "pointers st ! x")
  case None
  then have "(pointers st)[x := None] = pointers st" by (metis list_update_id)
  with None inv show ?thesis by (simp add: drop_pointer_def keeps_objects_def)
next
  case (Some r)
  have r: "Some r \<in> set (pointers st)" using Some x by (metis nth_mem)
  then have cap: "r < shared_capacity st" and ok: "pointers_counted st r" using shared_invD(6, 7) [OF inv] by blast+
  have pos: "pointer_count st r \<noteq> 0" using r pointer_count_pos by blast
  then have rc: "reference_counters st ! r = pointer_count st r" "r \<notin> set (shared_free st)"
    using ok by (auto simp: pointers_counted_def)
  define st1 where "st1 = st\<lparr>reference_counters := (reference_counters st)[r := reference_counters st ! r - 1],
    pointers := (pointers st)[x := None]\<rparr>"
  have count1: "pointer_count st1 q = pointer_count st q - (if q = r then 1 else 0)" for q
    using x Some by (auto simp: pointer_count_def st1_def pointer_count_update)
  have bound1: "Some q \<in> set (pointers st1) \<Longrightarrow> q < shared_capacity st" for q
    using shared_invD(6) [OF inv] by (auto simp: st1_def dest!: set_update_subset_insert [THEN subsetD])
  have ok1: "pointers_counted st1 q" if "q < shared_capacity st" "q \<noteq> r \<or> reference_counters st ! r \<noteq> 1" for q
    using shared_invD(7) [OF inv that(1)] that count1 [of q] rc pos shared_invD(4) [OF inv] cap
    by (auto simp: pointers_counted_def st1_def)
  show ?thesis
  proof (cases "reference_counters st ! r = 1")
    case False
    then have "drop_pointer refresh st x = st1" by (simp add: drop_pointer_def Some st1_def)
    moreover have "shared_inv st1"
      using ok1 False bound1 shared_invD(1-5) [OF inv] by (simp add: shared_inv_def) (simp add: st1_def)
    ultimately show ?thesis by (simp add: keeps_objects_def st1_def)
  next
    case True
    define st2 where "st2 = shared_release refresh st1 r"
    have drop: "drop_pointer refresh st x = st2"
      using True by (simp add: drop_pointer_def Some st1_def st2_def)
    have room: "length (shared_free st) < shared_capacity st"
    proof -
      have "set (shared_free st) \<subset> {0..<shared_capacity st}" using shared_invD(3) [OF inv] rc(2) cap by auto
      then have "card (set (shared_free st)) < shared_capacity st" using psubset_card_mono [of "{0..<shared_capacity st}"] by simp
      then show ?thesis using shared_invD(2) [OF inv] by (simp add: distinct_card)
    qed
    have put: "buffer_inv (shared_buffer st2)" "shared_free st2 = shared_free st @ [r]" "shared_capacity st2 = shared_capacity st"
      using buffer.put [OF shared_invD(1) [OF inv] room cap rc(2)]
      by (simp_all add: st2_def shared_release_def st1_def)
    have count2: "pointer_count st2 q = pointer_count st1 q" for q
      by (simp add: pointer_count_def st2_def shared_release_def)
    have "pointers_counted st2 q" if "q < shared_capacity st" for q
    proof (cases "q = r")
      case True
      then show ?thesis using \<open>reference_counters st ! r = 1\<close> rc count1 count2 put(2) by (simp add: pointers_counted_def)
    next
      case False
      moreover have "reference_counters st2 = reference_counters st1" by (simp add: st2_def shared_release_def)
      moreover have "shared_free st1 = shared_free st" by (simp add: st1_def)
      ultimately show ?thesis using ok1 [OF that] put(2) by (simp add: pointers_counted_def count2)
    qed
    then have "shared_inv st2"
      using put bound1 shared_invD(2-5) [OF inv] rc(2) cap
      by (simp add: shared_inv_def) (simp add: st2_def shared_release_def st1_def)
    moreover have "keeps_objects st st2"
      using put(3) True rc count1 count2 by (auto simp: keeps_objects_def st2_def shared_release_def st1_def)
    ultimately show ?thesis using drop by (simp add: st2_def shared_release_def st1_def)
  qed
qed

text \<open>A null pointer is set to an object that is pointed to.\<close>

lemma point_to_spec:
  assumes inv: "shared_inv st" and x: "x < length (pointers st)" "pointers st ! x = None"
    and p: "\<And>r. p = Some r \<Longrightarrow> pointer_count st r \<noteq> 0"
  shows "shared_inv (point_to st x p) \<and> pointers (point_to st x p) = (pointers st)[x := p] \<and>
    keeps_objects st (point_to st x p)"
proof (cases p)
  case None
  then have "(pointers st)[x := None] = pointers st" using x(2) by (metis list_update_id)
  with None inv show ?thesis by (simp add: point_to_def keeps_objects_def)
next
  case (Some r)
  define st1 where "st1 = point_to st x p"
  have st1: "st1 = st\<lparr>reference_counters := (reference_counters st)[r := reference_counters st ! r + 1],
    pointers := (pointers st)[x := Some r]\<rparr>" by (simp add: st1_def point_to_def Some)
  have pos: "pointer_count st r \<noteq> 0" by (rule p [OF Some])
  then have cap: "r < shared_capacity st" using pointer_count_pos shared_invD(6) [OF inv] by blast
  have count1: "pointer_count st1 q = pointer_count st q + (if q = r then 1 else 0)" for q
    using x by (auto simp: pointer_count_def st1 pointer_count_update)
  have "pointers_counted st1 q" if "q < shared_capacity st" for q
    using shared_invD(7) [OF inv that] pos count1 [of q] cap shared_invD(4) [OF inv]
    by (auto simp: pointers_counted_def st1)
  moreover have "Some q \<in> set (pointers st1) \<Longrightarrow> q < shared_capacity st" for q
    using shared_invD(6) [OF inv] cap by (auto simp: st1 dest!: set_update_subset_insert [THEN subsetD])
  ultimately have "shared_inv st1" using shared_invD(1-5) [OF inv] by (simp add: shared_inv_def) (simp add: st1)
  then show ?thesis unfolding st1_def [symmetric] by (simp add: st1 Some keeps_objects_def)
qed

text \<open>The operations that only rearrange pointers.\<close>

lemma rearrange_spec:
  assumes "shared_inv st" and count: "\<And>r. count (mset ps) (Some r) = count (mset (pointers st)) (Some r)"
  shows "shared_inv (st\<lparr>pointers := ps\<rparr>) \<and> keeps_objects st (st\<lparr>pointers := ps\<rparr>)"
proof -
  have set: "Some r \<in> set ps \<longleftrightarrow> Some r \<in> set (pointers st)" for r
    using count [of r] by (metis count_eq_zero_iff set_mset_mset)
  show ?thesis using assms(1) count set
    by (simp add: shared_inv_def pointers_counted_def pointer_count_def keeps_objects_def)
qed

lemma shared_acquire_spec:
  assumes inv: "shared_inv st" and acq: "shared_acquire init st = Inr st'"
  shows "\<exists>r. pointers st' = pointers st @ [Some r] \<and> pointer_count st r = 0 \<and> reference_counters st' ! r = 1 \<and>
    shared_objects st' ! r = init (shared_objects st ! r) \<and> shared_inv st' \<and> keeps_objects st st'"
proof -
  obtain r b where take: "buffer_take (shared_buffer st) = Some (r, b)"
    and st': "st' = st\<lparr>shared_buffer := b, reference_counters := (reference_counters st)[r := 1],
      shared_objects := (shared_objects st)[r := init (shared_objects st ! r)], pointers := pointers st @ [Some r]\<rparr>"
    using acq by (auto simp: shared_acquire_def split: option.splits)
  have free: "buffer_inv b" "shared_free st = r # buffer_free b" "buffer_capacity b = shared_capacity st"
    using buffer.take_some [OF shared_invD(1) [OF inv] take] by blast+
  then have cap: "r < shared_capacity st" and new: "r \<notin> set (buffer_free b)"
    using shared_invD(2, 3) [OF inv] by auto
  have zero: "pointer_count st r = 0" using shared_invD(7) [OF inv cap] free(2) by (simp add: pointers_counted_def)
  have count: "pointer_count st' q = pointer_count st q + (if q = r then 1 else 0)" for q
    by (simp add: pointer_count_def st')
  have "pointers_counted st' q" if "q < shared_capacity st" for q
    using shared_invD(7) [OF inv that] free(2) new zero count [of q] cap shared_invD(4) [OF inv]
    by (auto simp: pointers_counted_def st')
  moreover have "Some q \<in> set (pointers st') \<Longrightarrow> q < shared_capacity st" for q
    using shared_invD(6) [OF inv] cap by (auto simp: st')
  ultimately have "shared_inv st'"
    using free shared_invD(2-5) [OF inv] by (simp add: shared_inv_def) (auto simp: st')
  moreover have "keeps_objects st st'"
    using zero free(3) cap shared_invD(5) [OF inv] by (auto simp: keeps_objects_def st' nth_list_update)
  ultimately show ?thesis using zero cap shared_invD(4, 5) [OF inv] by (intro exI [of _ r]) (simp add: st')
qed

lemma keeps_objects_trans:
  assumes "keeps_objects st st1" and "keeps_objects st1 st2"
    and "\<And>r. pointer_count st r \<noteq> 0 \<Longrightarrow> pointer_count st2 r \<noteq> 0 \<Longrightarrow> pointer_count st1 r \<noteq> 0"
  shows "keeps_objects st st2"
  using assms by (auto simp: keeps_objects_def)

lemma pointer_copy_spec:
  assumes inv: "shared_inv st" and y: "y < length (pointers st)"
  shows "shared_inv (pointer_copy st y) \<and> pointers (pointer_copy st y) = pointers st @ [pointers st ! y] \<and>
    keeps_objects st (pointer_copy st y)"
proof -
  have decl: "shared_inv (declare_pointer st)" "keeps_objects st (declare_pointer st)"
    using rearrange_spec [OF inv, of "pointers st @ [None]"] by (simp_all add: declare_pointer_def)
  have count: "pointer_count (declare_pointer st) r = pointer_count st r" for r
    by (simp add: pointer_count_def declare_pointer_def)
  have pos: "pointer_count (declare_pointer st) r \<noteq> 0" if "pointers st ! y = Some r" for r
    unfolding count using that y pointer_count_pos nth_mem by metis
  have "shared_inv (pointer_copy st y) \<and> keeps_objects (declare_pointer st) (pointer_copy st y) \<and>
      pointers (pointer_copy st y) = (pointers st @ [None])[length (pointers st) := pointers st ! y]"
    using point_to_spec [OF decl(1), of "length (pointers st)" "pointers st ! y"] pos
    by (simp add: pointer_copy_def) (simp add: declare_pointer_def)
  then show ?thesis using keeps_objects_trans [OF decl(2), of "pointer_copy st y"] count by simp
qed

lemma pointer_assign_spec:
  assumes inv: "shared_inv st" and xy: "x < length (pointers st)" "y < length (pointers st)"
  shows "shared_inv (pointer_assign refresh st x y) \<and>
    pointers (pointer_assign refresh st x y) = (pointers st)[x := pointers st ! y] \<and>
    keeps_objects st (pointer_assign refresh st x y)"
proof (cases "x = y")
  case True
  with inv show ?thesis by (simp add: pointer_assign_def keeps_objects_def)
next
  case False
  define st1 where "st1 = drop_pointer refresh st x"
  have drop: "shared_inv st1" "pointers st1 = (pointers st)[x := None]" "keeps_objects st st1"
    using drop_pointer_spec [OF inv xy(1), of refresh] by (simp_all add: st1_def)
  have pos: "pointer_count st1 r \<noteq> 0" if "pointers st ! y = Some r" for r
  proof -
    have "pointers st1 ! y = Some r" "y < length (pointers st1)" using drop(2) False that xy by simp_all
    then show ?thesis using pointer_count_pos nth_mem by metis
  qed
  have res: "shared_inv (pointer_assign refresh st x y)" "keeps_objects st1 (pointer_assign refresh st x y)"
    "pointers (pointer_assign refresh st x y) = (pointers st1)[x := pointers st ! y]"
    using point_to_spec [OF drop(1), of x "pointers st ! y"] xy drop(2) pos False
    by (simp_all add: pointer_assign_def st1_def [symmetric])
  have "pointer_count st1 r \<noteq> 0"
    if "pointer_count st r \<noteq> 0" "pointer_count (pointer_assign refresh st x y) r \<noteq> 0" for r
  proof (cases "pointers st ! y = Some r")
    case True
    then show ?thesis by (rule pos)
  next
    case False
    with that(2) show ?thesis unfolding pointer_count_pos res(3)
      by (metis insert_iff set_update_subset_insert subsetD)
  qed
  then show ?thesis using res drop keeps_objects_trans [OF drop(3) res(2)] by simp
qed

lemma pointer_move_assign_spec:
  assumes inv: "shared_inv st" and xy: "x < length (pointers st)" "y < length (pointers st)"
  shows "shared_inv (pointer_move_assign refresh st x y) \<and> keeps_objects st (pointer_move_assign refresh st x y)"
proof (cases "x = y")
  case True
  with inv show ?thesis by (simp add: pointer_move_assign_def keeps_objects_def)
next
  case False
  define st1 where "st1 = drop_pointer refresh st x"
  define ps where "ps = (pointers st1)[x := pointers st1 ! y, y := None]"
  have drop: "shared_inv st1" "pointers st1 = (pointers st)[x := None]" "keeps_objects st st1"
    using drop_pointer_spec [OF inv xy(1), of refresh] by (simp_all add: st1_def)
  have count: "count (mset ps) (Some r) = count (mset (pointers st1)) (Some r)" for r
    using xy False drop(2) by (auto simp: ps_def pointer_count_update)
  note re = rearrange_spec [OF drop(1) this]
  have "pointer_move_assign refresh st x y = st1\<lparr>pointers := ps\<rparr>"
    using False by (simp add: pointer_move_assign_def st1_def ps_def Let_def)
  moreover have "pointer_count (st1\<lparr>pointers := ps\<rparr>) r = pointer_count st1 r" for r
    using count by (simp add: pointer_count_def)
  ultimately show ?thesis using re keeps_objects_trans [OF drop(3), of "st1\<lparr>pointers := ps\<rparr>"] by auto
qed

lemma pointer_move_spec:
  assumes inv: "shared_inv st" and y: "y < length (pointers st)"
  shows "shared_inv (pointer_move st y) \<and> keeps_objects st (pointer_move st y)"
proof -
  have "count (mset ((pointers st)[y := None] @ [pointers st ! y])) (Some r) = count (mset (pointers st)) (Some r)" for r
    using pointer_count_update_add [OF y, of None "Some r"] by (cases "pointers st ! y = Some r") simp_all
  from rearrange_spec [OF inv this] show ?thesis by (simp only: pointer_move_def)
qed

lemma shared_step_inv:
  assumes "shared_inv st" and "shared_step init refresh st st'"
  shows "shared_inv st' \<and> keeps_objects st st'"
  using assms(2)
proof cases
  case acquires
  then show ?thesis using shared_acquire_spec [OF assms(1)] by blast
next
  case (copies y)
  then show ?thesis using pointer_copy_spec [OF assms(1)] by simp
next
  case (moves_to_new y)
  then show ?thesis using pointer_move_spec [OF assms(1)] by simp
next
  case (destroys x)
  then show ?thesis using drop_pointer_spec [OF assms(1)] by (simp add: pointer_destroy_def)
next
  case (assigns x y)
  then show ?thesis using pointer_assign_spec [OF assms(1)] by simp
next
  case (move_assigns x y)
  then show ?thesis using pointer_move_assign_spec [OF assms(1)] by simp
qed

lemma new_shared_pool_inv:
  assumes "0 < n" and "n < 2 ^ 64"
  shows "shared_inv (new_shared_pool nm n v)"
  using new_pool_buffer_inv [OF assms]
  by (simp add: shared_inv_def new_shared_pool_def pointers_counted_def pointer_count_def atLeast0LessThan lessThan_def)

lemma shared_reachable_inv:
  assumes "(shared_step init refresh)\<^sup>*\<^sup>* (new_shared_pool nm n v) st" and "0 < n" and "n < 2 ^ 64"
  shows "shared_inv st \<and> shared_capacity st = n"
  using assms(1)
proof induction
  case base
  show ?case using new_shared_pool_inv [OF assms(2, 3)] new_pool_buffer_inv [OF assms(2, 3)] by (simp add: new_shared_pool_def)
next
  case (step st st')
  then show ?case using shared_step_inv by (auto simp: keeps_objects_def)
qed

section \<open>Property\<close>

text \<open>
  (C32) Counted pointers: in every state the program can reach, an object is free exactly when no
  pointer points to it, and otherwise its counter is the number of its pointers; an acquired
  object is one that nobody points to; and no step changes an object that is pointed to before
  and after it.
\<close>

theorem shared_pool_counts_pointers:
  assumes "(shared_step init refresh)\<^sup>*\<^sup>* (new_shared_pool nm n v) st" and "0 < n" and "n < 2 ^ 64"
  shows "(\<forall>r < n. (r \<in> set (shared_free st) \<longleftrightarrow> Some r \<notin> set (pointers st)) \<and>
       (Some r \<in> set (pointers st) \<longrightarrow> reference_counters st ! r = count (mset (pointers st)) (Some r))) \<and>
    (\<forall>st'. shared_acquire init st = Inr st' \<longrightarrow> (\<exists>r. pointers st' = pointers st @ [Some r] \<and> Some r \<notin> set (pointers st))) \<and>
    (\<forall>st' r. shared_step init refresh st st' \<longrightarrow> Some r \<in> set (pointers st) \<longrightarrow> Some r \<in> set (pointers st') \<longrightarrow>
       shared_objects st' ! r = shared_objects st ! r)"
proof (intro conjI allI impI)
  have inv: "shared_inv st" "shared_capacity st = n" using shared_reachable_inv [OF assms] by auto
  fix r assume "r < n"
  then have "pointers_counted st r" using shared_invD(7) [OF inv(1)] inv(2) by simp
  then show "(r \<in> set (shared_free st)) = (Some r \<notin> set (pointers st))"
    "Some r \<in> set (pointers st) \<Longrightarrow> reference_counters st ! r = count (mset (pointers st)) (Some r)"
    by (auto simp: pointers_counted_def pointer_count_def)
next
  have inv: "shared_inv st" using shared_reachable_inv [OF assms] by auto
  fix st' assume "shared_acquire init st = Inr st'"
  from shared_acquire_spec [OF inv this] show "\<exists>r. pointers st' = pointers st @ [Some r] \<and> Some r \<notin> set (pointers st)"
    using pointer_count_pos by metis
next
  have inv: "shared_inv st" using shared_reachable_inv [OF assms] by auto
  fix st' r assume "shared_step init refresh st st'" "Some r \<in> set (pointers st)" "Some r \<in> set (pointers st')"
  then show "shared_objects st' ! r = shared_objects st ! r"
    using shared_step_inv [OF inv] pointer_count_pos by (metis keeps_objects_def)
qed

theorem shared_pool_counts_pointers_witness:
  "\<exists>st. (shared_step Suc (\<lambda>_. 0))\<^sup>*\<^sup>* (new_shared_pool ''Quote'' 2 0) st \<and> pointers st = [Some 0, Some 0] \<and>
     reference_counters st ! 0 = 2 \<and> shared_objects st ! 0 = 1"
proof -
  obtain st1 where acq: "shared_acquire Suc (new_shared_pool ''Quote'' 2 0) = Inr st1"
    and st1: "pointers st1 = [Some 0]" "shared_objects st1 = [1, 0]"
    by (auto simp: shared_acquire_def new_shared_pool_def buffer_take_def new_pool_buffer_def get_current_head_def
        numeral_2_eq_2)
  have run: "(shared_step Suc (\<lambda>_. 0))\<^sup>*\<^sup>* (new_shared_pool ''Quote'' 2 0) (pointer_copy st1 0)"
  proof (rule rtranclp.rtrancl_into_rtrancl)
    show "(shared_step Suc (\<lambda>_. 0))\<^sup>*\<^sup>* (new_shared_pool ''Quote'' 2 0) st1"
      by (rule r_into_rtranclp, rule shared_step.acquires [OF acq])
    show "shared_step Suc (\<lambda>_. 0) st1 (pointer_copy st1 0)" by (rule shared_step.copies) (simp add: st1)
  qed
  have st: "pointers (pointer_copy st1 0) = [Some 0, Some 0]" "shared_objects (pointer_copy st1 0) = [1, 0]"
    using st1 by (simp_all add: pointer_copy_def declare_pointer_def point_to_def)
  have "reference_counters (pointer_copy st1 0) ! 0 = count (mset (pointers (pointer_copy st1 0))) (Some 0)"
    using conjunct1 [OF shared_pool_counts_pointers [OF run], rule_format, of 0] st(1) by simp
  with run st show ?thesis by (intro exI [of _ "pointer_copy st1 0"]) simp
qed

end
