(* ===== verification/Binance_Order_Book.thy ===== *)
theory Binance_Order_Book
  imports Json_Tree Order_Book_Manager
begin

text \<open>
  The synchronisation of a local book with Binance
  (\<^verbatim>\<open>server_app/gateways/binance/binance_market_data/order_book/binance_order_book.cpp\<close>): the
  updates of a WebSocket stream are buffered until a snapshot has been fetched by HTTP, the
  update that bridges the snapshot and those that follow it are applied, and a broken chain
  of update numbers starts over. Callbacks and coroutines run on one event loop: an event is
  handled to its end, a coroutine that is started is a task in the loop's queue, and the time
  a coroutine waits for its response is the time between two events. What is sent to the order
  book manager is recorded in \<open>published\<close>.

  Update numbers are \<^typ>\<open>nat\<close>; prices and quantities arrive as texts.
\<close>

section \<open>Messages\<close>

record depth_update =
  upd_U :: nat
  upd_u :: nat
  upd_pu :: nat
  upd_asks :: "(string \<times> string) list"
  upd_bids :: "(string \<times> string) list"

record depth_snapshot =
  lastUpdateId :: nat
  snap_asks :: "(string \<times> string) list"
  snap_bids :: "(string \<times> string) list"

text \<open>\<^verbatim>\<open>Json::for_each\<close> visits the values of an object or of an array.\<close>

fun json_items :: "json \<Rightarrow> json list" where
  "json_items (Object a m xs) = (if a then xs else map snd m)"
| "json_items _ = []"

definition field :: "json \<Rightarrow> string \<Rightarrow> json" where
  "field j k = snd (index_key j k)"

definition json_to_uint64 :: "json \<Rightarrow> nat" where
  "json_to_uint64 j = nat (json_to_int64 j mod 2 ^ 64)"

text \<open>The texts \<^verbatim>\<open>(std::string)level[0]\<close> and \<^verbatim>\<open>(std::string)level[1]\<close>.\<close>

definition level_text :: "(real \<Rightarrow> string) \<Rightarrow> json \<Rightarrow> cpp_error + string \<times> string" where
  "level_text show_double j =
     sum_bind (json_to_string show_double (snd (index_at j 0))) (\<lambda>p.
     sum_bind (json_to_string show_double (snd (index_at j 1))) (\<lambda>q. Inr (p, q)))"

fun level_texts :: "(real \<Rightarrow> string) \<Rightarrow> json list \<Rightarrow> cpp_error + (string \<times> string) list" where
  "level_texts show_double [] = Inr []"
| "level_texts show_double (l # ls) =
     sum_bind (level_text show_double l) (\<lambda>t. sum_bind (level_texts show_double ls) (\<lambda>ts. Inr (t # ts)))"

definition update_of_json :: "(real \<Rightarrow> string) \<Rightarrow> json \<Rightarrow> cpp_error + depth_update" where
  "update_of_json show_double j =
     sum_bind (level_texts show_double (json_items (field j ''a''))) (\<lambda>as.
     sum_bind (level_texts show_double (json_items (field j ''b''))) (\<lambda>bs.
       Inr \<lparr>upd_U = json_to_uint64 (field j ''U''), upd_u = json_to_uint64 (field j ''u''),
            upd_pu = json_to_uint64 (field j ''pu''), upd_asks = as, upd_bids = bs\<rparr>))"

definition snapshot_of_json :: "(real \<Rightarrow> string) \<Rightarrow> json \<Rightarrow> cpp_error + depth_snapshot" where
  "snapshot_of_json show_double j =
     sum_bind (level_texts show_double (json_items (field j ''asks''))) (\<lambda>as.
     sum_bind (level_texts show_double (json_items (field j ''bids''))) (\<lambda>bs.
       Inr \<lparr>lastUpdateId = json_to_uint64 (field j ''lastUpdateId''), snap_asks = as, snap_bids = bs\<rparr>))"

section \<open>State and operations\<close>

datatype SyncState = Sync_None | Buffering | Synced

datatype loop_task = Send_request_get_snapshot | Re_fetch_order_book

datatype publication = Publish_snapshot OrderBookSnapShot | Publish_updates "OrderBookUpdate list"

record BinanceOrderBook =
  bin_instrument :: "nat option"
  bin_trace_id :: nat
  m_sync_state :: SyncState
  m_buffered_updates :: "depth_update list"
  m_has_received_first_update :: bool
  m_package_last_update_id :: nat
  m_snapshot_last_update_id :: nat
  loop_tasks :: "loop_task list"
  awaited_responses :: nat
  published :: "publication list"

definition new_binance_book :: "nat option \<Rightarrow> BinanceOrderBook" where
  "new_binance_book instr =
     \<lparr>bin_instrument = instr, bin_trace_id = 0, m_sync_state = Sync_None, m_buffered_updates = [],
      m_has_received_first_update = False, m_package_last_update_id = 0, m_snapshot_last_update_id = 0,
      loop_tasks = [], awaited_responses = 0, published = []\<rparr>"

definition start_task :: "loop_task \<Rightarrow> BinanceOrderBook \<Rightarrow> BinanceOrderBook" where
  "start_task t b = b\<lparr>loop_tasks := loop_tasks b @ [t]\<rparr>"

definition publish :: "publication \<Rightarrow> BinanceOrderBook \<Rightarrow> BinanceOrderBook" where
  "publish x b = b\<lparr>published := published b @ [x]\<rparr>"

text \<open>The levels of a message as numbers.\<close>

fun read_levels :: "(string \<times> string) list \<Rightarrow> cpp_error + (real \<times> real) list" where
  "read_levels [] = Inr []"
| "read_levels ((p, q) # ls) =
     sum_bind (stod p) (\<lambda>price. sum_bind (stod q) (\<lambda>quantity.
     sum_bind (read_levels ls) (\<lambda>rest. Inr ((price, quantity) # rest))))"

definition level_update :: "BinanceOrderBook \<Rightarrow> OrderBookSideType \<Rightarrow> real \<times> real \<Rightarrow> OrderBookUpdate" where
  "level_update b side l =
     \<lparr>up_instrument = bin_instrument b, up_trace_id = bin_trace_id b, up_side = side,
      up_type = (if snd l = 0 then Remove else Update), up_price = fst l, up_quantity = snd l\<rparr>"

definition apply_depth_update :: "BinanceOrderBook \<Rightarrow> depth_update \<Rightarrow> cpp_error + BinanceOrderBook" where
  "apply_depth_update b m =
     sum_bind (read_levels (upd_asks m)) (\<lambda>as. sum_bind (read_levels (upd_bids m)) (\<lambda>bs.
       Inr (publish (Publish_updates (map (level_update b Ask) as @ map (level_update b Bid) bs)) b)))"


fun process_buffered :: "bool \<Rightarrow> BinanceOrderBook \<Rightarrow> depth_update list \<Rightarrow> cpp_error + bool \<times> BinanceOrderBook" where
  "process_buffered found b [] = Inr (True, b\<lparr>m_buffered_updates := []\<rparr>)"
| "process_buffered found b (m # ms) =
     (if upd_u m < m_snapshot_last_update_id b then process_buffered found b ms
      else if \<not> found
           then if \<not> (upd_U m \<le> m_snapshot_last_update_id b \<and> m_snapshot_last_update_id b \<le> upd_u m)
                then Inr (False, b\<lparr>m_buffered_updates := ms\<rparr>)
                else sum_bind (apply_depth_update b m) (\<lambda>b1.
                       process_buffered True (b1\<lparr>m_package_last_update_id := upd_u m\<rparr>) ms)
      else if upd_pu m \<noteq> m_package_last_update_id b then Inr (False, b\<lparr>m_buffered_updates := ms\<rparr>)
      else sum_bind (apply_depth_update b m) (\<lambda>b1.
             process_buffered True (b1\<lparr>m_package_last_update_id := upd_u m\<rparr>) ms))"

definition process_buffered_updates_after_snapshot :: "BinanceOrderBook \<Rightarrow> cpp_error + bool \<times> BinanceOrderBook" where
  "process_buffered_updates_after_snapshot b = process_buffered False b (m_buffered_updates b)"





text \<open>The response of the snapshot request; \<open>acquired\<close> is a snapshot object from the pool.\<close>

definition fill_snapshot :: "depth_snapshot \<Rightarrow> OrderBookSnapShot \<Rightarrow> cpp_error + OrderBookSnapShot" where
  "fill_snapshot r sn =
     sum_bind (read_levels (snap_asks r)) (\<lambda>as. sum_bind (sum_fold (\<lambda>s (p, q). add_ask s p q) sn as) (\<lambda>sn1.
     sum_bind (read_levels (snap_bids r)) (\<lambda>bs. sum_fold (\<lambda>s (p, q). add_bid s p q) sn1 bs)))"

definition on_snapshot :: "BinanceOrderBook \<Rightarrow> OrderBookSnapShot \<Rightarrow> depth_snapshot \<Rightarrow> cpp_error + BinanceOrderBook" where
  "on_snapshot b acquired r =
     (let b1 = b\<lparr>m_snapshot_last_update_id := lastUpdateId r, awaited_responses := awaited_responses b - 1\<rparr>
      in sum_bind (fill_snapshot r (update_instrument acquired (bin_instrument b))) (\<lambda>sn.
         sum_bind (process_buffered_updates_after_snapshot (publish (Publish_snapshot sn) b1)) (\<lambda>(ok, b2).
           Inr (if ok then b2\<lparr>m_sync_state := Synced\<rparr> else start_task Re_fetch_order_book b2))))"




section \<open>The book a client sees\<close>

text \<open>
  What the order book manager makes of the publications, as quantities by side and price: a
  snapshot replaces the book, an update sets a level and a removal clears it.
\<close>

type_synonym book = "OrderBookSideType \<times> real \<Rightarrow> real"

fun level_of :: "OrderBookLevel list \<Rightarrow> real \<Rightarrow> real" where
  "level_of [] p = 0"
| "level_of (l # ls) p = (if lv_price l = p then lv_quantity l else level_of ls p)"

definition snapshot_book :: "OrderBookSnapShot \<Rightarrow> book" where
  "snapshot_book sn = (\<lambda>(side, p). level_of (if side = Bid then shown_bids sn else shown_asks sn) p)"

definition set_level_of :: "OrderBookUpdate \<Rightarrow> book \<Rightarrow> book" where
  "set_level_of u L = L((up_side u, up_price u) := (if up_type u = Remove then 0 else up_quantity u))"

fun replay :: "publication \<Rightarrow> book \<Rightarrow> book" where
  "replay (Publish_snapshot sn) L = snapshot_book sn"
| "replay (Publish_updates us) L = fold set_level_of us L"

definition book_of :: "BinanceOrderBook \<Rightarrow> book" where
  "book_of b = fold replay (published b) (\<lambda>_. 0)"

text \<open>
  The exchange's book after update number \<open>n\<close> is \<open>exch n\<close>. An update message lists every level
  that differs somewhere between its predecessor \<^verbatim>\<open>pu\<close> and its last number \<^verbatim>\<open>u\<close>, with the
  quantity at \<^verbatim>\<open>u\<close>; a snapshot lists the book at its number, on at most 200 levels a side.
\<close>

definition listed :: "depth_update \<Rightarrow> (OrderBookSideType \<times> real \<times> real) list \<Rightarrow> bool" where
  "listed m ls \<longleftrightarrow>
     (\<exists>as bs. read_levels (upd_asks m) = Inr as \<and> read_levels (upd_bids m) = Inr bs \<and>
        ls = map (\<lambda>l. (Ask, l)) as @ map (\<lambda>l. (Bid, l)) bs)"

definition true_update :: "(nat \<Rightarrow> book) \<Rightarrow> depth_update \<Rightarrow> bool" where
  "true_update exch m \<longleftrightarrow>
     upd_pu m < upd_U m \<and> upd_U m \<le> upd_u m \<and>
     (\<exists>ls. listed m ls \<and> (\<forall>(s, p, q) \<in> set ls. q = exch (upd_u m) (s, p)) \<and>
        (\<forall>s p n. upd_pu m \<le> n \<longrightarrow> n \<le> upd_u m \<longrightarrow> exch n (s, p) \<noteq> exch (upd_u m) (s, p) \<longrightarrow>
           (\<exists>q. (s, p, q) \<in> set ls)))"

definition true_snapshot :: "(nat \<Rightarrow> book) \<Rightarrow> depth_snapshot \<Rightarrow> bool" where
  "true_snapshot exch r \<longleftrightarrow>
     (\<exists>as bs. read_levels (snap_asks r) = Inr as \<and> read_levels (snap_bids r) = Inr bs \<and>
        length as \<le> 200 \<and> length bs \<le> 200 \<and>
        (\<lambda>(side, p). level_of (map (\<lambda>(p, q). level p q) (if side = Bid then bs else as)) p)
          = exch (lastUpdateId r))"



section \<open>Updates and snapshots on the book\<close>

lemma book_of_publish [simp]: "book_of (publish x b) = replay x (book_of b)"
  by (simp add: book_of_def publish_def)





lemma fill_side:
  assumes "snapshot_inv sn" and "ss_asks_size sn + length ls \<le> 200" and "200 \<le> ss_max_levels sn"
  shows "\<exists>sn'. sum_fold (\<lambda>s (p, q). add_ask s p q) sn ls = Inr sn' \<and> snapshot_inv sn' \<and>
    shown_asks sn' = shown_asks sn @ map (\<lambda>(p, q). level p q) ls \<and> shown_bids sn' = shown_bids sn \<and>
    ss_bids_size sn' = ss_bids_size sn \<and> ss_max_levels sn' = ss_max_levels sn"
  using assms
proof (induction ls arbitrary: sn)
  case (Cons l ls)
  obtain p q where l: "l = (p, q)" by (cases l)
  obtain sn1 where "add_ask sn p q = Inr sn1" "snapshot_inv sn1" "shown_asks sn1 = shown_asks sn @ [level p q]"
    "ss_asks_size sn1 = Suc (ss_asks_size sn)" "ss_bids sn1 = ss_bids sn" "ss_bids_size sn1 = ss_bids_size sn"
    "ss_max_levels sn1 = ss_max_levels sn"
    using add_ask_ok [OF Cons.prems(1), of p q] Cons.prems(2, 3) by force
  with Cons.IH [of sn1] Cons.prems(2, 3) show ?case by (auto simp: l shown_bids_def)
qed simp

lemma fill_bids:
  assumes "snapshot_inv sn" and "ss_bids_size sn + length ls \<le> 200" and "200 \<le> ss_max_levels sn"
  shows "\<exists>sn'. sum_fold (\<lambda>s (p, q). add_bid s p q) sn ls = Inr sn' \<and>
    shown_bids sn' = shown_bids sn @ map (\<lambda>(p, q). level p q) ls \<and> shown_asks sn' = shown_asks sn"
  using assms
proof (induction ls arbitrary: sn)
  case (Cons l ls)
  obtain p q where l: "l = (p, q)" by (cases l)
  obtain sn1 where "add_bid sn p q = Inr sn1" "snapshot_inv sn1" "shown_bids sn1 = shown_bids sn @ [level p q]"
    "ss_bids_size sn1 = Suc (ss_bids_size sn)" "ss_asks sn1 = ss_asks sn" "ss_asks_size sn1 = ss_asks_size sn"
    "ss_max_levels sn1 = ss_max_levels sn"
    using add_bid_ok [OF Cons.prems(1), of p q] Cons.prems(2, 3) by force
  with Cons.IH [of sn1] Cons.prems(2, 3) show ?case by (auto simp: l shown_asks_def)
qed simp

lemma fill_snapshot_book:
  assumes "true_snapshot exch r" and sn: "snapshot_inv sn" "ss_bids_size sn = 0" "ss_asks_size sn = 0" "200 \<le> ss_max_levels sn"
  shows "\<exists>sn'. fill_snapshot r sn = Inr sn' \<and> snapshot_book sn' = exch (lastUpdateId r)"
proof -
  obtain as bs where lv: "read_levels (snap_asks r) = Inr as" "read_levels (snap_bids r) = Inr bs"
    "length as \<le> 200" "length bs \<le> 200"
    and book: "(\<lambda>(side, p). level_of (map (\<lambda>(p, q). level p q) (if side = Bid then bs else as)) p) = exch (lastUpdateId r)"
    using assms(1) by (auto simp: true_snapshot_def)
  obtain sn1 where sn1: "sum_fold (\<lambda>s (p, q). add_ask s p q) sn as = Inr sn1" "snapshot_inv sn1"
    "shown_asks sn1 = map (\<lambda>(p, q). level p q) as" "shown_bids sn1 = []" "ss_bids_size sn1 = 0" "200 \<le> ss_max_levels sn1"
    using fill_side [OF sn(1), of as] sn lv(3) by (auto simp: shown_asks_def shown_bids_def)
  obtain sn2 where sn2: "sum_fold (\<lambda>s (p, q). add_bid s p q) sn1 bs = Inr sn2"
    "shown_bids sn2 = map (\<lambda>(p, q). level p q) bs" "shown_asks sn2 = map (\<lambda>(p, q). level p q) as"
    using fill_bids [OF sn1(2), of bs] sn1 lv(4) by auto
  have "snapshot_book sn2 = exch (lastUpdateId r)" unfolding book [symmetric] snapshot_book_def sn2 by (auto simp: fun_eq_iff)
  then show ?thesis using lv sn1(1) sn2(1) by (simp add: fill_snapshot_def)
qed

section \<open>The book follows the exchange\<close>










section \<open>An example feed\<close>

definition demo_exchange :: "nat \<Rightarrow> book" where
  "demo_exchange n = (\<lambda>k. if k = (Bid, 100) then (if n \<le> 2 then 5 else 7) else 0)"

definition demo_first :: depth_update where
  "demo_first = \<lparr>upd_U = 1, upd_u = 2, upd_pu = 0, upd_asks = [], upd_bids = [(''100'', ''5'')]\<rparr>"

definition demo_next :: depth_update where
  "demo_next = \<lparr>upd_U = 3, upd_u = 4, upd_pu = 2, upd_asks = [], upd_bids = [(''100'', ''7'')]\<rparr>"

definition demo_response :: depth_snapshot where
  "demo_response = \<lparr>lastUpdateId = 2, snap_asks = [], snap_bids = [(''100'', ''5'')]\<rparr>"

lemma demo_numbers: "stod ''100'' = Inr 100" "stod ''5'' = Inr 5" "stod ''7'' = Inr 7"
  by (simp_all add: stod_def c_str_def cpp_isspace_def from_chars_double_def cpp_isdigit_def digits_value_def
      digit_value_def exponent_text_def)

lemma demo_truth:
  "true_update demo_exchange demo_first" "true_update demo_exchange demo_next" "true_snapshot demo_exchange demo_response"
proof -
  have "listed demo_first [(Bid, 100, 5)]" "listed demo_next [(Bid, 100, 7)]"
    by (simp_all add: listed_def demo_first_def demo_next_def demo_numbers)
  then have ls: "\<exists>ls. listed demo_first ls \<and> ls = [(Bid, 100, 5)]" "\<exists>ls. listed demo_next ls \<and> ls = [(Bid, 100, 7)]"
    by simp_all
  show "true_update demo_exchange demo_first" unfolding true_update_def
    by (intro conjI ex_forward [OF ls(1)]) (auto simp: demo_first_def demo_exchange_def split: if_splits)
  show "true_update demo_exchange demo_next" unfolding true_update_def
    by (intro conjI ex_forward [OF ls(2)]) (auto simp: demo_next_def demo_exchange_def split: if_splits)
  show "true_snapshot demo_exchange demo_response"
    by (auto simp: true_snapshot_def demo_response_def demo_numbers demo_exchange_def fun_eq_iff)
qed

section \<open>Properties\<close>



text \<open>
  (C39) A snapshot that arrives late, for a request from before a reconnection, is applied to a book
  that is already synchronised: the book goes back to the snapshot's number while the number of
  the last applied update stays, so that the updates in between are never applied again.
\<close>

theorem late_snapshot_rewinds_book:
  assumes "true_snapshot exch r" and "m_buffered_updates b = []"
    and "snapshot_inv acquired" and "ss_bids_size acquired = 0" and "ss_asks_size acquired = 0"
    and "200 \<le> ss_max_levels acquired"
  shows "\<exists>b'. on_snapshot b acquired r = Inr b' \<and> m_sync_state b' = Synced \<and>
    book_of b' = exch (lastUpdateId r) \<and> m_package_last_update_id b' = m_package_last_update_id b"
proof -
  obtain sn where "fill_snapshot r (update_instrument acquired (bin_instrument b)) = Inr sn"
    "snapshot_book sn = exch (lastUpdateId r)"
    using fill_snapshot_book [OF assms(1), of "update_instrument acquired (bin_instrument b)"] assms(3-6)
    by (auto simp: update_instrument_def snapshot_inv_def)
  then show ?thesis using assms(2)
    by (auto simp: on_snapshot_def process_buffered_updates_after_snapshot_def publish_def book_of_def Let_def)
qed

theorem late_snapshot_rewinds_book_witness:
  "\<exists>b'. on_snapshot ((new_binance_book (Some 1))\<lparr>m_sync_state := Synced, m_package_last_update_id := 4\<rparr>)
       new_snapshot demo_response = Inr b' \<and> m_package_last_update_id b' = 4 \<and>
     book_of b' (Bid, 100) = 5 \<and> demo_exchange 4 (Bid, 100) = 7"
  using late_snapshot_rewinds_book [OF demo_truth(3),
      of "(new_binance_book (Some 1))\<lparr>m_sync_state := Synced, m_package_last_update_id := 4\<rparr>" new_snapshot]
  by (auto simp: new_binance_book_def new_snapshot_def snapshot_inv_def demo_response_def demo_exchange_def)

end
