(* ===== verification/Instruments.thy ===== *)
theory Instruments
  imports Cpp_Strings "HOL-Library.AList"
begin

text \<open>
  Instruments (\<^verbatim>\<open>src/server_app/instrument\<close>): their data, the rounding of prices and quantities to
  the digits an exchange accepts, and the tables in which instruments are found by symbol. An
  instrument lives in the cache of its exchange under its symbol and is never moved, so a pointer
  to it is the exchange with that symbol. An \<^verbatim>\<open>unordered_map\<close> is an association list with distinct
  keys. What the database holds when a cache is first used is an argument.
\<close>

section \<open>Instrument\<close>

datatype ExchangeId = NONE_EXCHANGE | BINANCE | BINANCE_TESTNET | COINBASE

datatype InstrumentType = SPOT | PERPETUAL

record Instrument =
  exchange_id :: ExchangeId
  instrument_type :: InstrumentType
  symbol :: string
  exchange_symbol :: string
  lot_size :: nat
  tick_size :: nat
  price_precision :: real

fun divide_by_ten :: "nat \<Rightarrow> real \<Rightarrow> real" where
  "divide_by_ten 0 x = x"
| "divide_by_ten (Suc n) x = divide_by_ten n (x / 10)"

definition new_instrument :: "ExchangeId \<Rightarrow> InstrumentType \<Rightarrow> string \<Rightarrow> string \<Rightarrow> nat \<Rightarrow> nat \<Rightarrow> real \<Rightarrow> Instrument" where
  "new_instrument e ty sy esy lot tick prec =
     (let i = \<lparr>exchange_id = e, instrument_type = ty, symbol = sy, exchange_symbol = esy, lot_size = lot,
               tick_size = tick, price_precision = prec\<rparr>
      in if price_precision i = 0 then i\<lparr>price_precision := divide_by_ten tick 1\<rparr> else i)"

definition round_string_number :: "string \<Rightarrow> nat \<Rightarrow> cpp_error + string" where
  "round_string_number str_number precision =
     (case find_first_of ''.'' str_number of
        Some point_pos \<Rightarrow> substr str_number 0 (point_pos + (if precision = 0 then 0 else precision + 1))
      | None \<Rightarrow> Inr str_number)"

definition get_lower_case_exchange_symbol :: "Instrument \<Rightarrow> string" where
  "get_lower_case_exchange_symbol i = map cpp_tolower (exchange_symbol i)"

definition get_round_up_quantity :: "Instrument \<Rightarrow> real \<Rightarrow> cpp_error + real" where
  "get_round_up_quantity i quantity =
     sum_bind (round_string_number (double_to_string quantity) (lot_size i)) stod"

definition get_round_up_price :: "Instrument \<Rightarrow> real \<Rightarrow> cpp_error + real" where
  "get_round_up_price i price =
     sum_bind (round_string_number (double_to_string price) (tick_size i)) stod"

section \<open>Finding instruments\<close>

text \<open>
  A registry holds the static variables: the caches, \<open>None\<close> until first used, the tables of pointers
  and the subscribed instruments. \<open>db\<close> is what \<^verbatim>\<open>SavableObject\<close> loads from the database.
\<close>

datatype StoreType = BY_SYMBOL | BY_EXCHANGE_SYMBOL

type_synonym instrument_ptr = "ExchangeId \<times> string"
type_synonym instrument_db = "ExchangeId \<Rightarrow> (string \<times> Instrument) list"

record Registry =
  cache_instruments :: "ExchangeId \<Rightarrow> (string \<times> Instrument) list option"
  instrument_list :: "ExchangeId \<Rightarrow> InstrumentType \<Rightarrow> StoreType \<Rightarrow> (string \<times> instrument_ptr) list"
  subscribed_instruments :: "(string \<times> Instrument) list"

definition new_registry :: "(string \<times> Instrument) list \<Rightarrow> Registry" where
  "new_registry subs = \<lparr>cache_instruments = (\<lambda>_. None), instrument_list = (\<lambda>_ _ _. []), subscribed_instruments = subs\<rparr>"

definition deref :: "Registry \<Rightarrow> instrument_ptr \<Rightarrow> Instrument option" where
  "deref r p = (case cache_instruments r (fst p) of None \<Rightarrow> None | Some c \<Rightarrow> map_of c (snd p))"

definition emplace :: "'k \<Rightarrow> 'v \<Rightarrow> ('k \<times> 'v) list \<Rightarrow> ('k \<times> 'v) list" where
  "emplace k v m = (if map_of m k = None then m @ [(k, v)] else m)"

fun exchange_name :: "ExchangeId \<Rightarrow> string" where
  "exchange_name NONE_EXCHANGE = ''NONE_EXCHANGE''"
| "exchange_name BINANCE = ''BINANCE''"
| "exchange_name BINANCE_TESTNET = ''BINANCE_TESTNET''"
| "exchange_name COINBASE = ''COINBASE''"

definition get_cache_instruments :: "instrument_db \<Rightarrow> Registry \<Rightarrow> ExchangeId \<Rightarrow> (string \<times> Instrument) list \<times> Registry" where
  "get_cache_instruments db r e =
     (case cache_instruments r e of
        None \<Rightarrow> (db e, r\<lparr>cache_instruments := (cache_instruments r)(e := Some (db e))\<rparr>)
      | Some c \<Rightarrow> (c, r))"

definition clear_instrument_by_exchange :: "Registry \<Rightarrow> ExchangeId \<Rightarrow> Registry" where
  "clear_instrument_by_exchange r e = r\<lparr>instrument_list := (instrument_list r)(e := (\<lambda>_ _. []))\<rparr>"

definition add_instrument_to_list :: "Registry \<Rightarrow> ExchangeId \<Rightarrow> instrument_ptr \<Rightarrow> Instrument \<Rightarrow> Registry" where
  "add_instrument_to_list r e p i =
     (let lists = instrument_list r e; ty = instrument_type i
      in r\<lparr>instrument_list := (instrument_list r)(e := lists(ty := (lists ty)
             (BY_SYMBOL := emplace (symbol i) p (lists ty BY_SYMBOL),
              BY_EXCHANGE_SYMBOL := emplace (exchange_symbol i) p (lists ty BY_EXCHANGE_SYMBOL))))\<rparr>)"

definition load_cache_instruments :: "instrument_db \<Rightarrow> Registry \<Rightarrow> ExchangeId \<Rightarrow> Registry" where
  "load_cache_instruments db r e =
     (case get_cache_instruments db r e of (c, r) \<Rightarrow>
        foldl (\<lambda>r (k, i). add_instrument_to_list r e (e, k) i) (clear_instrument_by_exchange r e) c)"

definition add_instrument_to_cache :: "instrument_db \<Rightarrow> Registry \<Rightarrow> ExchangeId \<Rightarrow> Instrument \<Rightarrow> cpp_error + Registry" where
  "add_instrument_to_cache db r e i =
     (case get_cache_instruments db r e of (c, r) \<Rightarrow>
        if map_of c (symbol i) = None
        then Inr (add_instrument_to_list (r\<lparr>cache_instruments := (cache_instruments r)(e := Some (emplace (symbol i) i c))\<rparr>)
                    e (e, symbol i) i)
        else Inl (Runtime_error (''Cannot add instrument to cache: ['' @ symbol i @ '']'')))"

definition type_of_symbol :: "string \<Rightarrow> InstrumentType" where
  "type_of_symbol s = (if find_sub ''-PERPETUAL'' s \<noteq> None then PERPETUAL else SPOT)"

definition get_instrument_by_symbol :: "Registry \<Rightarrow> ExchangeId \<Rightarrow> string \<Rightarrow> cpp_error + instrument_ptr" where
  "get_instrument_by_symbol r e s =
     (case map_of (instrument_list r e (type_of_symbol s) BY_SYMBOL) s of
        Some p \<Rightarrow> Inr p
      | None \<Rightarrow> Inl (Runtime_error (''Cannot find instrument with symbol: ['' @ s @ '']'')))"

definition get_instrument_by_exchange_symbol ::
  "Registry \<Rightarrow> ExchangeId \<Rightarrow> InstrumentType \<Rightarrow> string \<Rightarrow> cpp_error + instrument_ptr" where
  "get_instrument_by_exchange_symbol r e ty s =
     (case map_of (instrument_list r e ty BY_EXCHANGE_SYMBOL) s of
        Some p \<Rightarrow> Inr p
      | None \<Rightarrow> Inl (Runtime_error (''Cannot find instrument with exchange symbol: ['' @ s @ '']'')))"

definition get_subscribed_instruments :: "Registry \<Rightarrow> cpp_error + instrument_ptr list" where
  "get_subscribed_instruments r =
     sum_fold (\<lambda>res (_, i). sum_bind (get_instrument_by_symbol r (exchange_id i) (symbol i)) (\<lambda>p. Inr (res @ [p])))
       [] (subscribed_instruments r)"

definition is_subscription :: "ExchangeId \<Rightarrow> string \<Rightarrow> string \<times> Instrument \<Rightarrow> bool" where
  "is_subscription e s = (\<lambda>(_, i). symbol i = s \<and> exchange_id i = e)"

definition add_subscribed_instrument :: "Registry \<Rightarrow> ExchangeId \<Rightarrow> string \<Rightarrow> cpp_error + bool \<times> Registry" where
  "add_subscribed_instrument r e s =
     (if list_ex (is_subscription e s) (subscribed_instruments r) then Inr (False, r)
      else
        case get_instrument_by_symbol r e s of
          Inl _ \<Rightarrow> Inr (False, r)
        | Inr p \<Rightarrow>
            case deref r p of
              None \<Rightarrow> Inl UB_null_pointer
            | Some i \<Rightarrow>
                let key = exchange_name (exchange_id i) @ ''-'' @ s
                in Inr (True, r\<lparr>subscribed_instruments := emplace key i (subscribed_instruments r)\<rparr>))"

fun remove_first :: "('a \<Rightarrow> bool) \<Rightarrow> 'a list \<Rightarrow> 'a list" where
  "remove_first P [] = []"
| "remove_first P (x # xs) = (if P x then xs else x # remove_first P xs)"

definition remove_subscribed_instrument :: "Registry \<Rightarrow> ExchangeId \<Rightarrow> string \<Rightarrow> bool \<times> Registry" where
  "remove_subscribed_instrument r e s =
     (if list_ex (is_subscription e s) (subscribed_instruments r)
      then (True, r\<lparr>subscribed_instruments := remove_first (is_subscription e s) (subscribed_instruments r)\<rparr>)
      else (False, r))"

section \<open>Rounding\<close>

lemma divide_by_ten_power: "divide_by_ten n x = x / 10 ^ n"
  by (induction n arbitrary: x) simp_all

text \<open>The text of a number, cut after \<open>t\<close> digits: what is left is the amount rounded towards zero.\<close>

definition cut_micros :: "nat \<Rightarrow> real \<Rightarrow> nat" where
  "cut_micros t x = scaled 6 x div 10 ^ (6 - min t 6)"

lemma round_string_number_double:
  "round_string_number (double_to_string x) t = Inr ((if x < 0 then ''-'' else []) @
     size_to_string (scaled 6 x div 10 ^ 6) @
     (if t = 0 then [] else CHR ''.'' # fixed_digits (min t 6) (scaled 6 x mod 10 ^ 6 div 10 ^ (6 - min t 6))))"
proof -
  let ?h = "(if x < 0 then ''-'' else []) @ size_to_string (scaled 6 x div 10 ^ 6)"
  let ?f = "fixed_digits 6 (scaled 6 x mod 10 ^ 6)"
  have "list_all (\<lambda>c. c \<notin> set ''.'') ?h"
    using size_to_string_digits [of "scaled 6 x div 10 ^ 6"]
    by (auto simp: list_all_iff dest: digit_not_special)
  then have "find_first_of ''.'' (?h @ CHR ''.'' # ?f) = Some (length ?h)"
    by (rule find_first_of_skip) simp
  moreover have "double_to_string x = ?h @ CHR ''.'' # ?f" by (simp add: double_to_string_def fixed_to_string_def)
  moreover have "take t ?f = fixed_digits (min t 6) (scaled 6 x mod 10 ^ 6 div 10 ^ (6 - min t 6))"
    by (cases "t \<le> 6") (simp_all add: take_fixed_digits min_def)
  ultimately show ?thesis
    by (simp add: round_string_number_def substr_def)
qed

lemma cut_digits:
  fixes n :: nat
  assumes "t \<le> 6"
  shows "n div 10 ^ 6 * 10 ^ t + n mod 10 ^ 6 div 10 ^ (6 - t) = n div 10 ^ (6 - t)"
proof -
  have "(10::nat) ^ 6 = 10 ^ t * 10 ^ (6 - t)" using assms by (simp flip: power_add)
  then have "n div 10 ^ (6 - t) = (n div 10 ^ 6 * 10 ^ t * 10 ^ (6 - t) + n mod 10 ^ 6) div 10 ^ (6 - t)"
    by (metis div_mult_mod_eq mult.assoc)
  also have "\<dots> = n div 10 ^ 6 * 10 ^ t + n mod 10 ^ 6 div 10 ^ (6 - t)"
    by (rule div_mult_self3) simp
  finally show ?thesis by simp
qed

lemma round_string_number_value:
  "sum_bind (round_string_number (double_to_string x) t) stod
    = Inr ((if x < 0 then -1 else 1) * (real (cut_micros t x) / 10 ^ min t 6))"
proof -
  let ?ds = "size_to_string (scaled 6 x div 10 ^ 6)"
  let ?fs = "fixed_digits (min t 6) (scaled 6 x mod 10 ^ 6 div 10 ^ (6 - min t 6))"
  let ?s = "(if x < 0 then ''-'' else []) @ ?ds @ (if t = 0 then [] else CHR ''.'' # ?fs)"
  have ds: "list_all cpp_isdigit ?ds" by (rule size_to_string_digits)
  have fs: "list_all cpp_isdigit ?fs" by (rule fixed_digits_digits)
  obtain c cs where s: "?s = c # cs" and c: "c = CHR ''-'' \<or> cpp_isdigit c"
    using ds by (cases ?ds; cases "x < 0") auto
  have nul: "list_all (\<lambda>c. c \<noteq> CHR 0x00) ?s"
    using list_all_not_NUL [OF ds] list_all_not_NUL [OF fs] by simp
  have sp: "\<not> cpp_isspace c" "c \<noteq> CHR ''+''"
    using c by (auto dest: digit_not_special) (simp add: cpp_isspace_def)
  have stod: "stod ?s = (case from_chars_double ?s of None \<Rightarrow> Inl (Invalid_argument ''stod'') | Some x \<Rightarrow> Inr x)"
    by (rule stod_is_from_chars [OF nul s sp])
  have "scaled 6 x mod 10 ^ 6 div 10 ^ (6 - min t 6) < 10 ^ min t 6"
    by (rule less_mult_imp_div_less) (simp flip: power_add)
  then have v: "digits_value (?ds @ ?fs) = cut_micros t x"
    using cut_digits [of "min t 6" "scaled 6 x"] by (simp add: digits_value_fixed cut_micros_def)
  note from_chars_decimal [OF ds size_to_string_nonempty fs]
  then have "from_chars_double ?s = Some ((if x < 0 then -1 else 1) * (real (cut_micros t x) / 10 ^ min t 6))"
    using v by (cases "t = 0") (simp_all add: cut_micros_def)
  with stod show ?thesis by (simp add: round_string_number_double)
qed

text \<open>
  The result \<open>r\<close> of rounding \<open>x\<close> to \<open>t\<close> decimals: a multiple of the last allowed digit with the sign of
  \<open>x\<close>, not further from zero than \<open>x\<close> and less than one unit nearer to it, up to the half
  millionth that the text of \<open>x\<close> leaves out.
\<close>

definition truncated :: "nat \<Rightarrow> real \<Rightarrow> real \<Rightarrow> bool" where
  "truncated t x r \<longleftrightarrow> (\<exists>k::nat. \<bar>r\<bar> = real k / 10 ^ min t 6) \<and> 0 \<le> r * x \<and>
     \<bar>r\<bar> \<le> \<bar>x\<bar> + 1 / (2 * 10 ^ 6) \<and> \<bar>x\<bar> - 1 / (2 * 10 ^ 6) < \<bar>r\<bar> + 1 / 10 ^ min t 6"

lemma cut_micros_bounds:
  "real (cut_micros t x) / 10 ^ min t 6 \<le> real (scaled 6 x) / 10 ^ 6"
  "real (scaled 6 x) / 10 ^ 6 < (real (cut_micros t x) + 1) / 10 ^ min t 6"
proof -
  define d where "d = (10::nat) ^ (6 - min t 6)"
  have d0: "0 < d" by (simp add: d_def)
  have c: "cut_micros t x = scaled 6 x div d" by (simp add: cut_micros_def d_def)
  have p: "(10::real) ^ 6 = 10 ^ min t 6 * real d"
    unfolding d_def of_nat_power of_nat_numeral power_add [symmetric] by simp
  have q: "y / 10 ^ min t 6 = y * real d / 10 ^ 6" for y :: real
    unfolding p using d0 by simp
  have "real (cut_micros t x) * real d \<le> real (scaled 6 x)"
    unfolding c of_nat_mult [symmetric] of_nat_le_iff by (rule div_times_less_eq_dividend)
  then show "real (cut_micros t x) / 10 ^ min t 6 \<le> real (scaled 6 x) / 10 ^ 6"
    unfolding q by (rule divide_right_mono) simp
  have "scaled 6 x < (cut_micros t x + 1) * d"
    using dividend_less_div_times [OF d0, of "scaled 6 x"] by (simp add: c)
  then have "real (scaled 6 x) < (real (cut_micros t x) + 1) * real d"
    by (metis of_nat_1 of_nat_add of_nat_less_iff of_nat_mult)
  then show "real (scaled 6 x) / 10 ^ 6 < (real (cut_micros t x) + 1) / 10 ^ min t 6"
    unfolding q by (rule divide_strict_right_mono) simp
qed

lemma cut_text_truncated:
  "truncated t x ((if x < 0 then -1 else 1) * (real (cut_micros t x) / 10 ^ min t 6))"
proof -
  let ?c = "real (cut_micros t x) / 10 ^ min t 6"
  let ?r = "(if x < 0 then -1 else 1) * ?c"
  have abs: "\<bar>?r\<bar> = ?c" by simp
  define m where "m = real (scaled 6 x) - \<bar>x\<bar> * 10 ^ 6"
  have "\<bar>m\<bar> \<le> 1 / 2" "real (scaled 6 x) = m + \<bar>x\<bar> * 10 ^ 6" using scaled_near [of 6 x] by (simp_all add: m_def)
  then have m: "real (scaled 6 x) / 10 ^ 6 \<le> \<bar>x\<bar> + 1 / (2 * 10 ^ 6)" "\<bar>x\<bar> - 1 / (2 * 10 ^ 6) \<le> real (scaled 6 x) / 10 ^ 6"
    by (simp_all add: field_simps abs_le_iff)
  have "0 \<le> ?r * x" by (auto simp: mult_nonneg_nonneg mult_nonneg_nonpos)
  then show ?thesis
    unfolding truncated_def abs using m cut_micros_bounds [where t = t and x = x] by (auto simp: add_divide_distrib)
qed

text \<open>The number that the cut text stands for.\<close>

definition cut_value :: "nat \<Rightarrow> real \<Rightarrow> real" where
  "cut_value t x = (if x < 0 then -1 else 1) * (real (cut_micros t x) / 10 ^ min t 6)"

lemma rounding_never_throws [simp]:
  "get_round_up_price i x = Inr (cut_value (tick_size i) x)"
  "get_round_up_quantity i x = Inr (cut_value (lot_size i) x)"
  by (simp_all only: get_round_up_price_def get_round_up_quantity_def round_string_number_value cut_value_def)

lemma cut_value_truncated: "truncated t x (cut_value t x)"
  unfolding cut_value_def by (rule cut_text_truncated)

text \<open>
  \<^verbatim>\<open>get_round_up_price\<close> and \<^verbatim>\<open>get_round_up_quantity\<close> never throw. Their result has at most as many
  decimals as the instrument allows (and at most six), has the sign of the amount or is zero, and is
  less than one unit of the last allowed digit away from it, towards zero (up to half a millionth).
\<close>

theorem rounding_truncates_to_allowed_digits:
  "(\<exists>r. get_round_up_price i x = Inr r \<and> truncated (tick_size i) x r) \<and>
   (\<exists>r. get_round_up_quantity i x = Inr r \<and> truncated (lot_size i) x r)"
  by (simp add: cut_value_truncated)

section \<open>What is found\<close>

text \<open>The calls that change a registry; a throwing call leaves it as it is.\<close>

datatype registry_call =
    Load_cache ExchangeId
  | Add_instrument ExchangeId Instrument
  | Subscribe ExchangeId string
  | Unsubscribe ExchangeId string

fun registry_step :: "instrument_db \<Rightarrow> Registry \<Rightarrow> registry_call \<Rightarrow> Registry" where
  "registry_step db r (Load_cache e) = load_cache_instruments db r e"
| "registry_step db r (Add_instrument e i) =
     (case add_instrument_to_cache db r e i of Inr r' \<Rightarrow> r' | Inl _ \<Rightarrow> snd (get_cache_instruments db r e))"
| "registry_step db r (Subscribe e s) =
     (case add_subscribed_instrument r e s of Inr (_, r') \<Rightarrow> r' | Inl _ \<Rightarrow> r)"
| "registry_step db r (Unsubscribe e s) = snd (remove_subscribed_instrument r e s)"

fun name_in :: "StoreType \<Rightarrow> Instrument \<Rightarrow> string" where
  "name_in BY_SYMBOL i = symbol i"
| "name_in BY_EXCHANGE_SYMBOL i = exchange_symbol i"

text \<open>Every entry of a table points to an instrument with that name and type, and an instrument of a
  cache is stored under its symbol.\<close>

definition tables_point :: "Registry \<Rightarrow> bool" where
  "tables_point r \<longleftrightarrow> (\<forall>e ty st s p. map_of (instrument_list r e ty st) s = Some p \<longrightarrow>
     fst p = e \<and> (\<exists>i. deref r p = Some i \<and> instrument_type i = ty \<and> name_in st i = s))"

lemma tables_pointD:
  assumes "tables_point r" "map_of (instrument_list r e ty st) s = Some p"
  obtains i where "fst p = e" "deref r p = Some i" "instrument_type i = ty" "name_in st i = s"
  using assms unfolding tables_point_def by blast

definition keyed_by_symbol :: "(string \<times> Instrument) list \<Rightarrow> bool" where
  "keyed_by_symbol c \<longleftrightarrow> distinct (map fst c) \<and> (\<forall>(k, i) \<in> set c. k = symbol i)"

definition caches_keyed :: "Registry \<Rightarrow> bool" where
  "caches_keyed r \<longleftrightarrow> (\<forall>e c. cache_instruments r e = Some c \<longrightarrow> keyed_by_symbol c)"

lemma map_of_emplace: "map_of (emplace k v m) k' = (if k' = k \<and> map_of m k = None then Some v else map_of m k')"
  by (simp add: emplace_def map_of_append map_add_def split: option.splits)

lemma keyed_emplace:
  "keyed_by_symbol c \<Longrightarrow> keyed_by_symbol (emplace (symbol i) i c)"
  by (auto simp: keyed_by_symbol_def emplace_def map_of_eq_None_iff)

lemma keyed_lookup: "keyed_by_symbol c \<Longrightarrow> map_of c k = Some i \<Longrightarrow> k = symbol i"
  by (auto simp: keyed_by_symbol_def dest: map_of_SomeD)

lemma get_cache_lists [simp]: "instrument_list (snd (get_cache_instruments db r e)) = instrument_list r"
  by (simp add: get_cache_instruments_def split: option.split)

lemma get_cache_cached:
  assumes "get_cache_instruments db r e = (c, r')"
  shows "cache_instruments r' = (cache_instruments r)(e := Some c)" "instrument_list r' = instrument_list r"
    "cache_instruments r e = None \<and> c = db e \<or> cache_instruments r e = Some c"
  using assms by (auto simp: get_cache_instruments_def split: option.splits)

lemma add_to_list_cache [simp]:
  "cache_instruments (add_instrument_to_list r e p i) = cache_instruments r"
  "deref (add_instrument_to_list r e p i) = deref r"
  by (simp_all add: add_instrument_to_list_def deref_def Let_def fun_eq_iff)

lemma add_to_list_lookup:
  "map_of (instrument_list (add_instrument_to_list r e p i) e' ty st) s =
    (if e' = e \<and> ty = instrument_type i \<and> s = name_in st i \<and> map_of (instrument_list r e ty st) s = None
     then Some p else map_of (instrument_list r e' ty st) s)"
  by (cases st) (auto simp: add_instrument_to_list_def Let_def map_of_emplace)

lemma add_to_list_points:
  assumes "tables_point r" "fst p = e" "deref r p = Some i"
  shows "tables_point (add_instrument_to_list r e p i)"
  using assms unfolding tables_point_def by (auto simp: add_to_list_lookup)

text \<open>A fold that lists instruments of the cache.\<close>

lemma list_cache:
  fixes r :: Registry
  assumes "tables_point r" "\<forall>(k, i) \<in> set c. deref r (e, k) = Some i"
  defines "r' \<equiv> foldl (\<lambda>r (k, i). add_instrument_to_list r e (e, k) i) r c"
  shows "tables_point r' \<and> cache_instruments r' = cache_instruments r \<and>
    (\<forall>e' ty st s. map_of (instrument_list r e' ty st) s \<noteq> None \<longrightarrow> map_of (instrument_list r' e' ty st) s \<noteq> None) \<and>
    (\<forall>(k, i) \<in> set c. \<forall>st. map_of (instrument_list r' e (instrument_type i) st) (name_in st i) \<noteq> None)"
  using assms(1, 2) unfolding r'_def
proof (induction c arbitrary: r)
  case (Cons x c)
  obtain k i where x: "x = (k, i)" by force
  let ?r = "add_instrument_to_list r e (e, k) i"
  have "tables_point ?r" "\<forall>(k, i) \<in> set c. deref ?r (e, k) = Some i"
    using Cons.prems add_to_list_points [of r "(e, k)" e i] by (auto simp: x)
  note IH = Cons.IH [OF this]
  have "map_of (instrument_list ?r e (instrument_type i) st) (name_in st i) \<noteq> None" for st
    by (auto simp: add_to_list_lookup)
  moreover have "map_of (instrument_list r e' ty st) s \<noteq> None \<Longrightarrow> map_of (instrument_list ?r e' ty st) s \<noteq> None"
    for e' ty st s by (simp add: add_to_list_lookup)
  ultimately show ?case using IH by (simp add: x)
qed simp

text \<open>The instruments of a loaded exchange are in the tables.\<close>

definition listed :: "Registry \<Rightarrow> ExchangeId \<Rightarrow> bool" where
  "listed r e \<longleftrightarrow> (\<exists>c. cache_instruments r e = Some c \<and>
     (\<forall>(k, i) \<in> set c. \<forall>st. map_of (instrument_list r e (instrument_type i) st) (name_in st i) \<noteq> None))"

definition registry_inv :: "ExchangeId set \<Rightarrow> Registry \<Rightarrow> bool" where
  "registry_inv L r \<longleftrightarrow> tables_point r \<and> caches_keyed r \<and> (\<forall>e \<in> L. listed r e)"

lemma tables_point_more:
  assumes "tables_point r" "instrument_list r' = instrument_list r"
    and "\<And>p i. deref r p = Some i \<Longrightarrow> deref r' p = Some i"
  shows "tables_point r'"
  using assms unfolding tables_point_def by metis

lemma get_cache_inv:
  assumes "registry_inv L r" "keyed_by_symbol (db e)" "get_cache_instruments db r e = (c, r')"
  shows "registry_inv L r' \<and> cache_instruments r' e = Some c"
proof -
  note g = get_cache_cached [OF assms(3)]
  have "deref r' p = Some i" if "deref r p = Some i" for p i
    using that g(1, 3) by (auto simp: deref_def split: option.splits if_splits)
  then have "tables_point r'"
    using assms(1) g(2) tables_point_more by (auto simp: registry_inv_def)
  moreover have "caches_keyed r'"
    using assms(1, 2) g(1, 3) by (auto simp: registry_inv_def caches_keyed_def split: if_splits)
  moreover have "listed r' e'" if "e' \<in> L" for e'
    using assms(1) g that by (fastforce simp: registry_inv_def listed_def)
  ultimately show ?thesis using g(1) by (simp add: registry_inv_def)
qed

lemma load_cache_inv:
  assumes "registry_inv L r" "keyed_by_symbol (db e)"
  shows "registry_inv (insert e L) (load_cache_instruments db r e)"
proof -
  obtain c r1 where g: "get_cache_instruments db r e = (c, r1)" by force
  have r1: "tables_point r1" "caches_keyed r1" "cache_instruments r1 e = Some c" "\<forall>e \<in> L. listed r1 e"
    using get_cache_inv [OF assms g] by (auto simp: registry_inv_def)
  let ?r2 = "clear_instrument_by_exchange r1 e"
  let ?r3 = "foldl (\<lambda>r (k, i). add_instrument_to_list r e (e, k) i) ?r2 c"
  have d: "deref ?r2 = deref r1" by (simp add: clear_instrument_by_exchange_def deref_def fun_eq_iff)
  have "tables_point ?r2"
    using r1(1) unfolding tables_point_def d by (simp add: clear_instrument_by_exchange_def)
  moreover have "\<forall>(k, i) \<in> set c. deref ?r2 (e, k) = Some i"
    using r1(2, 3) by (auto simp: d deref_def caches_keyed_def keyed_by_symbol_def)
  ultimately have r3: "tables_point ?r3" "cache_instruments ?r3 = cache_instruments r1"
    "\<forall>e' ty st s. map_of (instrument_list ?r2 e' ty st) s \<noteq> None \<longrightarrow> map_of (instrument_list ?r3 e' ty st) s \<noteq> None"
    "\<forall>(k, i) \<in> set c. \<forall>st. map_of (instrument_list ?r3 e (instrument_type i) st) (name_in st i) \<noteq> None"
    using list_cache [of ?r2 c e] by (simp_all add: clear_instrument_by_exchange_def)
  have "listed ?r3 e'" if el: "e' \<in> insert e L" for e'
  proof (cases "e' = e")
    case True
    then show ?thesis using r3 r1 by (auto simp: listed_def)
  next
    case False
    then obtain c' where c': "cache_instruments r1 e' = Some c'"
      "\<forall>(k, i) \<in> set c'. \<forall>st. map_of (instrument_list r1 e' (instrument_type i) st) (name_in st i) \<noteq> None"
      using el r1(4) by (auto simp: listed_def)
    moreover have "instrument_list ?r2 e' = instrument_list r1 e'"
      using False by (simp add: clear_instrument_by_exchange_def)
    ultimately show ?thesis using r3(2, 3) by (fastforce simp: listed_def)
  qed
  then show ?thesis
    using r3(1, 2) r1(2) g by (simp add: registry_inv_def load_cache_instruments_def caches_keyed_def)
qed

lemma add_cache_inv:
  assumes "registry_inv L r" "keyed_by_symbol (db e)" "add_instrument_to_cache db r e i = Inr r'"
  shows "registry_inv L r' \<and> deref r' (e, symbol i) = Some i \<and>
    map_of (instrument_list r' e (instrument_type i) BY_SYMBOL) (symbol i) = Some (e, symbol i)"
proof -
  obtain c r1 where g: "get_cache_instruments db r e = (c, r1)" by force
  have r1: "tables_point r1" "caches_keyed r1" "cache_instruments r1 e = Some c" "\<forall>e \<in> L. listed r1 e"
    using get_cache_inv [OF assms(1, 2) g] by (auto simp: registry_inv_def)
  have fresh: "map_of c (symbol i) = None"
    and r': "r' = add_instrument_to_list (r1\<lparr>cache_instruments := (cache_instruments r1)(e := Some (emplace (symbol i) i c))\<rparr>)
                    e (e, symbol i) i"
    using assms(3) g by (auto simp: add_instrument_to_cache_def split: if_splits)
  let ?r2 = "r1\<lparr>cache_instruments := (cache_instruments r1)(e := Some (emplace (symbol i) i c))\<rparr>"
  have d: "deref ?r2 p = (if p = (e, symbol i) then Some i else deref r1 p)" for p
    using r1(3) fresh by (cases p) (auto simp: deref_def map_of_emplace)
  have "deref r1 (e, symbol i) = None" using r1(3) fresh by (simp add: deref_def)
  then have t2: "tables_point ?r2"
    by (intro tables_point_more [OF r1(1)]) (auto simp: d)
  have new: "map_of (instrument_list r1 e (instrument_type i) BY_SYMBOL) (symbol i) = None"
  proof (rule ccontr)
    assume "\<not> ?thesis"
    then obtain p where "map_of (instrument_list r1 e (instrument_type i) BY_SYMBOL) (symbol i) = Some p" by blast
    from tables_pointD [OF r1(1) this] obtain j where p: "fst p = e" "deref r1 p = Some j" "symbol j = symbol i"
      by auto
    then have "map_of c (snd p) = Some j" using r1(3) by (simp add: deref_def)
    moreover from this have "snd p = symbol j"
      using r1(2, 3) keyed_lookup unfolding caches_keyed_def by blast
    ultimately show False using fresh p(3) by simp
  qed
  have "listed r' e'" if el: "e' \<in> L" for e'
  proof -
    obtain c' where c': "cache_instruments r1 e' = Some c'"
      "\<forall>(k, i) \<in> set c'. \<forall>st. map_of (instrument_list r1 e' (instrument_type i) st) (name_in st i) \<noteq> None"
      using el r1(4) by (auto simp: listed_def)
    have "(k, j) \<in> set c' \<Longrightarrow> map_of (instrument_list r' e' (instrument_type j) st) (name_in st j) \<noteq> None" for k j st
      using c'(2) by (auto simp: r' add_to_list_lookup)
    moreover have "map_of (instrument_list r' e (instrument_type i) st) (name_in st i) \<noteq> None" for st
      by (auto simp: r' add_to_list_lookup)
    ultimately show ?thesis
      using c'(1) r1(3) by (auto simp: listed_def r' emplace_def)
  qed
  moreover have "caches_keyed r'"
    using r1(2, 3) by (auto simp: r' caches_keyed_def intro: keyed_emplace)
  moreover have "tables_point r'" unfolding r' by (rule add_to_list_points [OF t2]) (simp_all add: d)
  ultimately show ?thesis
    using new by (simp add: registry_inv_def r' d add_to_list_lookup)
qed

lemma subscription_keeps_tables:
  assumes "registry_inv L r" "cache_instruments r' = cache_instruments r" "instrument_list r' = instrument_list r"
  shows "registry_inv L r'"
proof -
  have "deref r' = deref r" using assms(2) by (simp add: deref_def fun_eq_iff)
  then show ?thesis using assms by (simp add: registry_inv_def tables_point_def caches_keyed_def listed_def)
qed

definition loaded_by :: "registry_call list \<Rightarrow> ExchangeId set" where
  "loaded_by cs = {e. Load_cache e \<in> set cs}"

lemma registry_step_inv:
  assumes db: "\<forall>e. keyed_by_symbol (db e)" and inv: "registry_inv L r"
  shows "registry_inv (L \<union> loaded_by [c]) (registry_step db r c)"
proof (cases c)
  case (Load_cache e)
  then show ?thesis using load_cache_inv [OF inv, of db e] db by (simp add: loaded_by_def)
next
  case (Add_instrument e i)
  have "registry_inv L (snd (get_cache_instruments db r e))"
    using get_cache_inv [OF inv, of db e] db by (metis prod.collapse)
  then show ?thesis
    using add_cache_inv [OF inv, of db e i] db Add_instrument by (simp add: loaded_by_def split: sum.split)
next
  case (Subscribe e s)
  show ?thesis
    by (rule subscription_keeps_tables [of "L \<union> loaded_by [c]" r])
      (use inv Subscribe in \<open>auto simp: loaded_by_def add_subscribed_instrument_def Let_def split: option.splits sum.splits if_splits\<close>)
next
  case (Unsubscribe e s)
  show ?thesis
    by (rule subscription_keeps_tables [of "L \<union> loaded_by [c]" r])
      (use inv Unsubscribe in \<open>auto simp: loaded_by_def remove_subscribed_instrument_def\<close>)
qed

lemma registry_reachable:
  assumes "\<forall>e. keyed_by_symbol (db e)"
  shows "registry_inv (loaded_by cs) (foldl (registry_step db) (new_registry subs) cs)"
proof (induction cs rule: rev_induct)
  case Nil
  show ?case by (simp add: registry_inv_def loaded_by_def new_registry_def tables_point_def caches_keyed_def)
next
  case (snoc c cs)
  have "loaded_by (cs @ [c]) = loaded_by cs \<union> loaded_by [c]" by (auto simp: loaded_by_def)
  with registry_step_inv [OF assms snoc] show ?case by simp
qed

lemma find_by_symbol:
  assumes "registry_inv L r" "get_instrument_by_symbol r e s = Inr p"
  shows "p = (e, s) \<and> (\<exists>i. deref r p = Some i \<and> symbol i = s \<and> instrument_type i = type_of_symbol s)"
proof -
  have "map_of (instrument_list r e (type_of_symbol s) BY_SYMBOL) s = Some p"
    using assms(2) by (simp add: get_instrument_by_symbol_def split: option.splits)
  then obtain i where i: "fst p = e" "deref r p = Some i" "symbol i = s" "instrument_type i = type_of_symbol s"
    using tables_pointD [of r e "type_of_symbol s" BY_SYMBOL s p] assms(1) unfolding registry_inv_def by auto
  then obtain c where c: "cache_instruments r e = Some c" "map_of c (snd p) = Some i"
    by (auto simp: deref_def split: option.splits)
  then have "snd p = symbol i"
    using assms(1) keyed_lookup unfolding registry_inv_def caches_keyed_def by blast
  with i show ?thesis by (metis prod.collapse)
qed

lemma find_by_exchange_symbol:
  assumes "registry_inv L r" "get_instrument_by_exchange_symbol r e ty s = Inr p"
  shows "\<exists>i. deref r p = Some i \<and> exchange_symbol i = s \<and> instrument_type i = ty"
proof -
  have "map_of (instrument_list r e ty BY_EXCHANGE_SYMBOL) s = Some p"
    using assms(2) by (simp add: get_instrument_by_exchange_symbol_def split: option.splits)
  then show ?thesis
    using tables_pointD [of r e ty BY_EXCHANGE_SYMBOL s p] assms(1) unfolding registry_inv_def by auto
qed

lemma listed_found:
  assumes "registry_inv L r" "e \<in> L" "cache_instruments r e = Some c" "(k, i) \<in> set c"
  shows "instrument_type i = type_of_symbol (symbol i) \<longrightarrow> get_instrument_by_symbol r e (symbol i) = Inr (e, symbol i)"
    and "\<exists>p. get_instrument_by_exchange_symbol r e (instrument_type i) (exchange_symbol i) = Inr p"
proof -
  have found: "map_of (instrument_list r e (instrument_type i) st) (name_in st i) \<noteq> None" for st
    using assms unfolding registry_inv_def listed_def by fastforce
  have "get_instrument_by_symbol r e (symbol i) = Inr (e, symbol i)" if "instrument_type i = type_of_symbol (symbol i)"
  proof -
    obtain p where "get_instrument_by_symbol r e (symbol i) = Inr p"
      using found [of BY_SYMBOL] \<open>instrument_type i = type_of_symbol (symbol i)\<close> by (auto simp: get_instrument_by_symbol_def)
    with find_by_symbol [OF assms(1)] show ?thesis by metis
  qed
  then show "instrument_type i = type_of_symbol (symbol i) \<longrightarrow> get_instrument_by_symbol r e (symbol i) = Inr (e, symbol i)"
    by blast
  show "\<exists>p. get_instrument_by_exchange_symbol r e (instrument_type i) (exchange_symbol i) = Inr p"
    using found [of BY_EXCHANGE_SYMBOL] by (auto simp: get_instrument_by_exchange_symbol_def)
qed

text \<open>
  Whatever instruments were loaded, added and subscribed: a lookup by symbol that succeeds points to
  an instrument with that symbol and the type the symbol names, a lookup by exchange symbol to one with
  that exchange symbol and type; once an exchange has been loaded, every instrument in its cache is
  found under its symbol, if its type is the one the symbol names, and its exchange symbol is found; and
  an added instrument of such a type is found at once.
\<close>

theorem instruments_are_found:
  fixes db :: instrument_db and cs :: "registry_call list" and subs :: "(string \<times> Instrument) list"
  assumes "\<forall>e. keyed_by_symbol (db e)"
  defines "r \<equiv> foldl (registry_step db) (new_registry subs) cs"
  shows "(\<forall>e s p. get_instrument_by_symbol r e s = Inr p \<longrightarrow>
      (\<exists>i. deref r p = Some i \<and> symbol i = s \<and> instrument_type i = type_of_symbol s)) \<and>
    (\<forall>e ty s p. get_instrument_by_exchange_symbol r e ty s = Inr p \<longrightarrow>
      (\<exists>i. deref r p = Some i \<and> exchange_symbol i = s \<and> instrument_type i = ty)) \<and>
    (\<forall>e c k i. Load_cache e \<in> set cs \<longrightarrow> cache_instruments r e = Some c \<longrightarrow> (k, i) \<in> set c \<longrightarrow>
      (instrument_type i = type_of_symbol (symbol i) \<longrightarrow> get_instrument_by_symbol r e (symbol i) = Inr (e, symbol i)) \<and>
      (\<exists>p. get_instrument_by_exchange_symbol r e (instrument_type i) (exchange_symbol i) = Inr p)) \<and>
    (\<forall>e i r'. add_instrument_to_cache db r e i = Inr r' \<longrightarrow> instrument_type i = type_of_symbol (symbol i) \<longrightarrow>
      get_instrument_by_symbol r' e (symbol i) = Inr (e, symbol i) \<and> deref r' (e, symbol i) = Some i)"
proof -
  have inv: "registry_inv (loaded_by cs) r" unfolding r_def by (rule registry_reachable [OF assms(1)])
  have "get_instrument_by_symbol r' e (symbol i) = Inr (e, symbol i) \<and> deref r' (e, symbol i) = Some i"
    if "add_instrument_to_cache db r e i = Inr r'" "instrument_type i = type_of_symbol (symbol i)" for e i r'
    using add_cache_inv [OF inv _ that(1)] assms(1) that(2) by (simp add: get_instrument_by_symbol_def)
  moreover have "e \<in> loaded_by cs" if "Load_cache e \<in> set cs" for e
    using that by (simp add: loaded_by_def)
  ultimately show ?thesis
    using find_by_symbol [OF inv] find_by_exchange_symbol [OF inv] listed_found [OF inv] by meson
qed

definition demo_instrument :: Instrument where
  "demo_instrument = new_instrument BINANCE PERPETUAL ''BTC-PERPETUAL'' ''BTC'' 3 1 0"

theorem instruments_are_found_witness:
  "get_instrument_by_symbol (foldl (registry_step (\<lambda>_. [(''BTC-PERPETUAL'', demo_instrument)])) (new_registry []) [Load_cache BINANCE])
     BINANCE ''BTC-PERPETUAL'' = Inr (BINANCE, ''BTC-PERPETUAL'')"
proof -
  let ?db = "\<lambda>_::ExchangeId. [(''BTC-PERPETUAL'', demo_instrument)]"
  let ?r = "foldl (registry_step ?db) (new_registry []) [Load_cache BINANCE]"
  have db: "\<forall>e. keyed_by_symbol (?db e)"
    by (simp add: keyed_by_symbol_def demo_instrument_def new_instrument_def)
  have c: "cache_instruments ?r BINANCE = Some [(''BTC-PERPETUAL'', demo_instrument)]"
    by (simp add: load_cache_instruments_def get_cache_instruments_def new_registry_def clear_instrument_by_exchange_def)
  have "instrument_type demo_instrument = type_of_symbol (symbol demo_instrument)"
    "symbol demo_instrument = ''BTC-PERPETUAL''"
    by (simp_all add: demo_instrument_def new_instrument_def type_of_symbol_def)
  then show ?thesis
    using instruments_are_found [OF db, of "[]" "[Load_cache BINANCE]"] c by simp
qed

end
