(* ===== verification/Mean_Reversion.thy ===== *)
theory Mean_Reversion
  imports Instruments Order_Manager Profit_Loss Order_Book_Snapshot
begin

text \<open>
  The mean reversion strategy (\<^verbatim>\<open>src/server_app/strategy_mean_reversion\<close>): the estimator of mean and
  volatility over the last 150 mid prices, the state machine that opens a position and hedges it,
  and the running state that turns it into orders. A pointer to an instrument is a number. The
  calls to the order entry are recorded in order; an id from \<^verbatim>\<open>generate_order_id\<close>, which is a reading
  of the clock, is an argument of the handler that asks for one. The only account of the
  configuration is the one the calls go to.
\<close>

section \<open>VolatilityEstimator\<close>

record VolatilityEstimator =
  prices :: "real list"
  ve_current_price :: real
  ve_prev_price :: real

definition WINDOW :: nat where
  "WINDOW = 150"

definition new_estimator :: VolatilityEstimator where
  "new_estimator = \<lparr>prices = [], ve_current_price = 0, ve_prev_price = 0\<rparr>"

definition estimator_reset :: "VolatilityEstimator \<Rightarrow> VolatilityEstimator" where
  "estimator_reset v = v\<lparr>prices := []\<rparr>"

definition estimator_update :: "VolatilityEstimator \<Rightarrow> real \<Rightarrow> VolatilityEstimator" where
  "estimator_update v p =
     (let v = v\<lparr>prices := prices v @ [p], ve_prev_price := ve_current_price v, ve_current_price := p\<rparr>
      in if WINDOW < length (prices v) then v\<lparr>prices := tl (prices v)\<rparr> else v)"

definition mean :: "VolatilityEstimator \<Rightarrow> real" where
  "mean v = (if length (prices v) < WINDOW then 0 else foldl (\<lambda>sum p. sum + p) 0 (prices v) / real (length (prices v)))"

text \<open>Without a price C++ divides zero by zero; \<^verbatim>\<open>stddev\<close> is only called after \<^verbatim>\<open>update\<close>.\<close>

definition stddev :: "VolatilityEstimator \<Rightarrow> real" where
  "stddev v = (let m = mean v in sqrt (foldl (\<lambda>s p. s + (p - m) * (p - m)) 0 (prices v) / real (length (prices v))))"

definition zscore :: "VolatilityEstimator \<Rightarrow> real \<Rightarrow> real" where
  "zscore v p = (let vol = stddev v in if vol = 0 then 0 else (p - mean v) / vol)"

section \<open>SpreadCaptureConfig\<close>

datatype CaptureStatus =
  NONE | PLACING_INITIAL_ORDER | PLACING_HEDGE_ORDER | WAITING_FOR_HEDGE_ORDER_FILLED | STOP_LOSS

record SpreadCaptureConfig =
  move_distance :: real
  entry_distance :: real
  take_profit :: real
  stop_loss :: real
  mean_price :: real
  volatility :: real
  current_move_distance :: real
  current_entry_distance :: real
  current_take_profit :: real
  current_stop_loss :: real
  success :: nat
  fail :: nat
  profit :: real
  loss :: real
  initial_order :: Order
  hedge_order :: Order
  capture_status :: CaptureStatus

text \<open>\<^verbatim>\<open>Order(nullptr)\<close> and the assignment of \<^verbatim>\<open>nullptr\<close>, which keeps the fields it does not name.\<close>

definition null_order :: Order where
  "null_order = make_order 0 NOT_AVAILABLE None BUY LIMIT 0 0"

definition assign_null :: "Order \<Rightarrow> Order" where
  "assign_null ord = ord\<lparr>order_id := 0, status := NOT_AVAILABLE, order_instrument := None, side := BUY,
     order_type := LIMIT, price := 0, order_quantity := 0\<rparr>"

definition new_capture :: "real \<Rightarrow> real \<Rightarrow> real \<Rightarrow> real \<Rightarrow> SpreadCaptureConfig" where
  "new_capture md ed tp sl = \<lparr>move_distance = md, entry_distance = ed, take_profit = tp, stop_loss = sl,
     mean_price = 0, volatility = 0, current_move_distance = 0, current_entry_distance = 0,
     current_take_profit = 0, current_stop_loss = 0, success = 0, fail = 0, profit = 0, loss = 0,
     initial_order = null_order, hedge_order = null_order, capture_status = NONE\<rparr>"

definition capture_reset :: "SpreadCaptureConfig \<Rightarrow> SpreadCaptureConfig" where
  "capture_reset c = c\<lparr>volatility := 0, mean_price := 0, current_move_distance := 0, current_entry_distance := 0,
     current_take_profit := 0, current_stop_loss := 0, success := 0, fail := 0, profit := 0, loss := 0,
     initial_order := assign_null (initial_order c), hedge_order := assign_null (hedge_order c), capture_status := NONE\<rparr>"

definition win_rate :: "SpreadCaptureConfig \<Rightarrow> string" where
  "win_rate c =
     (if success c + fail c = 0 then ''0%''
      else fixed_to_string 1 (real (success c) * 100 / real (success c + fail c)) @ ''%'')"

section \<open>SpreadCaptureConfigManager\<close>

record SpreadCaptureConfigManager =
  spread_capture :: SpreadCaptureConfig
  volatility_estimator :: VolatilityEstimator

definition init_from_config :: "SpreadCaptureConfigManager \<Rightarrow> SpreadCaptureConfig \<Rightarrow> SpreadCaptureConfigManager" where
  "init_from_config m c = m\<lparr>spread_capture := c\<rparr>"

definition manager_reset :: "SpreadCaptureConfigManager \<Rightarrow> SpreadCaptureConfigManager" where
  "manager_reset m = m\<lparr>spread_capture := capture_reset (spread_capture m),
     volatility_estimator := estimator_reset (volatility_estimator m)\<rparr>"

text \<open>Which of the two orders a report is stored as.\<close>

definition store_order :: "SpreadCaptureConfig \<Rightarrow> Order \<Rightarrow> SpreadCaptureConfig" where
  "store_order c ord =
     (if capture_status c = PLACING_INITIAL_ORDER then c\<lparr>initial_order := ord\<rparr>
      else if capture_status c = PLACING_HEDGE_ORDER \<or> capture_status c = WAITING_FOR_HEDGE_ORDER_FILLED \<or>
              capture_status c = STOP_LOSS
      then c\<lparr>hedge_order := ord\<rparr>
      else c)"

definition capture_order_update :: "SpreadCaptureConfig \<Rightarrow> Order \<Rightarrow> SpreadCaptureConfig" where
  "capture_order_update c ord =
     (case status ord of
        NEW \<Rightarrow> store_order c ord
      | REJECTED \<Rightarrow> c
      | FILLED \<Rightarrow> store_order c ord
      | CANCELED \<Rightarrow> c
      | _ \<Rightarrow> c)"

text \<open>The branches of the state machine, for the mid price of a snapshot.\<close>

definition signal :: "SpreadCaptureConfig \<Rightarrow> real \<Rightarrow> SpreadCaptureConfig" where
  "signal c mid =
     (if mean_price c < mid
      then c\<lparr>initial_order := (initial_order c)\<lparr>status := NOT_AVAILABLE, price := mid + current_move_distance c, side := SELL\<rparr>\<rparr>
      else c\<lparr>initial_order := (initial_order c)\<lparr>status := NOT_AVAILABLE, price := mid - current_move_distance c, side := BUY\<rparr>\<rparr>)
     \<lparr>capture_status := PLACING_INITIAL_ORDER\<rparr>"

definition plan_hedge :: "SpreadCaptureConfig \<Rightarrow> SpreadCaptureConfig" where
  "plan_hedge c =
     (case side (initial_order c) of
        BUY \<Rightarrow> c\<lparr>hedge_order := (hedge_order c)\<lparr>side := SELL, price := price (initial_order c) + current_take_profit c,
                  status := NOT_AVAILABLE\<rparr>\<rparr>
      | SELL \<Rightarrow> c\<lparr>hedge_order := (hedge_order c)\<lparr>side := BUY, status := NOT_AVAILABLE,
                  price := price (initial_order c) - current_take_profit c\<rparr>\<rparr>)
     \<lparr>capture_status := PLACING_HEDGE_ORDER\<rparr>"

definition opening_turn :: "SpreadCaptureConfig \<Rightarrow> real \<Rightarrow> SpreadCaptureConfig" where
  "opening_turn c mid =
     (let c = c\<lparr>current_move_distance := volatility c * move_distance c,
                current_entry_distance := volatility c * entry_distance c,
                current_take_profit := volatility c * take_profit c,
                current_stop_loss := volatility c * stop_loss c,
                hedge_order := assign_null (hedge_order c)\<rparr>
      in if status (initial_order c) \<noteq> FILLED then signal c mid else plan_hedge c)"

definition close_orders :: "SpreadCaptureConfig \<Rightarrow> SpreadCaptureConfig" where
  "close_orders c = c\<lparr>initial_order := assign_null (initial_order c), hedge_order := assign_null (hedge_order c),
     capture_status := NONE\<rparr>"

definition waiting_turn :: "SpreadCaptureConfig \<Rightarrow> real \<Rightarrow> SpreadCaptureConfig" where
  "waiting_turn c mid =
     (if status (hedge_order c) = FILLED
      then close_orders (c\<lparr>success := success c + 1,
             profit := profit c + \<bar>price (initial_order c) - price (hedge_order c)\<bar>\<rparr>)
      else
        case side (initial_order c) of
          BUY \<Rightarrow> if mid < price (initial_order c) - stop_loss c then c\<lparr>capture_status := STOP_LOSS\<rparr> else c
        | SELL \<Rightarrow> if price (initial_order c) + stop_loss c < mid then c\<lparr>capture_status := STOP_LOSS\<rparr> else c)"

definition stop_loss_turn :: "SpreadCaptureConfig \<Rightarrow> SpreadCaptureConfig" where
  "stop_loss_turn c =
     (if status (hedge_order c) = FILLED
      then close_orders (c\<lparr>fail := fail c + 1,
             loss := loss c + \<bar>price (initial_order c) - price (hedge_order c)\<bar> * -1\<rparr>)
      else c)"

definition capture_turn :: "SpreadCaptureConfig \<Rightarrow> real \<Rightarrow> SpreadCaptureConfig" where
  "capture_turn c mid =
     (case capture_status c of
        NONE \<Rightarrow> opening_turn c mid
      | PLACING_INITIAL_ORDER \<Rightarrow> opening_turn c mid
      | PLACING_HEDGE_ORDER \<Rightarrow>
          if status (hedge_order c) = NEW then c\<lparr>capture_status := WAITING_FOR_HEDGE_ORDER_FILLED\<rparr> else c
      | WAITING_FOR_HEDGE_ORDER_FILLED \<Rightarrow> waiting_turn c mid
      | STOP_LOSS \<Rightarrow> stop_loss_turn c)"

definition manager_mid_price :: "SpreadCaptureConfigManager \<Rightarrow> real \<Rightarrow> SpreadCaptureConfigManager" where
  "manager_mid_price m mid =
     (let v = estimator_update (volatility_estimator m) mid;
          c = (spread_capture m)\<lparr>volatility := stddev v, mean_price := mean v\<rparr>
      in m\<lparr>volatility_estimator := v, spread_capture := (if mean_price c = 0 then c else capture_turn c mid)\<rparr>)"

definition manager_order_book_snapshot ::
  "SpreadCaptureConfigManager \<Rightarrow> OrderBookSnapShot \<Rightarrow> cpp_error + SpreadCaptureConfigManager" where
  "manager_order_book_snapshot m sn = sum_bind (get_mid_price sn) (\<lambda>mid. Inr (manager_mid_price m mid))"

definition manager_order_update :: "SpreadCaptureConfigManager \<Rightarrow> Order \<Rightarrow> SpreadCaptureConfigManager" where
  "manager_order_update m ord = m\<lparr>spread_capture := capture_order_update (spread_capture m) ord\<rparr>"

section \<open>StrategyMeanReversionStateRun\<close>

datatype entry_call = Place Order | Cancel Order | Cancel_all string

record MeanReversionRun =
  m_instrument :: nat
  instrument_object :: Instrument
  config_volume :: real
  m_spread_captures :: SpreadCaptureConfigManager
  m_current_price :: real
  m_pnl :: "nat PnL"
  m_initial_order :: Order
  m_hedge_order :: Order
  entry_calls :: "entry_call list"

definition new_run :: "nat \<Rightarrow> Instrument \<Rightarrow> real \<Rightarrow> SpreadCaptureConfigManager \<Rightarrow> MeanReversionRun" where
  "new_run p ins vol m = \<lparr>m_instrument = p, instrument_object = ins, config_volume = vol, m_spread_captures = m,
     m_current_price = 0, m_pnl = update_pnl_instrument (new_pnl None) (Some p), m_initial_order = null_order,
     m_hedge_order = null_order, entry_calls = []\<rparr>"

definition run_begin :: "MeanReversionRun \<Rightarrow> MeanReversionRun" where
  "run_begin s = s\<lparr>m_current_price := 0, m_pnl := reset_pnl (m_pnl s),
     m_spread_captures := manager_reset (m_spread_captures s)\<rparr>"

definition emit :: "entry_call \<Rightarrow> MeanReversionRun \<Rightarrow> MeanReversionRun" where
  "emit e s = s\<lparr>entry_calls := entry_calls s @ [e]\<rparr>"

definition run_end :: "MeanReversionRun \<Rightarrow> MeanReversionRun" where
  "run_end s = emit (Cancel_all (exchange_symbol (instrument_object s))) (s\<lparr>m_pnl := reset_pnl (m_pnl s)\<rparr>)"

definition is_same_order_info :: "MeanReversionRun \<Rightarrow> Order \<Rightarrow> Order \<Rightarrow> bool" where
  "is_same_order_info s order1 order2 \<longleftrightarrow>
     \<bar>price order1 - price order2\<bar> \<le> price_precision (instrument_object s) \<and> side order1 = side order2 \<and>
     order_type order1 = order_type order2"

definition MEAN_REVERSION_STRATEGY :: nat where
  "MEAN_REVERSION_STRATEGY = 6"

definition get_limit_order :: "MeanReversionRun \<Rightarrow> nat \<Rightarrow> Side \<Rightarrow> real \<Rightarrow> real \<Rightarrow> cpp_error + Order" where
  "get_limit_order s oid sd p q =
     sum_bind (get_round_up_price (instrument_object s) p) (\<lambda>p'.
       Inr ((make_order oid NOT_AVAILABLE (Some (m_instrument s)) sd LIMIT p' q)
              \<lparr>source_type := STRATEGY, source_strategy := MEAN_REVERSION_STRATEGY\<rparr>))"

definition get_market_order :: "MeanReversionRun \<Rightarrow> nat \<Rightarrow> Side \<Rightarrow> real \<Rightarrow> Order" where
  "get_market_order s oid sd q =
     (make_order oid NOT_AVAILABLE (Some (m_instrument s)) sd MARKET 0 q)
       \<lparr>source_type := STRATEGY, source_strategy := MEAN_REVERSION_STRATEGY\<rparr>"

definition run_price_update :: "MeanReversionRun \<Rightarrow> real \<Rightarrow> MeanReversionRun" where
  "run_price_update s p = s\<lparr>m_current_price := p, m_pnl := update_current_price (m_pnl s) p\<rparr>"

text \<open>\<open>place\<close> a new order at the order entry, with the trace id of the event that caused it.\<close>

definition place_limit ::
  "MeanReversionRun \<Rightarrow> nat \<Rightarrow> nat \<Rightarrow> Side \<Rightarrow> real \<Rightarrow> (Order \<Rightarrow> MeanReversionRun \<Rightarrow> MeanReversionRun) \<Rightarrow> cpp_error + MeanReversionRun" where
  "place_limit s oid tr sd p store =
     sum_bind (get_limit_order s oid sd p (config_volume s)) (\<lambda>ord.
       let ord = ord\<lparr>trace_id := tr\<rparr> in Inr (emit (Place ord) (store ord s)))"

definition set_initial :: "Order \<Rightarrow> MeanReversionRun \<Rightarrow> MeanReversionRun" where
  "set_initial ord s = s\<lparr>m_initial_order := ord\<rparr>"

definition set_hedge :: "Order \<Rightarrow> MeanReversionRun \<Rightarrow> MeanReversionRun" where
  "set_hedge ord s = s\<lparr>m_hedge_order := ord\<rparr>"

definition run_store_order :: "MeanReversionRun \<Rightarrow> Order \<Rightarrow> MeanReversionRun" where
  "run_store_order s ord =
     (let st = capture_status (spread_capture (m_spread_captures s))
      in if st = PLACING_INITIAL_ORDER then set_initial ord s
         else if st = PLACING_HEDGE_ORDER \<or> st = WAITING_FOR_HEDGE_ORDER_FILLED \<or> st = STOP_LOSS then set_hedge ord s
         else s)"

text \<open>The price of an order that is sent again: half a unit below the market for a purchase, above it for a sale.\<close>

definition retry_price :: "MeanReversionRun \<Rightarrow> Side \<Rightarrow> real" where
  "retry_price s sd = (case sd of BUY \<Rightarrow> m_current_price s - 1 / 2 | SELL \<Rightarrow> m_current_price s + 1 / 2)"

definition run_order_update :: "MeanReversionRun \<Rightarrow> nat \<Rightarrow> Order \<Rightarrow> cpp_error + MeanReversionRun" where
  "run_order_update s oid ord =
     (let s = s\<lparr>m_spread_captures := manager_order_update (m_spread_captures s) ord\<rparr>;
          c = spread_capture (m_spread_captures s)
      in case status ord of
           NEW \<Rightarrow> Inr (run_store_order s ord)
         | REJECTED \<Rightarrow> place_limit s oid (trace_id ord) (side ord) (retry_price s (side ord)) (\<lambda>_ s. s)
         | FILLED \<Rightarrow>
             let trade_volume = (if side ord = BUY then filled_quantity ord else - filled_quantity ord);
                 s = s\<lparr>m_pnl := update_trade (m_pnl s) (filled_price ord) trade_volume (fee ord)\<rparr>
             in Inr (run_store_order s ord)
         | CANCELED \<Rightarrow>
             if capture_status c = PLACING_INITIAL_ORDER
             then place_limit s oid (trace_id ord) (side (initial_order c)) (price (initial_order c)) set_initial
             else if capture_status c = STOP_LOSS
             then place_limit s oid (trace_id ord) (side ord) (retry_price s (side ord)) set_hedge
             else Inr s
         | _ \<Rightarrow> Inr s)"

text \<open>Orders are placed and cancelled after the state machine has taken its turn.\<close>

definition run_orders :: "MeanReversionRun \<Rightarrow> nat \<Rightarrow> nat \<Rightarrow> cpp_error + MeanReversionRun" where
  "run_orders s oid tr =
     (let c = spread_capture (m_spread_captures s)
      in case capture_status c of
           PLACING_INITIAL_ORDER \<Rightarrow>
             if is_null_order (m_initial_order s)
             then place_limit s oid tr BUY (price (initial_order c)) set_initial
             else if status (m_initial_order s) = NEW \<and> \<not> is_same_order_info s (m_initial_order s) (initial_order c)
             then
               let ord = (m_initial_order s)\<lparr>trace_id := tr\<rparr>
               in Inr (emit (Cancel ord) (set_initial (ord\<lparr>status := NOT_AVAILABLE\<rparr>) s))
             else Inr s
         | PLACING_HEDGE_ORDER \<Rightarrow> place_limit s oid tr (side (hedge_order c)) (price (hedge_order c)) set_hedge
         | WAITING_FOR_HEDGE_ORDER_FILLED \<Rightarrow>
             if status (m_hedge_order s) = FILLED
             then Inr (s\<lparr>m_initial_order := assign_null (m_initial_order s), m_hedge_order := assign_null (m_hedge_order s)\<rparr>)
             else Inr s
         | STOP_LOSS \<Rightarrow>
             if status (m_hedge_order s) = NEW
             then
               let ord = (m_hedge_order s)\<lparr>trace_id := tr\<rparr>
               in Inr (emit (Cancel ord) (set_hedge (ord\<lparr>status := NOT_AVAILABLE\<rparr>) s))
             else Inr s
         | NONE \<Rightarrow>
             Inr (s\<lparr>m_initial_order := assign_null (m_initial_order s), m_hedge_order := assign_null (m_hedge_order s)\<rparr>))"

definition run_order_book_snapshot :: "MeanReversionRun \<Rightarrow> nat \<Rightarrow> OrderBookSnapShot \<Rightarrow> cpp_error + MeanReversionRun" where
  "run_order_book_snapshot s oid sn =
     (if ss_instrument sn \<noteq> Some (m_instrument s) then Inr s
      else
        sum_bind (get_mid_price sn) (\<lambda>mid.
          let s = s\<lparr>m_current_price := mid, m_pnl := update_current_price (m_pnl s) mid\<rparr>
          in sum_bind (manager_order_book_snapshot (m_spread_captures s) sn) (\<lambda>m.
               run_orders (s\<lparr>m_spread_captures := m\<rparr>) oid (ss_trace_id sn))))"

section \<open>Statistics of the window\<close>

lemma foldl_sum: "foldl (\<lambda>s p. s + f p) a xs = a + sum_list (map f xs :: real list)"
  by (induction xs arbitrary: a) simp_all

lemma foldl_plus: "foldl (\<lambda>s p. s + p) a xs = a + sum_list (xs :: real list)"
  using foldl_sum [of "\<lambda>p. p"] by simp

definition last_prices :: "real list \<Rightarrow> real list" where
  "last_prices ps = drop (length ps - WINDOW) ps"

lemma prices_update:
  "prices (estimator_update v p) = (if WINDOW \<le> length (prices v) then tl (prices v) @ [p] else prices v @ [p])"
  by (cases "prices v") (auto simp: estimator_update_def Let_def WINDOW_def)

lemma prices_updates:
  "prices v = [] \<Longrightarrow> prices (foldl estimator_update v ps) = last_prices ps"
proof (induction ps rule: rev_induct)
  case (snoc p ps)
  show ?case
  proof (cases "WINDOW \<le> length ps")
    case True
    then have "length (ps @ [p]) - WINDOW = Suc (length ps - WINDOW)" by (simp add: Suc_diff_le)
    then show ?thesis using snoc True by (simp add: prices_update last_prices_def drop_Suc tl_drop WINDOW_def)
  next
    case False
    then show ?thesis using snoc by (simp add: prices_update last_prices_def)
  qed
qed (simp add: last_prices_def)

lemma length_last_prices: "length (last_prices ps) = min WINDOW (length ps)"
  by (simp add: last_prices_def)

lemma variance_identity:
  fixes xs :: "real list"
  assumes "xs \<noteq> []" "m = sum_list xs / real (length xs)"
  shows "sum_list (map (\<lambda>x. (x - m) * (x - m)) xs) / real (length xs)
    = sum_list (map (\<lambda>x. x * x) xs) / real (length xs) - m * m"
proof -
  have "sum_list (map (\<lambda>x. (x - c) * (x - c)) xs) = sum_list (map (\<lambda>x. x * x) xs) - 2 * c * sum_list xs + real (length xs) * (c * c)" for c
    by (induction xs) (simp_all add: algebra_simps)
  from this [of m] have "sum_list (map (\<lambda>x. (x - m) * (x - m)) xs) = sum_list (map (\<lambda>x. x * x) xs) - real (length xs) * (m * m)"
    using assms by simp
  then show ?thesis using assms(1) by (simp add: diff_divide_distrib)
qed

lemma sum_squares_zero:
  fixes xs :: "real list"
  shows "sum_list (map (\<lambda>x. (x - m) * (x - m)) xs) = 0 \<longleftrightarrow> (\<forall>x \<in> set xs. x = m)"
proof -
  have "0 \<le> sum_list (map (\<lambda>x. (x - m) * (x - m)) ys)" for ys :: "real list"
    by (rule sum_list_nonneg) auto
  then show ?thesis by (induction xs) (auto simp: add_nonneg_eq_0_iff)
qed

text \<open>
  After a reset and the mid prices \<open>ps\<close> the estimator knows the last 150 of them. With fewer than 150 the
  mean is after_report as zero; with more, mean and standard deviation are those of the last 150
  prices, and the deviation is zero exactly if these are all equal. The previous price is the one before the last.
\<close>

theorem estimator_reports_window_statistics:
  fixes v0 :: VolatilityEstimator and ps :: "real list"
  defines "v \<equiv> foldl estimator_update (estimator_reset v0) ps"
    and "w \<equiv> last_prices ps"
  shows "prices v = w \<and> length w = min WINDOW (length ps) \<and>
    (length ps < WINDOW \<longrightarrow> mean v = 0) \<and>
    (WINDOW \<le> length ps \<longrightarrow> mean v = sum_list w / real WINDOW \<and> 0 \<le> stddev v \<and>
       stddev v * stddev v = sum_list (map (\<lambda>p. p * p) w) / real WINDOW - mean v * mean v \<and>
       (stddev v = 0 \<longleftrightarrow> (\<forall>p \<in> set w. p = mean v))) \<and>
    (2 \<le> length ps \<longrightarrow> ve_current_price v = last ps \<and> ve_prev_price v = last (butlast ps))"
proof -
  have w: "prices v = w" unfolding v_def w_def by (rule prices_updates) (simp add: estimator_reset_def)
  have len: "length w = min WINDOW (length ps)" unfolding w_def by (rule length_last_prices)
  have m: "mean v = (if length ps < WINDOW then 0 else sum_list w / real WINDOW)"
    using len by (simp add: mean_def w foldl_plus min_def)
  have sd: "stddev v = sqrt (sum_list (map (\<lambda>p. (p - mean v) * (p - mean v)) w) / real (length w))"
    by (simp add: stddev_def w foldl_sum Let_def)
  have full: "0 \<le> stddev v \<and>
       stddev v * stddev v = sum_list (map (\<lambda>p. p * p) w) / real WINDOW - mean v * mean v \<and>
       (stddev v = 0 \<longleftrightarrow> (\<forall>p \<in> set w. p = mean v))" if "WINDOW \<le> length ps"
  proof -
    let ?q = "sum_list (map (\<lambda>p. (p - mean v) * (p - mean v)) w) / real (length w)"
    have lw: "length w = WINDOW" using len that by simp
    then have ne: "w \<noteq> []" by (auto simp: WINDOW_def)
    have q: "0 \<le> ?q" by (intro divide_nonneg_nonneg sum_list_nonneg) auto
    then have "stddev v * stddev v = ?q" unfolding sd by (rule real_sqrt_mult_self [THEN trans, OF abs_of_nonneg])
    moreover have "mean v = sum_list w / real (length w)" using m that lw by simp
    ultimately show ?thesis
      using q ne lw variance_identity [of w "mean v"] sum_squares_zero [of "mean v" w] by (auto simp: sd)
  qed
  have "ve_current_price v = last ps \<and> ve_prev_price v = last (butlast ps)" if "2 \<le> length ps"
  proof -
    obtain qs p q where "ps = qs @ [p, q]"
      using \<open>2 \<le> length ps\<close>
      by (cases ps rule: rev_cases; cases "butlast ps" rule: rev_cases) auto
    then show ?thesis by (simp add: v_def estimator_update_def Let_def butlast_append)
  qed
  then show ?thesis using w len m full by simp
qed

theorem estimator_reports_window_statistics_witness:
  "mean (foldl estimator_update (estimator_reset new_estimator) (replicate 150 7)) = 7 \<and>
   stddev (foldl estimator_update (estimator_reset new_estimator) (replicate 150 7)) = 0"
proof -
  have "last_prices (replicate 150 7) = replicate 150 7" by (simp add: last_prices_def WINDOW_def)
  then show ?thesis
    using estimator_reports_window_statistics [of new_estimator "replicate 150 7"]
    by (simp add: WINDOW_def sum_list_replicate)
qed

section \<open>The state machine\<close>

text \<open>What the manager is told: the mid prices of snapshots and the reports on orders.\<close>

datatype capture_event = Mid real | Order_report Order

fun capture_step :: "SpreadCaptureConfigManager \<Rightarrow> capture_event \<Rightarrow> SpreadCaptureConfigManager" where
  "capture_step m (Mid p) = manager_mid_price m p"
| "capture_step m (Order_report ord) = manager_order_update m ord"

text \<open>The cycle of a position: opened, hedged, closed with profit or through the stop loss.\<close>

inductive cycle_edge :: "CaptureStatus \<Rightarrow> CaptureStatus \<Rightarrow> bool" where
  open_position: "cycle_edge NONE PLACING_INITIAL_ORDER"
| filled: "cycle_edge PLACING_INITIAL_ORDER PLACING_HEDGE_ORDER"
| hedged: "cycle_edge PLACING_HEDGE_ORDER WAITING_FOR_HEDGE_ORDER_FILLED"
| won: "cycle_edge WAITING_FOR_HEDGE_ORDER_FILLED NONE"
| stopped: "cycle_edge WAITING_FOR_HEDGE_ORDER_FILLED STOP_LOSS"
| lost: "cycle_edge STOP_LOSS NONE"

inductive_simps cycle_edge_simps [simp]: "cycle_edge a b"

text \<open>A position is open from the fill of the initial order to the end of the cycle.\<close>

definition position_open :: "SpreadCaptureConfig \<Rightarrow> bool" where
  "position_open c \<longleftrightarrow> capture_status c \<in> {PLACING_HEDGE_ORDER, WAITING_FOR_HEDGE_ORDER_FILLED, STOP_LOSS}"

definition capture_inv :: "SpreadCaptureConfig \<Rightarrow> bool" where
  "capture_inv c \<longleftrightarrow> (position_open c \<longrightarrow> status (initial_order c) = FILLED) \<and>
     (capture_status c = NONE \<longrightarrow> is_null_order (initial_order c) \<and> is_null_order (hedge_order c)) \<and>
     0 \<le> profit c \<and> loss c \<le> 0 \<and> (success c = 0 \<longrightarrow> profit c = 0) \<and> (fail c = 0 \<longrightarrow> loss c = 0)"

text \<open>What one event does to the counters, seen from the edge it takes.\<close>

definition counted :: "SpreadCaptureConfig \<Rightarrow> SpreadCaptureConfig \<Rightarrow> bool" where
  "counted c c' \<longleftrightarrow>
     success c' = success c + (if capture_status c = WAITING_FOR_HEDGE_ORDER_FILLED \<and> capture_status c' = NONE then 1 else 0) \<and>
     fail c' = fail c + (if capture_status c = STOP_LOSS \<and> capture_status c' = NONE then 1 else 0)"

definition good_step :: "SpreadCaptureConfig \<Rightarrow> SpreadCaptureConfig \<Rightarrow> bool" where
  "good_step c c' \<longleftrightarrow> capture_inv c' \<and> counted c c' \<and>
     (capture_status c' = capture_status c \<or> cycle_edge (capture_status c) (capture_status c')) \<and>
     (position_open c \<and> position_open c' \<longrightarrow> initial_order c' = initial_order c)"

lemma null_assigned [simp]: "is_null_order (assign_null ord)" "is_null_order null_order"
  by (simp_all add: is_null_order_def assign_null_def null_order_def make_order_def)

lemma opening_good:
  assumes "capture_inv c" "capture_status c = NONE \<or> capture_status c = PLACING_INITIAL_ORDER"
  shows "good_step c (opening_turn c mid)"
  using assms by (auto simp: good_step_def capture_inv_def counted_def opening_turn_def signal_def plan_hedge_def
      position_open_def is_null_order_def Let_def split: Side.split)

lemma waiting_good:
  assumes "capture_inv c" "capture_status c = WAITING_FOR_HEDGE_ORDER_FILLED"
  shows "good_step c (waiting_turn c mid)"
  using assms by (auto simp: good_step_def capture_inv_def counted_def waiting_turn_def close_orders_def
      position_open_def split: Side.split)

lemma stop_loss_good:
  assumes "capture_inv c" "capture_status c = STOP_LOSS"
  shows "good_step c (stop_loss_turn c)"
  using assms by (auto simp: good_step_def capture_inv_def counted_def stop_loss_turn_def close_orders_def position_open_def)

lemma turn_good:
  assumes "capture_inv c"
  shows "good_step c (capture_turn c mid)"
proof (cases "capture_status c")
  case PLACING_HEDGE_ORDER
  then show ?thesis using assms
    by (auto simp: capture_turn_def good_step_def capture_inv_def counted_def position_open_def)
qed (use assms opening_good waiting_good stop_loss_good in \<open>auto simp: capture_turn_def\<close>)

lemma statistics_irrelevant [simp]:
  "capture_inv (c\<lparr>volatility := a, mean_price := b\<rparr>) = capture_inv c"
  "good_step (c\<lparr>volatility := a, mean_price := b\<rparr>) c' = good_step c c'"
  "good_step c (c\<lparr>volatility := a, mean_price := b\<rparr>) = capture_inv c"
  by (auto simp: capture_inv_def good_step_def counted_def position_open_def)

lemma store_good: "capture_inv c \<Longrightarrow> good_step c (store_order c ord)"
  by (auto simp: store_order_def good_step_def capture_inv_def counted_def position_open_def)

lemma capture_step_good:
  assumes "capture_inv (spread_capture m)"
  shows "good_step (spread_capture m) (spread_capture (capture_step m e))"
proof (cases e)
  case (Mid p)
  let ?v = "estimator_update (volatility_estimator m) p"
  let ?c = "(spread_capture m)\<lparr>volatility := stddev ?v, mean_price := mean ?v\<rparr>"
  have "good_step ?c (capture_turn ?c p)" by (rule turn_good) (simp add: assms)
  then show ?thesis using assms Mid by (simp add: manager_mid_price_def Let_def)
next
  case (Order_report ord)
  have "good_step (spread_capture m) (spread_capture m)"
    using assms by (simp add: good_step_def counted_def)
  then show ?thesis
    using assms store_good Order_report
    by (simp add: manager_order_update_def capture_order_update_def split: Status.split)
qed

text \<open>
  (C7) Whatever mid prices and order reports arrive after a reset, each event leaves the state or takes one
  edge of the cycle: opened, filled, hedged, then closed with profit, or stopped and closed. From the
  fill to the end the initial order is a filled order and does not change; between cycles there are
  no orders; a success is counted exactly when a waiting position closes and a failure exactly when a
  stopped one does; the profit is never negative and the loss never positive.
\<close>

theorem capture_follows_its_cycle:
  fixes m0 :: SpreadCaptureConfigManager and es :: "capture_event list" and e :: capture_event
  defines "m \<equiv> foldl capture_step (manager_reset m0) es"
  shows "capture_inv (spread_capture m) \<and> good_step (spread_capture m) (spread_capture (capture_step m e))"
proof -
  have "capture_inv (spread_capture (manager_reset m0))"
    by (simp add: manager_reset_def capture_reset_def capture_inv_def position_open_def)
  then have "capture_inv (spread_capture m)" unfolding m_def
  proof (induction es rule: rev_induct)
    case (snoc e es)
    then show ?case using capture_step_good by (simp add: good_step_def)
  qed simp
  then show ?thesis using capture_step_good by blast
qed

section \<open>Orders of the running strategy\<close>

definition limit_order :: "MeanReversionRun \<Rightarrow> nat \<Rightarrow> nat \<Rightarrow> Side \<Rightarrow> real \<Rightarrow> Order" where
  "limit_order s oid tr sd p =
     (make_order oid NOT_AVAILABLE (Some (m_instrument s)) sd LIMIT (cut_value (tick_size (instrument_object s)) p)
        (config_volume s))\<lparr>source_type := STRATEGY, source_strategy := MEAN_REVERSION_STRATEGY, trace_id := tr\<rparr>"

lemma place_limit_places [simp]:
  "place_limit s oid tr sd p store = Inr (emit (Place (limit_order s oid tr sd p)) (store (limit_order s oid tr sd p) s))"
  by (simp add: place_limit_def get_limit_order_def limit_order_def Let_def)

lemma limit_order_fields [simp]:
  "side (limit_order s oid tr sd p) = sd"
  "price (limit_order s oid tr sd p) = cut_value (tick_size (instrument_object s)) p"
  "order_quantity (limit_order s oid tr sd p) = config_volume s"
  "order_instrument (limit_order s oid tr sd p) = Some (m_instrument s)"
  "status (limit_order s oid tr sd p) = NOT_AVAILABLE"
  by (simp_all add: limit_order_def make_order_def)

text \<open>The events of the running strategy, each with the id the clock would give.\<close>

datatype run_event = Snapshot nat OrderBookSnapShot | Run_report nat Order | Price_update real

fun run_step :: "MeanReversionRun \<Rightarrow> run_event \<Rightarrow> cpp_error + MeanReversionRun" where
  "run_step s (Snapshot oid sn) = run_order_book_snapshot s oid sn"
| "run_step s (Run_report oid ord) = run_order_update s oid ord"
| "run_step s (Price_update p) = Inr (run_price_update s p)"

text \<open>A snapshot of the instrument with mid price \<open>p\<close>.\<close>

definition shows_mid :: "MeanReversionRun \<Rightarrow> OrderBookSnapShot \<Rightarrow> real \<Rightarrow> bool" where
  "shows_mid s sn p \<longleftrightarrow> ss_instrument sn = Some (m_instrument s) \<and> get_mid_price sn = Inr p"

definition at_price :: "MeanReversionRun \<Rightarrow> real \<Rightarrow> MeanReversionRun" where
  "at_price s p = s\<lparr>m_current_price := p, m_pnl := update_current_price (m_pnl s) p,
     m_spread_captures := manager_mid_price (m_spread_captures s) p\<rparr>"

lemma snapshot_turn:
  "shows_mid s sn p \<Longrightarrow> run_order_book_snapshot s oid sn = run_orders (at_price s p) oid (ss_trace_id sn)"
  by (simp add: shows_mid_def run_order_book_snapshot_def manager_order_book_snapshot_def at_price_def Let_def)

lemma emit_frame [simp]:
  "m_spread_captures (emit e s) = m_spread_captures s" "m_pnl (emit e s) = m_pnl s"
  "m_initial_order (emit e s) = m_initial_order s" "m_hedge_order (emit e s) = m_hedge_order s"
  "entry_calls (emit e s) = entry_calls s @ [e]" "instrument_object (emit e s) = instrument_object s"
  "m_instrument (emit e s) = m_instrument s" "config_volume (emit e s) = config_volume s"
  by (simp_all add: emit_def)

lemma set_order_frame [simp]:
  "m_spread_captures (set_initial ord s) = m_spread_captures s" "m_spread_captures (set_hedge ord s) = m_spread_captures s"
  "m_pnl (set_initial ord s) = m_pnl s" "m_pnl (set_hedge ord s) = m_pnl s"
  "entry_calls (set_initial ord s) = entry_calls s" "entry_calls (set_hedge ord s) = entry_calls s"
  "instrument_object (set_initial ord s) = instrument_object s" "instrument_object (set_hedge ord s) = instrument_object s"
  "m_instrument (set_initial ord s) = m_instrument s" "m_instrument (set_hedge ord s) = m_instrument s"
  "config_volume (set_initial ord s) = config_volume s" "config_volume (set_hedge ord s) = config_volume s"
  by (simp_all add: set_initial_def set_hedge_def)

lemma at_price_frame [simp]:
  "m_instrument (at_price s p) = m_instrument s" "instrument_object (at_price s p) = instrument_object s"
  "config_volume (at_price s p) = config_volume s" "entry_calls (at_price s p) = entry_calls s"
  "m_initial_order (at_price s p) = m_initial_order s" "m_hedge_order (at_price s p) = m_hedge_order s"
  "m_spread_captures (at_price s p) = manager_mid_price (m_spread_captures s) p"
  "m_pnl (at_price s p) = update_current_price (m_pnl s) p"
  by (simp_all add: at_price_def)

abbreviation capture :: "MeanReversionRun \<Rightarrow> SpreadCaptureConfig" where
  "capture s \<equiv> spread_capture (m_spread_captures s)"

text \<open>What the manager makes of a mid price, once its window is full.\<close>

abbreviation estimator :: "MeanReversionRun \<Rightarrow> VolatilityEstimator" where
  "estimator s \<equiv> volatility_estimator (m_spread_captures s)"

definition measured :: "MeanReversionRun \<Rightarrow> real \<Rightarrow> SpreadCaptureConfig" where
  "measured s p = (let v = estimator_update (estimator s) p in (capture s)\<lparr>volatility := stddev v, mean_price := mean v\<rparr>)"

lemma manager_mid_price_parts [simp]:
  "volatility_estimator (manager_mid_price (m_spread_captures s) p) = estimator_update (estimator s) p"
  "spread_capture (manager_mid_price (m_spread_captures s) p) =
     (if mean (estimator_update (estimator s) p) = 0 then measured s p else capture_turn (measured s p) p)"
  by (simp_all add: manager_mid_price_def measured_def Let_def)

lemma measured_parts [simp]:
  "capture_status (measured s p) = capture_status (capture s)" "initial_order (measured s p) = initial_order (capture s)"
  "hedge_order (measured s p) = hedge_order (capture s)" "success (measured s p) = success (capture s)"
  "profit (measured s p) = profit (capture s)" "fail (measured s p) = fail (capture s)"
  "loss (measured s p) = loss (capture s)" "take_profit (measured s p) = take_profit (capture s)"
  "move_distance (measured s p) = move_distance (capture s)"
  "mean_price (measured s p) = mean (estimator_update (estimator s) p)"
  "volatility (measured s p) = stddev (estimator_update (estimator s) p)"
  by (simp_all add: measured_def Let_def)

lemma hedge_placed_again:
  fixes oid :: nat
  assumes "capture_status (capture s) = PLACING_HEDGE_ORDER" "status (hedge_order (capture s)) \<noteq> NEW" "shows_mid s sn p"
  defines "ord \<equiv> limit_order s oid (ss_trace_id sn) (side (hedge_order (capture s))) (price (hedge_order (capture s)))"
  obtains s' where "run_step s (Snapshot oid sn) = Inr s'" "entry_calls s' = entry_calls s @ [Place ord]"
    "capture_status (capture s') = PLACING_HEDGE_ORDER" "hedge_order (capture s') = hedge_order (capture s)"
    "m_instrument s' = m_instrument s" "instrument_object s' = instrument_object s" "config_volume s' = config_volume s"
proof
  let ?s = "at_price s p"
  let ?s' = "emit (Place ord) (set_hedge ord ?s)"
  have c: "capture_status (capture ?s) = PLACING_HEDGE_ORDER" "hedge_order (capture ?s) = hedge_order (capture s)"
    using assms(1, 2) by (simp_all add: capture_turn_def)
  moreover have "limit_order ?s oid tr sd q = limit_order s oid tr sd q" for tr sd q by (simp add: limit_order_def)
  ultimately show "run_step s (Snapshot oid sn) = Inr ?s'"
    by (simp add: snapshot_turn [OF assms(3)] run_orders_def Let_def ord_def del: at_price_frame(7))
  show "capture_status (capture ?s') = PLACING_HEDGE_ORDER" "hedge_order (capture ?s') = hedge_order (capture s)"
    using c by (simp_all del: at_price_frame(7))
qed simp_all

text \<open>
  (C35) While the state machine waits to place its hedge and the stored hedge order is not acknowledged as
  new (not yet acknowledged, or already filled), every snapshot of the instrument places the full hedge
  again: \<open>n\<close> snapshots place \<open>n\<close> orders of the whole configured volume, all on the hedging side.
\<close>

theorem hedge_is_repeated_until_acknowledged:
  assumes "capture_status (capture s) = PLACING_HEDGE_ORDER" "status (hedge_order (capture s)) \<noteq> NEW"
    and "\<forall>(oid, sn) \<in> set sns. \<exists>p. shows_mid s sn p"
  shows "\<exists>s' os. sum_fold run_step s (map (\<lambda>(oid, sn). Snapshot oid sn) sns) = Inr s' \<and>
    entry_calls s' = entry_calls s @ map Place os \<and> length os = length sns \<and>
    (\<forall>ord \<in> set os. side ord = side (hedge_order (capture s)) \<and> order_quantity ord = config_volume s \<and>
       order_instrument ord = Some (m_instrument s)) \<and>
    capture_status (capture s') = PLACING_HEDGE_ORDER"
  using assms
proof (induction sns arbitrary: s)
  case (Cons x sns)
  obtain oid sn p where x: "x = (oid, sn)" and p: "shows_mid s sn p" using Cons.prems(3) by (cases x) auto
  let ?ord = "limit_order s oid (ss_trace_id sn) (side (hedge_order (capture s))) (price (hedge_order (capture s)))"
  obtain s1 where s1: "run_step s (Snapshot oid sn) = Inr s1" "entry_calls s1 = entry_calls s @ [Place ?ord]"
    "capture_status (capture s1) = PLACING_HEDGE_ORDER" "hedge_order (capture s1) = hedge_order (capture s)"
    "m_instrument s1 = m_instrument s" "config_volume s1 = config_volume s"
    using hedge_placed_again [OF Cons.prems(1, 2) p] by metis
  have "\<forall>(oid, sn) \<in> set sns. \<exists>p. shows_mid s1 sn p"
    using Cons.prems(3) s1(5) by (simp add: shows_mid_def)
  from Cons.IH [OF s1(3) _ this] Cons.prems(2) s1(4) obtain s' os where
    s': "sum_fold run_step s1 (map (\<lambda>(oid, sn). Snapshot oid sn) sns) = Inr s'" "entry_calls s' = entry_calls s1 @ map Place os"
    "length os = length sns" "capture_status (capture s') = PLACING_HEDGE_ORDER"
    "\<forall>ord \<in> set os. side ord = side (hedge_order (capture s1)) \<and> order_quantity ord = config_volume s1 \<and>
       order_instrument ord = Some (m_instrument s1)"
    by auto
  then show ?case
    by (intro exI [of _ s'] exI [of _ "?ord # os"]) (use s1 in \<open>simp add: x\<close>)
qed simp

text \<open>
  (C36) The first order of a cycle is placed as a purchase even if the price is above the mean and the state machine
  asks for a sale: the purchase is then placed above the market, at the price of the sale. A rejected
  order makes the strategy place an order for its own instrument and volume, whoever sent the
  rejected one and for whatever instrument.
\<close>

theorem first_order_ignores_signal_side:
  fixes s :: MeanReversionRun and p :: real
  defines "v \<equiv> estimator_update (estimator s) p"
  assumes "shows_mid s sn p" "capture_status (capture s) = NONE \<or> capture_status (capture s) = PLACING_INITIAL_ORDER"
    and "status (initial_order (capture s)) \<noteq> FILLED" "is_null_order (m_initial_order s)"
    and "mean v \<noteq> 0" "mean v < p"
    and "status rejected = REJECTED"
  shows "(\<exists>s' ord. run_step s (Snapshot oid sn) = Inr s' \<and> entry_calls s' = entry_calls s @ [Place ord] \<and>
      side (initial_order (capture s')) = SELL \<and> side ord = BUY \<and>
      price ord = cut_value (tick_size (instrument_object s)) (p + stddev v * move_distance (capture s))) \<and>
    (\<exists>s' ord. run_step s (Run_report oid rejected) = Inr s' \<and> entry_calls s' = entry_calls s @ [Place ord] \<and>
      side ord = side rejected \<and> order_instrument ord = Some (m_instrument s) \<and> order_quantity ord = config_volume s)"
proof
  let ?s = "at_price s p"
  have c: "capture_status (capture ?s) = PLACING_INITIAL_ORDER" "side (initial_order (capture ?s)) = SELL"
    "price (initial_order (capture ?s)) = p + stddev v * move_distance (capture s)"
    using assms(3-7) by (auto simp: v_def capture_turn_def opening_turn_def signal_def Let_def)
  then show "\<exists>s' ord. run_step s (Snapshot oid sn) = Inr s' \<and> entry_calls s' = entry_calls s @ [Place ord] \<and>
      side (initial_order (capture s')) = SELL \<and> side ord = BUY \<and>
      price ord = cut_value (tick_size (instrument_object s)) (p + stddev v * move_distance (capture s))"
    using assms(5) by (simp add: snapshot_turn [OF assms(2)] run_orders_def Let_def del: at_price_frame(7))
  show "\<exists>s' ord. run_step s (Run_report oid rejected) = Inr s' \<and> entry_calls s' = entry_calls s @ [Place ord] \<and>
      side ord = side rejected \<and> order_instrument ord = Some (m_instrument s) \<and> order_quantity ord = config_volume s"
    using assms(8) by (simp add: run_order_update_def Let_def)
qed

section \<open>Before the window is full\<close>

text \<open>Events that cannot place an order while no position is being opened.\<close>

fun quiet :: "MeanReversionRun \<Rightarrow> run_event \<Rightarrow> bool" where
  "quiet s (Snapshot oid sn) \<longleftrightarrow> (ss_instrument sn = Some (m_instrument s) \<longrightarrow> (\<exists>p. get_mid_price sn = Inr p))"
| "quiet s (Run_report oid ord) \<longleftrightarrow> status ord \<noteq> REJECTED"
| "quiet s (Price_update p) \<longleftrightarrow> True"

fun is_snapshot :: "run_event \<Rightarrow> bool" where
  "is_snapshot (Snapshot oid sn) = True"
| "is_snapshot _ = False"

lemma quiet_step:
  assumes "capture_status (capture s) = NONE" "length (prices (estimator s)) + n < WINDOW"
    and "quiet s e" "n = (if is_snapshot e then 1 else 0)"
  obtains s' where "run_step s e = Inr s'" "entry_calls s' = entry_calls s" "capture_status (capture s') = NONE"
    "length (prices (estimator s')) \<le> length (prices (estimator s)) + n" "m_instrument s' = m_instrument s"
proof (cases e)
  case (Snapshot oid sn)
  show ?thesis
  proof (cases "ss_instrument sn = Some (m_instrument s)")
    case True
    then obtain p where p: "shows_mid s sn p" using assms(3) Snapshot by (auto simp: shows_mid_def)
    have "mean (estimator_update (estimator s) p) = 0"
      using assms(2, 4) Snapshot by (simp add: mean_def prices_update)
    then show ?thesis
      using that assms(1, 2, 4) Snapshot by (simp add: snapshot_turn [OF p] run_orders_def Let_def prices_update)
  next
    case False
    then show ?thesis using that assms(1) Snapshot by (simp add: run_order_book_snapshot_def)
  qed
next
  case (Run_report oid ord)
  then show ?thesis
    using that assms(1, 3) by (cases "status ord")
      (simp_all add: run_order_update_def manager_order_update_def capture_order_update_def store_order_def
        run_store_order_def Let_def)
qed (use that assms in \<open>simp add: run_price_update_def\<close>)

text \<open>
  After \<^verbatim>\<open>begin\<close>, with fewer than 150 snapshots and no rejection, the strategy makes no call to the order
  entry, whatever else is after_report to it.
\<close>

theorem no_orders_before_window_is_full:
  assumes "\<forall>e \<in> set es. quiet s e" "length (filter is_snapshot es) < WINDOW"
  shows "\<exists>s'. sum_fold run_step (run_begin s) es = Inr s' \<and> entry_calls s' = entry_calls s"
proof -
  have "\<exists>s'. sum_fold run_step s1 es = Inr s' \<and> entry_calls s' = entry_calls s1"
    if "capture_status (capture s1) = NONE" "length (prices (estimator s1)) + length (filter is_snapshot es) < WINDOW"
      "\<forall>e \<in> set es. quiet s1 e" for s1 es
    using that
  proof (induction es arbitrary: s1)
    case (Cons e es)
    have step: "length (prices (estimator s1)) + (if is_snapshot e then 1 else 0) < WINDOW" "quiet s1 e"
      using Cons.prems by (auto split: if_splits)
    obtain s2 where s2: "run_step s1 e = Inr s2" "entry_calls s2 = entry_calls s1" "capture_status (capture s2) = NONE"
      "length (prices (estimator s2)) \<le> length (prices (estimator s1)) + (if is_snapshot e then 1 else 0)"
      "m_instrument s2 = m_instrument s1"
      using quiet_step [OF Cons.prems(1) step refl] by metis
    have "quiet s2 e' = quiet s1 e'" for e' using s2(5) by (cases e') auto
    then have "\<exists>s'. sum_fold run_step s2 es = Inr s' \<and> entry_calls s' = entry_calls s2"
      using Cons.prems(2, 3) s2(4) by (intro Cons.IH [OF s2(3)]) (auto split: if_splits)
    then show ?case using s2(1, 2) by simp
  qed simp
  note run = this [of "run_begin s" es]
  have "quiet (run_begin s) e = quiet s e" for e by (cases e) (auto simp: run_begin_def)
  then show ?thesis
    using run assms
    by (simp add: run_begin_def manager_reset_def capture_reset_def estimator_reset_def)
qed

section \<open>A round trip\<close>


definition direction :: "Side \<Rightarrow> real" where
  "direction sd = (case sd of BUY \<Rightarrow> 1 | SELL \<Rightarrow> -1)"



lemma price_update_keeps [simp]:
  "volume (update_current_price a p) = volume a" "avg_price (update_current_price a p) = avg_price a"
  "realized (update_current_price a p) = realized a"
  by (simp_all add: update_current_price_def Let_def)

text \<open>The running strategy after a report of a new or filled order.\<close>

definition after_report :: "MeanReversionRun \<Rightarrow> Order \<Rightarrow> MeanReversionRun" where
  "after_report s ord = run_store_order
     (s\<lparr>m_spread_captures := manager_order_update (m_spread_captures s) ord,
        m_pnl := (if status ord = NEW then m_pnl s
          else update_trade (m_pnl s) (filled_price ord) (direction (side ord) * filled_quantity ord) (fee ord))\<rparr>) ord"


lemma run_store_frame [simp]:
  "m_spread_captures (run_store_order s ord) = m_spread_captures s" "m_pnl (run_store_order s ord) = m_pnl s"
  "entry_calls (run_store_order s ord) = entry_calls s" "m_instrument (run_store_order s ord) = m_instrument s"
  "instrument_object (run_store_order s ord) = instrument_object s" "config_volume (run_store_order s ord) = config_volume s"
  by (simp_all add: run_store_order_def Let_def)

lemma after_report_frame [simp]:
  "entry_calls (after_report s ord) = entry_calls s" "m_instrument (after_report s ord) = m_instrument s"
  "instrument_object (after_report s ord) = instrument_object s" "config_volume (after_report s ord) = config_volume s"
  "estimator (after_report s ord) = estimator s"
  "m_pnl (after_report s ord) = (if status ord = NEW then m_pnl s
     else update_trade (m_pnl s) (filled_price ord) (direction (side ord) * filled_quantity ord) (fee ord))"
  by (simp_all add: after_report_def manager_order_update_def)



definition forget_orders :: "MeanReversionRun \<Rightarrow> MeanReversionRun" where
  "forget_orders s = s\<lparr>m_initial_order := assign_null (m_initial_order s), m_hedge_order := assign_null (m_hedge_order s)\<rparr>"

lemma forget_frame [simp]:
  "m_spread_captures (forget_orders s) = m_spread_captures s" "m_pnl (forget_orders s) = m_pnl s"
  "entry_calls (forget_orders s) = entry_calls s" "m_instrument (forget_orders s) = m_instrument s"
  "is_null_order (m_initial_order (forget_orders s))" "is_null_order (m_hedge_order (forget_orders s))"
  by (simp_all add: forget_orders_def)





section \<open>A concrete run\<close>

definition demo_snapshot :: OrderBookSnapShot where
  "demo_snapshot = new_snapshot\<lparr>ss_instrument := Some 1, ss_bids := [level 99 1], ss_asks := [level 101 1],
     ss_bids_size := 1, ss_asks_size := 1\<rparr>"

definition demo_estimator :: "real \<Rightarrow> VolatilityEstimator" where
  "demo_estimator p = \<lparr>prices = replicate 150 p, ve_current_price = p, ve_prev_price = p\<rparr>"

definition demo_run :: "CaptureStatus \<Rightarrow> real \<Rightarrow> MeanReversionRun" where
  "demo_run st p = new_run 1 (new_instrument BINANCE PERPETUAL ''BTC-PERPETUAL'' ''BTC'' 3 1 0) (1 / 100)
     \<lparr>spread_capture = (new_capture 2 1 (4 / 5) 2)\<lparr>capture_status := st\<rparr>, volatility_estimator = demo_estimator p\<rparr>"

lemma demo_shows: "shows_mid (demo_run st p) demo_snapshot 100"
  by (simp add: shows_mid_def demo_run_def demo_snapshot_def new_run_def get_mid_price_def get_best_bid_def
      get_best_ask_def vec_at_def)


lemma demo_mean: "mean (estimator_update (demo_estimator p) 100) = (149 * p + 100) / 150"
  by (simp add: mean_def prices_update demo_estimator_def WINDOW_def foldl_plus sum_list_replicate)

lemma demo_parts [simp]:
  "capture_status (capture (demo_run st p)) = st" "estimator (demo_run st p) = demo_estimator p"
  "initial_order (capture (demo_run st p)) = null_order" "hedge_order (capture (demo_run st p)) = null_order"
  "m_initial_order (demo_run st p) = null_order" "volume (m_pnl (demo_run st p)) = 0" "entry_calls (demo_run st p) = []"
  by (simp_all add: demo_run_def new_run_def new_capture_def new_pnl_def update_pnl_instrument_def)

lemma null_order_status [simp]: "status null_order = NOT_AVAILABLE"
  by (simp add: null_order_def make_order_def)

theorem hedge_is_repeated_until_acknowledged_witness:
  "\<exists>s' os. sum_fold run_step (demo_run PLACING_HEDGE_ORDER 100) (map (\<lambda>(oid, sn). Snapshot oid sn) [(1, demo_snapshot), (2, demo_snapshot)]) = Inr s' \<and>
     entry_calls s' = map Place os \<and> length os = 2"
proof -
  let ?s = "demo_run PLACING_HEDGE_ORDER 100" and ?sns = "[(1, demo_snapshot), (2::nat, demo_snapshot)]"
  have "\<forall>(oid, sn) \<in> set ?sns. \<exists>p. shows_mid ?s sn p" using demo_shows by auto
  moreover have "entry_calls ?s @ xs = xs" "length ?sns = 2" for xs by simp_all
  ultimately show ?thesis
    using hedge_is_repeated_until_acknowledged [of ?s ?sns] unfolding demo_parts by fastforce
qed

theorem first_order_ignores_signal_side_witness:
  "\<exists>s' ord. run_step (demo_run NONE 50) (Snapshot 1 demo_snapshot) = Inr s' \<and> entry_calls s' = [Place ord] \<and>
     side (initial_order (capture s')) = SELL \<and> side ord = BUY"
  using first_order_ignores_signal_side [OF demo_shows [of NONE 50], of "make_order 7 REJECTED None BUY LIMIT 1 1" 1]
  by (auto simp: demo_mean make_order_def)

theorem no_orders_before_window_is_full_witness:
  "\<exists>s'. sum_fold run_step (run_begin (demo_run NONE 100)) (replicate 149 (Snapshot 1 demo_snapshot)) = Inr s' \<and>
     entry_calls s' = []"
  using no_orders_before_window_is_full [of "replicate 149 (Snapshot 1 demo_snapshot)" "demo_run NONE 100"]
    demo_shows [of NONE 100] by (auto simp: WINDOW_def shows_mid_def filter_replicate)



end
