(* ===== verification/Strategy_Base.thy ===== *)
theory Strategy_Base
  imports Order_Manager Volume_Stat Order_Book_Snapshot
begin

text \<open>
  What all strategies share (\<^verbatim>\<open>src/server_app/strategy\<close>): the states \<^verbatim>\<open>RUN\<close> and \<^verbatim>\<open>STOP\<close>, each an object with
  handlers, the dispatch of an update to the handlers of the current state, and the calls of
  \<^verbatim>\<open>end\<close> and \<^verbatim>\<open>begin\<close> when the state has changed. \<open>'s\<close> is the data of the state objects of one strategy.
  The locale \<open>strategy\<close> is what a strategy owes its base: handlers that keep an invariant.
\<close>

section \<open>States and updates\<close>

datatype StrategyState = STOP | RUN | UNKNOWN

text \<open>\<^verbatim>\<open>StrategyUpdateData\<close>, a variant of price, order, order book snapshot and trade.\<close>

datatype StrategyUpdateData =
    Price_data "nat option" real
  | Order_data Order
  | Snapshot_data OrderBookSnapShot
  | Trade_data TradeUpdate

text \<open>
  The virtual methods of the state objects. A handler may ask the clock for an order id, which is an
  argument here.
\<close>

record 's StrategyStates =
  begin_state :: "StrategyState \<Rightarrow> 's \<Rightarrow> cpp_error + 's"
  end_state :: "StrategyState \<Rightarrow> 's \<Rightarrow> cpp_error + 's"
  handle_price_update :: "StrategyState \<Rightarrow> 's \<Rightarrow> nat option \<Rightarrow> real \<Rightarrow> cpp_error + 's"
  handle_trade_update :: "StrategyState \<Rightarrow> 's \<Rightarrow> TradeUpdate \<Rightarrow> cpp_error + 's"
  handle_order_book_snapshot :: "StrategyState \<Rightarrow> nat \<Rightarrow> 's \<Rightarrow> OrderBookSnapShot \<Rightarrow> cpp_error + 's"
  handle_order_update :: "StrategyState \<Rightarrow> nat \<Rightarrow> 's \<Rightarrow> Order \<Rightarrow> cpp_error + 's"

fun state_update :: "'s StrategyStates \<Rightarrow> StrategyState \<Rightarrow> nat \<Rightarrow> 's \<Rightarrow> StrategyUpdateData \<Rightarrow> cpp_error + 's" where
  "state_update h st oid s (Price_data ins p) = handle_price_update h st s ins p"
| "state_update h st oid s (Trade_data t) = handle_trade_update h st s t"
| "state_update h st oid s (Snapshot_data sn) = handle_order_book_snapshot h st oid s sn"
| "state_update h st oid s (Order_data ord) = handle_order_update h st oid s ord"

text \<open>\<^verbatim>\<open>m_states\<close> maps a state to a pointer; a pointer that is in the map may be null.\<close>

record 's StrategyBase =
  m_current_state :: StrategyState
  m_previous_state :: StrategyState
  m_states :: "StrategyState \<Rightarrow> bool option"
  body :: 's

definition new_strategy :: "StrategyState \<Rightarrow> 's \<Rightarrow> 's StrategyBase" where
  "new_strategy st s = \<lparr>m_current_state = st, m_previous_state = UNKNOWN, m_states = (\<lambda>_. None), body = s\<rparr>"

definition call_state :: "('s \<Rightarrow> cpp_error + 's) \<Rightarrow> StrategyState \<Rightarrow> 's StrategyBase \<Rightarrow> cpp_error + 's StrategyBase" where
  "call_state f st b =
     (case m_states b st of
        None \<Rightarrow> Inr b
      | Some True \<Rightarrow> sum_bind (f (body b)) (\<lambda>s. Inr (b\<lparr>body := s\<rparr>))
      | Some False \<Rightarrow> Inl UB_null_pointer)"

definition change_state :: "'s StrategyStates \<Rightarrow> 's StrategyBase \<Rightarrow> cpp_error + 's StrategyBase" where
  "change_state h b =
     (if m_previous_state b \<noteq> m_current_state b
      then sum_bind (call_state (end_state h (m_previous_state b)) (m_previous_state b) b)
             (call_state (begin_state h (m_current_state b)) (m_current_state b))
      else Inr b)"

definition strategy_update :: "'s StrategyStates \<Rightarrow> nat \<Rightarrow> 's StrategyBase \<Rightarrow> StrategyUpdateData \<Rightarrow> cpp_error + 's StrategyBase" where
  "strategy_update h oid b d =
     sum_bind (change_state h b) (\<lambda>b.
       let b = b\<lparr>m_previous_state := m_current_state b\<rparr>
       in case m_states b (m_current_state b) of
            Some True \<Rightarrow> sum_bind (state_update h (m_current_state b) oid (body b) d) (\<lambda>s. Inr (b\<lparr>body := s\<rparr>))
          | _ \<Rightarrow> Inl UB_null_pointer)"

section \<open>What a strategy owes its base\<close>

text \<open>
  \<open>inv\<close> is kept by every method, the methods do not throw under it for acceptable updates, and a
  stopped strategy does what \<open>harmless\<close> allows only.
\<close>

locale strategy =
  fixes h :: "'s StrategyStates" and inv :: "'s \<Rightarrow> bool" and acceptable :: "StrategyUpdateData \<Rightarrow> bool"
    and calls :: "'s \<Rightarrow> 'c list" and harmless :: "'c \<Rightarrow> bool"
  assumes begin_ok: "inv s \<Longrightarrow> st \<noteq> UNKNOWN \<Longrightarrow> \<exists>s'. begin_state h st s = Inr s' \<and> inv s' \<and> calls s' = calls s"
    and end_ok: "inv s \<Longrightarrow> st \<noteq> UNKNOWN \<Longrightarrow> \<exists>s' cs. end_state h st s = Inr s' \<and> inv s' \<and> calls s' = calls s @ cs \<and> list_all harmless cs"
    and update_ok: "inv s \<Longrightarrow> st \<noteq> UNKNOWN \<Longrightarrow> acceptable d \<Longrightarrow> \<exists>s'. state_update h st oid s d = Inr s' \<and> inv s'"
    and stop_silent: "state_update h STOP oid s d = Inr s' \<Longrightarrow> calls s' = calls s"
begin

definition ready :: "'s StrategyBase \<Rightarrow> bool" where
  "ready b \<longleftrightarrow> inv (body b) \<and> m_states b = [RUN \<mapsto> True, STOP \<mapsto> True] \<and> m_current_state b \<noteq> UNKNOWN"

lemma ready_slots:
  assumes "ready b"
  shows "m_states b st = (if st = UNKNOWN then None else Some True)"
  using assms by (cases st) (auto simp: ready_def)

lemma change_state_ok:
  assumes "ready b"
  obtains b' cs where "change_state h b = Inr b'" "ready b'" "m_current_state b' = m_current_state b"
    "calls (body b') = calls (body b) @ cs" "list_all harmless cs"
proof -
  have inv: "inv (body b)" and cur: "m_current_state b \<noteq> UNKNOWN" using assms by (auto simp: ready_def)
  note slots = ready_slots [OF assms]
  show thesis
  proof (cases "m_previous_state b = m_current_state b")
    case True
    then show ?thesis using that [of b "[]"] assms by (simp add: change_state_def)
  next
    case False
    obtain s1 cs where s1: "call_state (end_state h (m_previous_state b)) (m_previous_state b) b = Inr (b\<lparr>body := s1\<rparr>)"
      "inv s1" "calls s1 = calls (body b) @ cs" "list_all harmless cs"
    proof (cases "m_previous_state b = UNKNOWN")
      case True
      then show ?thesis using that [of "body b" "[]"] inv by (simp add: call_state_def slots)
    next
      case False
      with end_ok [OF inv False] show ?thesis using that by (auto simp: call_state_def slots)
    qed
    from begin_ok [OF s1(2) cur] obtain s2 where s2: "begin_state h (m_current_state b) s1 = Inr s2" "inv s2" "calls s2 = calls s1"
      by blast
    let ?b = "b\<lparr>body := s2\<rparr>"
    have "change_state h b = Inr ?b"
      using False s1(1) s2(1) cur by (simp add: change_state_def call_state_def slots)
    then show ?thesis using that [of ?b cs] assms s1 s2 by (simp add: ready_def)
  qed
qed

lemma update_keeps_ready:
  assumes "ready b" "acceptable d"
  obtains b' where "strategy_update h oid b d = Inr b'" "ready b'" "m_current_state b' = m_current_state b"
    "m_previous_state b' = m_current_state b"
    "m_current_state b = STOP \<Longrightarrow> \<exists>cs. calls (body b') = calls (body b) @ cs \<and> list_all harmless cs"
proof -
  obtain b1 cs where b1: "change_state h b = Inr b1" "ready b1" "m_current_state b1 = m_current_state b"
    "calls (body b1) = calls (body b) @ cs" "list_all harmless cs"
    using change_state_ok [OF assms(1)] by blast
  have inv: "inv (body b1)" and cur: "m_current_state b \<noteq> UNKNOWN" using b1 by (auto simp: ready_def)
  from update_ok [OF inv cur assms(2)] obtain s' where s': "state_update h (m_current_state b) oid (body b1) d = Inr s'" "inv s'"
    by blast
  show ?thesis
  proof (rule that)
    show "strategy_update h oid b d = Inr (b1\<lparr>m_previous_state := m_current_state b1, body := s'\<rparr>)"
      using b1 s' cur ready_slots [OF b1(2)] by (simp add: strategy_update_def Let_def)
    show "ready (b1\<lparr>m_previous_state := m_current_state b1, body := s'\<rparr>)"
      using b1(2) s'(2) by (simp add: ready_def)
    show "\<exists>cs. calls (body (b1\<lparr>m_previous_state := m_current_state b1, body := s'\<rparr>)) = calls (body b) @ cs \<and> list_all harmless cs"
      if "m_current_state b = STOP"
      using stop_silent s'(1) b1(4, 5) that by auto
  qed (use b1(3) in simp_all)
qed

end

end
