(* ===== verification/Mean_Reversion_Strategy.thy ===== *)
theory Mean_Reversion_Strategy
  imports Mean_Reversion Strategy_Base
begin

text \<open>
  The mean reversion strategy as a whole (\<^verbatim>\<open>strategy_mean_reversion.cpp\<close>): its running and its stopped
  state on the base of all strategies, and its configuration. Work of a strategy is tasks on its event loop,
  which run to their end in the order of the queue; the task that installs a new configuration
  queues another one that creates new state objects.
\<close>

section \<open>States\<close>

record MeanReversionStates =
  run_state :: MeanReversionRun
  stop_price :: real

definition stop_order_book_snapshot :: "MeanReversionStates \<Rightarrow> OrderBookSnapShot \<Rightarrow> cpp_error + MeanReversionStates" where
  "stop_order_book_snapshot s sn =
     sum_bind (get_mid_price sn) (\<lambda>mid.
       sum_bind (manager_order_book_snapshot (m_spread_captures (run_state s)) sn) (\<lambda>m.
         Inr (s\<lparr>stop_price := mid, run_state := (run_state s)\<lparr>m_spread_captures := m\<rparr>\<rparr>)))"

definition in_run :: "MeanReversionStates \<Rightarrow> cpp_error + MeanReversionRun \<Rightarrow> cpp_error + MeanReversionStates" where
  "in_run s r = sum_bind r (\<lambda>r'. Inr (s\<lparr>run_state := r'\<rparr>))"

definition mean_reversion_states :: "MeanReversionStates StrategyStates" where
  "mean_reversion_states =
     \<lparr>begin_state = (\<lambda>st s. if st = RUN then in_run s (Inr (run_begin (run_state s))) else Inr s),
      end_state = (\<lambda>st s. if st = RUN then in_run s (Inr (run_end (run_state s))) else Inr s),
      handle_price_update = (\<lambda>st s ins p. if st = RUN then in_run s (Inr (run_price_update (run_state s) p)) else Inr s),
      handle_trade_update = (\<lambda>st s tr. Inr s),
      handle_order_book_snapshot = (\<lambda>st oid s sn. if st = RUN then in_run s (run_order_book_snapshot (run_state s) oid sn)
        else stop_order_book_snapshot s sn),
      handle_order_update = (\<lambda>st oid s ord. if st = RUN then in_run s (run_order_update (run_state s) oid ord) else Inr s)\<rparr>"

section \<open>Configuration and tasks\<close>

record MeanReversionConfig =
  cfg_instrument :: nat
  cfg_instrument_object :: Instrument
  cfg_volume :: real
  spread_capture_config :: SpreadCaptureConfig
  is_real_trading :: bool
  is_running :: bool

datatype strategy_task = Init_task | Update_task nat StrategyUpdateData | Apply_config MeanReversionConfig

record MeanReversionStrategy =
  base :: "MeanReversionStates StrategyBase"
  m_config :: MeanReversionConfig
  simulator_active :: bool
  loop_tasks :: "strategy_task list"

text \<open>The calls made so far stay recorded when the state objects are replaced.\<close>

definition init_states :: "MeanReversionStrategy \<Rightarrow> MeanReversionStrategy" where
  "init_states p =
     (let r = run_state (body (base p));
          m = manager_reset (init_from_config (m_spread_captures r) (spread_capture_config (m_config p)));
          r' = (new_run (cfg_instrument (m_config p)) (cfg_instrument_object (m_config p)) (cfg_volume (m_config p)) m)
                 \<lparr>entry_calls := entry_calls r\<rparr>
      in p\<lparr>base := (base p)\<lparr>m_states := [RUN \<mapsto> True, STOP \<mapsto> True], body := \<lparr>run_state = r', stop_price = 0\<rparr>\<rparr>\<rparr>)"

definition on_config_change :: "MeanReversionStrategy \<Rightarrow> MeanReversionConfig \<Rightarrow> MeanReversionStrategy" where
  "on_config_change p c =
     p\<lparr>loop_tasks := loop_tasks p @ [Init_task],
       base := (base p)\<lparr>m_current_state := (if is_running c then RUN else STOP)\<rparr>\<rparr>"

definition apply_config :: "MeanReversionStrategy \<Rightarrow> MeanReversionConfig \<Rightarrow> MeanReversionStrategy" where
  "apply_config p c = on_config_change (p\<lparr>m_config := c, simulator_active := \<not> is_real_trading c\<rparr>) c"

fun run_task :: "MeanReversionStrategy \<Rightarrow> strategy_task \<Rightarrow> cpp_error + MeanReversionStrategy" where
  "run_task p Init_task = Inr (init_states p)"
| "run_task p (Update_task oid d) =
     sum_bind (strategy_update mean_reversion_states oid (base p) d) (\<lambda>b. Inr (p\<lparr>base := b\<rparr>))"
| "run_task p (Apply_config c) = Inr (apply_config p c)"

text \<open>A task arrives, or the loop takes the first one.\<close>

datatype loop_event = Arrive strategy_task | Work

fun loop_step :: "MeanReversionStrategy \<Rightarrow> loop_event \<Rightarrow> cpp_error + MeanReversionStrategy" where
  "loop_step p (Arrive t) = Inr (p\<lparr>loop_tasks := loop_tasks p @ [t]\<rparr>)"
| "loop_step p Work =
     (case loop_tasks p of [] \<Rightarrow> Inr p | t # ts \<Rightarrow> run_task (p\<lparr>loop_tasks := ts\<rparr>) t)"

text \<open>At the start: the configuration and the state of the database, and the first task.\<close>

definition load_strategy :: "MeanReversionConfig \<Rightarrow> StrategyState \<Rightarrow> MeanReversionStrategy" where
  "load_strategy c st =
     \<lparr>base = new_strategy st \<lparr>run_state = new_run (cfg_instrument c) (cfg_instrument_object c) (cfg_volume c)
          \<lparr>spread_capture = new_capture (5 / 2) (3 / 2) (1 / 5) 2, volatility_estimator = new_estimator\<rparr>, stop_price = 0\<rparr>,
      m_config = c, simulator_active = False, loop_tasks = [Init_task]\<rparr>"

section \<open>The contract of the base\<close>














section \<open>The whole strategy\<close>






lemma init_states_tasks [simp]: "loop_tasks (init_states p) = loop_tasks p"
  by (simp add: init_states_def Let_def)


text \<open>What one event may add to the calls.\<close>

definition calls_of :: "MeanReversionStrategy \<Rightarrow> entry_call list" where
  "calls_of p = entry_calls (run_state (body (base p)))"





definition demo_config :: "bool \<Rightarrow> MeanReversionConfig" where
  "demo_config r = \<lparr>cfg_instrument = 1, cfg_instrument_object = new_instrument BINANCE PERPETUAL ''BTC-PERPETUAL'' ''BTC'' 3 1 0,
     cfg_volume = 1 / 100, spread_capture_config = new_capture 2 1 (4 / 5) 2, is_real_trading = True, is_running = r\<rparr>"



text \<open>
  A configuration that arrives while the strategy runs and leaves it running replaces the state objects without
  a call of \<^verbatim>\<open>end\<close> or \<^verbatim>\<open>begin\<close>: the account starts again from zero, whatever position it held, the orders
  that were placed are forgotten and the estimator starts empty, but no order is cancelled, neither by the
  replacement nor by the next update.
\<close>

theorem config_change_forgets_position:
  assumes "m_current_state (base p) = RUN" "m_previous_state (base p) = RUN" "is_running c" "loop_tasks p = []"
  defines "q \<equiv> init_states ((apply_config p c)\<lparr>loop_tasks := []\<rparr>)"
  shows "sum_fold loop_step p [Arrive (Apply_config c), Work, Work] = Inr q \<and>
    calls_of q = calls_of p \<and> volume (m_pnl (run_state (body (base q)))) = 0 \<and>
    realized (m_pnl (run_state (body (base q)))) = 0 \<and>
    is_null_order (m_initial_order (run_state (body (base q)))) \<and> is_null_order (m_hedge_order (run_state (body (base q)))) \<and>
    prices (estimator (run_state (body (base q)))) = [] \<and> change_state mean_reversion_states (base q) = Inr (base q)"
proof -
  have "loop_tasks (apply_config p c) = [Init_task]" using assms(4) by (simp add: apply_config_def on_config_change_def)
  then have "sum_fold loop_step p [Arrive (Apply_config c), Work, Work] = Inr q"
    using assms(4) by (simp add: q_def apply_config_def on_config_change_def)
  moreover have "m_current_state (base q) = RUN" "m_previous_state (base q) = RUN"
    using assms(1-3) by (simp_all add: q_def init_states_def Let_def apply_config_def on_config_change_def)
  ultimately show ?thesis
    by (simp add: change_state_def)
      (simp add: q_def init_states_def Let_def calls_of_def new_run_def apply_config_def on_config_change_def new_pnl_def
        update_pnl_instrument_def manager_reset_def estimator_reset_def init_from_config_def)
qed

definition demo_running :: MeanReversionStrategy where
  "demo_running = (load_strategy (demo_config True) RUN)
     \<lparr>loop_tasks := [], base := (base (load_strategy (demo_config True) RUN))\<lparr>m_previous_state := RUN\<rparr>\<rparr>"

theorem config_change_forgets_position_witness:
  "\<exists>q. sum_fold loop_step demo_running [Arrive (Apply_config (demo_config True)), Work, Work] = Inr q \<and>
     calls_of q = [] \<and> volume (m_pnl (run_state (body (base q)))) = 0"
proof -
  have "m_current_state (base demo_running) = RUN" "m_previous_state (base demo_running) = RUN"
    "is_running (demo_config True)" "loop_tasks demo_running = []" "calls_of demo_running = []"
    by (simp_all add: demo_running_def load_strategy_def new_strategy_def demo_config_def calls_of_def new_run_def)
  with config_change_forgets_position [of demo_running "demo_config True"] show ?thesis by metis
qed

end
