(* ===== verification/Utils.thy ===== *)
theory Utils
  imports Cpp_Strings "HOL-Library.Monad_Syntax"
begin

text \<open>
  Helpers of the whole program (\<^verbatim>\<open>src/core/utils/utils.cpp\<close>): splitting of strings, base64, texts of
  durations and the filter of repeated messages. Strings are shorter than \<open>2\<^sup>31\<close> characters, so that
  the positions the code keeps in an \<^verbatim>\<open>int\<close> are exact. Functions that read the clock take its value.
\<close>

section \<open>split_string\<close>

text \<open>
  The loop, from a start position. It pushes a part for every delimiter found and the rest at the
  end, since \<^verbatim>\<open>str.size() - start >= 0\<close> holds for every unsigned difference. A loop that does not
  end has no value.
\<close>

partial_function (option) split_loop :: "string \<Rightarrow> string \<Rightarrow> nat \<Rightarrow> string list option" where
  "split_loop str del start =
     (case find_from str del start of
        None \<Rightarrow> Some [drop start str]
      | Some stop \<Rightarrow>
          Option.bind (split_loop str del (stop + length del))
            (\<lambda>parts. Some (take (stop - start) (drop start str) # parts)))"

definition split_string :: "string \<Rightarrow> string \<Rightarrow> string list option" where
  "split_string str del = split_loop str del 0"

fun join :: "string \<Rightarrow> string list \<Rightarrow> string" where
  "join del [] = []"
| "join del [p] = p"
| "join del (p # ps) = p @ del @ join del ps"

lemma find_sub_first:
  "find_sub pat s = Some i \<Longrightarrow> find_sub pat (take i s) = None \<or> pat = []"
proof (induction s arbitrary: i)
  case (Cons c s)
  show ?case
  proof (cases "take (length pat) (c # s) = pat")
    case False
    then obtain j where j: "i = Suc j" "find_sub pat s = Some j" using Cons.prems by auto
    have "take (length pat) (c # take j s) \<noteq> pat \<or> pat = []"
    proof (rule ccontr)
      assume "\<not> ?thesis"
      then have t: "take (length pat) (take i (c # s)) = pat" and "pat \<noteq> []" by (auto simp: j)
      then have "length pat \<le> i" by (metis length_take min.cobounded2 min.commute min_def order.trans take_take)
      with t False show False by (simp add: min_absorb1)
    qed
    then show ?thesis using Cons.IH [OF j(2)] j(1) by auto
  qed (use Cons.prems in auto)
qed (auto split: if_splits)

lemma split_loop_parts:
  assumes "del \<noteq> []" "start \<le> length str"
  shows "\<exists>ps. split_loop str del start = Some ps \<and> ps \<noteq> [] \<and> join del ps = drop start str \<and>
    (\<forall>p \<in> set ps. find_sub del p = None)"
  using assms(2)
proof (induction "length str - start" arbitrary: start rule: less_induct)
  case less
  show ?case
  proof (cases "find_from str del start")
    case None
    then have "find_sub del (drop start str) = None" using less.prems by (auto simp: find_from_def)
    then show ?thesis using None by (simp add: split_loop.simps)
  next
    case (Some stop)
    then obtain i where i: "find_sub del (drop start str) = Some i" "stop = start + i"
      using less.prems by (auto simp: find_from_def)
    have b: "i + length del \<le> length str - start" using find_sub_bound [OF i(1)] by simp
    have "length str - (stop + length del) < length str - start" "stop + length del \<le> length str"
      using b i(2) assms(1) less.prems by (cases del; simp)+
    from less.hyps [OF this] obtain ps where ps: "split_loop str del (stop + length del) = Some ps" "ps \<noteq> []"
      "join del ps = drop (stop + length del) str" "\<forall>p \<in> set ps. find_sub del p = None" by blast
    let ?p = "take i (drop start str)"
    have "drop start str = ?p @ drop stop str" using i(2) by (simp add: add.commute flip: drop_drop)
    also have "drop stop str = del @ drop (stop + length del) str"
      using find_sub_take_drop [OF i(1)] append_take_drop_id [of "length del" "drop stop str"]
      by (simp add: i(2) add.commute add.left_commute)
    finally have "join del (?p # ps) = drop start str" using ps(2, 3) by (cases ps) simp_all
    moreover have "find_sub del ?p = None" using find_sub_first [OF i(1)] assms(1) by blast
    ultimately show ?thesis
      using Some ps i(2) by (subst split_loop.simps) simp
  qed
qed

lemma find_sub_Nil [simp]: "find_sub [] s = Some 0"
  by (cases s) simp_all

lemma split_loop_empty_delimiter:
  assumes "start \<le> length str"
  shows "split_loop str [] start = None"
proof (cases "split_loop str [] start")
  case (Some ps)
  have "split_loop str [] start = Option.bind (split_loop str [] start) (\<lambda>parts. Some ([] # parts))"
    using assms by (subst split_loop.simps) (simp add: find_from_def)
  then have "ps = [] # ps" using Some by simp
  then show ?thesis by (metis length_Cons n_not_Suc_n)
qed

text \<open>
  (C29) With a delimiter \<^verbatim>\<open>split_string\<close> returns, its parts joined by the delimiter give the string back, and no part
  contains the delimiter; with an empty delimiter it never returns.
\<close>

theorem split_string_splits:
  "(del \<noteq> [] \<longrightarrow> (\<exists>ps. split_string str del = Some ps \<and> ps \<noteq> [] \<and> join del ps = str \<and>
      (\<forall>p \<in> set ps. find_sub del p = None))) \<and>
   split_string str [] = None"
  using split_loop_parts [of del 0 str] split_loop_empty_delimiter [of 0 str] by (simp add: split_string_def)

theorem split_string_splits_witness:
  "\<exists>ps. split_string ''a=b=c'' ''='' = Some ps \<and> join ''='' ps = ''a=b=c''"
  using split_string_splits [of "''=''" "''a=b=c''"] by auto

section \<open>base64\<close>

definition base64_chars :: string where
  "base64_chars = ''ABCDEFGHIJKLMNOPQRSTUVWXYZabcdefghijklmnopqrstuvwxyz0123456789+/''"

definition is_base64 :: "char \<Rightarrow> bool" where
  "is_base64 c \<longleftrightarrow> cpp_isdigit c \<or> (65 \<le> (of_char c :: nat) \<and> (of_char c :: nat) \<le> 90) \<or>
     (97 \<le> (of_char c :: nat) \<and> (of_char c :: nat) \<le> 122) \<or> c = CHR ''+'' \<or> c = CHR ''/''"

text \<open>The four six-bit numbers of three bytes and back.\<close>

definition char_array_4 :: "byte \<Rightarrow> byte \<Rightarrow> byte \<Rightarrow> byte list" where
  "char_array_4 a b c =
     [drop_bit 2 (a AND 0xfc),
      push_bit 4 (a AND 0x03) + drop_bit 4 (b AND 0xf0),
      push_bit 2 (b AND 0x0f) + drop_bit 6 (c AND 0xc0),
      c AND 0x3f]"

definition char_array_3 :: "byte \<Rightarrow> byte \<Rightarrow> byte \<Rightarrow> byte \<Rightarrow> byte list" where
  "char_array_3 w x y z =
     [push_bit 2 w + drop_bit 4 (x AND 0x30),
      push_bit 4 (x AND 0xf) + drop_bit 2 (y AND 0x3c),
      push_bit 6 (y AND 0x3) + z]"

definition base64_char :: "byte \<Rightarrow> char" where
  "base64_char x = base64_chars ! unat x"

text \<open>\<^verbatim>\<open>base64_chars.find(c)\<close> as a byte: a character that is not found becomes 255.\<close>

definition base64_index :: "char \<Rightarrow> byte" where
  "base64_index c = (case find_first_of [c] base64_chars of Some i \<Rightarrow> of_nat i | None \<Rightarrow> 255)"

text \<open>The loops collect bytes in an array \<open>arr\<close> of three, characters in one of four.\<close>

fun base64_encode_loop :: "byte list \<Rightarrow> byte list \<Rightarrow> string \<Rightarrow> byte list \<times> string" where
  "base64_encode_loop arr [] ret = (arr, ret)"
| "base64_encode_loop arr (b # bs) ret =
     (case arr @ [b] of
        [x, y, z] \<Rightarrow> base64_encode_loop [] bs (ret @ map base64_char (char_array_4 x y z))
      | arr' \<Rightarrow> base64_encode_loop arr' bs ret)"

definition base64_encode :: "byte list \<Rightarrow> string" where
  "base64_encode bs =
     (case base64_encode_loop [] bs [] of (arr, ret) \<Rightarrow>
        case arr @ replicate (3 - length arr) 0 of
          [x, y, z] \<Rightarrow>
            if arr = [] then ret
            else ret @ map base64_char (take (length arr + 1) (char_array_4 x y z)) @ replicate (3 - length arr) (CHR ''='')
        | _ \<Rightarrow> ret)"

fun base64_decode_loop :: "string \<Rightarrow> string \<Rightarrow> byte list \<Rightarrow> string \<times> byte list" where
  "base64_decode_loop arr [] ret = (arr, ret)"
| "base64_decode_loop arr (c # cs) ret =
     (if c = CHR ''='' \<or> \<not> is_base64 c then (arr, ret)
      else
        case arr @ [c] of
          [w, x, y, z] \<Rightarrow>
            base64_decode_loop [] cs (ret @ char_array_3 (base64_index w) (base64_index x) (base64_index y) (base64_index z))
        | arr' \<Rightarrow> base64_decode_loop arr' cs ret)"

definition base64_decode :: "string \<Rightarrow> byte list" where
  "base64_decode s =
     (case base64_decode_loop [] s [] of (arr, ret) \<Rightarrow>
        case arr @ replicate (4 - length arr) (CHR 0x00) of
          [w, x, y, z] \<Rightarrow>
            if arr = [] then ret
            else ret @ take (length arr - 1)
                   (char_array_3 (base64_index w) (base64_index x) (base64_index y) (base64_index z))
        | _ \<Rightarrow> ret)"

lemma byte_bound: "unat (a :: byte) < 256"
  using unsigned_less [of a, where 'a = nat] by simp

lemma unat_take_bit: "unat (take_bit n (a :: byte)) = unat a mod 2 ^ n"
  unfolding unsigned_take_bit_eq by (rule take_bit_eq_mod)

lemma unat_drop_bit: "unat (drop_bit n (a :: byte)) = unat a div 2 ^ n"
  unfolding unat_drop_bit_eq by (rule drop_bit_eq_div)

lemma unat_push_bit: "unat (push_bit n (a :: byte)) = unat a * 2 ^ n mod 256"
  unfolding unsigned_push_bit_eq by (simp add: take_bit_eq_mod push_bit_eq_mult)

lemma byte_masks:
  fixes a :: byte
  shows "a AND 0x03 = take_bit 2 a" "a AND 0x0f = take_bit 4 a" "a AND 0x3f = take_bit 6 a"
    "drop_bit 2 (a AND 0xfc) = take_bit 6 (drop_bit 2 a)" "drop_bit 4 (a AND 0xf0) = take_bit 4 (drop_bit 4 a)"
    "drop_bit 6 (a AND 0xc0) = take_bit 2 (drop_bit 6 a)" "drop_bit 4 (a AND 0x30) = take_bit 2 (drop_bit 4 a)"
    "drop_bit 2 (a AND 0x3c) = take_bit 4 (drop_bit 2 a)"
  by (simp_all add: take_bit_eq_mask mask_eq_exp_minus_1)

lemmas unat_bits = byte_masks unat_take_bit unat_drop_bit unat_push_bit

lemma unat_sum_byte: "unat (a + b :: byte) = (unat a + unat b) mod 256"
  by (simp add: unat_word_ariths)

lemma char_array_4_values:
  "map unat (char_array_4 a b c) =
     [unat a div 4, unat a mod 4 * 16 + unat b div 16, unat b mod 16 * 4 + unat c div 64, unat c mod 64]"
proof -
  have d: "x < 256 \<Longrightarrow> x div 4 < 64 \<and> x div 16 < 16 \<and> x div 64 < 4" for x :: nat by auto
  have m: "x mod 4 * 16 \<le> 48" "x mod 16 * 4 \<le> 60" for x :: nat by auto
  show ?thesis
    using d [OF byte_bound [of a]] d [OF byte_bound [of b]] d [OF byte_bound [of c]] m [of "unat a"] m [of "unat b"]
    by (simp add: char_array_4_def unat_bits unat_sum_byte)
qed

lemma char_array_3_values:
  "map unat (char_array_3 w x y z) =
     [(unat w * 4 + unat x div 16 mod 4) mod 256, (unat x mod 16 * 16 + unat y div 4 mod 16) mod 256,
      (unat y mod 4 * 64 + unat z) mod 256]"
  by (simp add: char_array_3_def unat_bits unat_sum_byte mod_simps)

lemma bits_back:
  fixes a b c :: nat
  assumes "a < 256" "b < 256" "c < 256"
  shows "(a div 4 * 4 + (a mod 4 * 16 + b div 16) div 16 mod 4) mod 256 = a"
    "((a mod 4 * 16 + b div 16) mod 16 * 16 + (b mod 16 * 4 + c div 64) div 4 mod 16) mod 256 = b"
    "((b mod 16 * 4 + c div 64) mod 4 * 64 + c mod 64) mod 256 = c"
proof -
  have part: "q < k \<Longrightarrow> (m * k + q) div k = m \<and> (m * k + q) mod k = q" for m k q :: nat by simp
  have "b div 16 < 16" "c div 64 < 4" using assms by auto
  then have "(a mod 4 * 16 + b div 16) div 16 mod 4 = a mod 4" "(a mod 4 * 16 + b div 16) mod 16 = b div 16"
    "(b mod 16 * 4 + c div 64) div 4 mod 16 = b mod 16" "(b mod 16 * 4 + c div 64) mod 4 = c div 64"
    using part [of "b div 16" 16 "a mod 4"] part [of "c div 64" 4 "b mod 16"] by simp_all
  then show "(a div 4 * 4 + (a mod 4 * 16 + b div 16) div 16 mod 4) mod 256 = a"
    "((a mod 4 * 16 + b div 16) mod 16 * 16 + (b mod 16 * 4 + c div 64) div 4 mod 16) mod 256 = b"
    "((b mod 16 * 4 + c div 64) mod 4 * 64 + c mod 64) mod 256 = c"
    using assms by simp_all
qed

text \<open>Six-bit numbers: what \<open>char_array_4\<close> computes, and that the alphabet is read back.\<close>

lemma char_array_3_of_4:
  assumes "char_array_4 a b c = [w, x, y, z]"
  shows "char_array_3 w x y z = [a, b, c]"
proof -
  have "map unat [w, x, y, z] = [unat a div 4, unat a mod 4 * 16 + unat b div 16, unat b mod 16 * 4 + unat c div 64, unat c mod 64]"
    unfolding assms [symmetric] by (rule char_array_4_values)
  then have v: "unat w = unat a div 4" "unat x = unat a mod 4 * 16 + unat b div 16"
    "unat y = unat b mod 16 * 4 + unat c div 64" "unat z = unat c mod 64"
    by (simp_all only: list.map list.inject)
  have "map unat (char_array_3 w x y z) = map unat [a, b, c]"
    unfolding char_array_3_values v by (simp only: list.map bits_back [OF byte_bound [of a] byte_bound [of b] byte_bound [of c]])
  moreover have "inj (unat :: byte \<Rightarrow> nat)" by (rule injI) (rule unsigned_word_eqI)
  ultimately show ?thesis by (rule map_injective)
qed

lemma char_array_4_small:
  assumes "x \<in> set (char_array_4 a b c)"
  shows "unat x < 64"
proof -
  have "\<forall>n \<in> set (map unat (char_array_4 a b c)). n < 64"
    unfolding char_array_4_values using byte_bound [of a] byte_bound [of b] byte_bound [of c] by auto
  then show ?thesis using assms by simp
qed

lemma find_first_of_nth:
  "distinct xs \<Longrightarrow> i < length xs \<Longrightarrow> find_first_of [xs ! i] xs = Some i"
proof (induction xs arbitrary: i)
  case (Cons y ys)
  then show ?case by (cases i) (auto simp: nth_mem)
qed simp

lemma base64_alphabet: "distinct base64_chars" "length base64_chars = 64" "list_all is_base64 base64_chars" "CHR ''='' \<notin> set base64_chars"
  by (simp_all add: base64_chars_def is_base64_def cpp_isdigit_def)

lemma base64_char_back:
  assumes "unat x < 64"
  shows "base64_index (base64_char x) = x" "is_base64 (base64_char x)" "base64_char x \<noteq> CHR ''=''"
proof -
  have i: "unat x < length base64_chars" using assms base64_alphabet by simp
  then show "base64_index (base64_char x) = x"
    by (simp add: base64_index_def base64_char_def find_first_of_nth [OF base64_alphabet(1)])
  have "base64_char x \<in> set base64_chars" using i by (simp add: base64_char_def)
  then show "is_base64 (base64_char x)" "base64_char x \<noteq> CHR ''=''"
    using base64_alphabet(3, 4) by (auto simp: list_all_iff)
qed

section \<open>Encoding and decoding\<close>

text \<open>Three bytes become four characters; the last group is filled up.\<close>

fun base64_spec :: "byte list \<Rightarrow> string" where
  "base64_spec (a # b # c # bs) = map base64_char (char_array_4 a b c) @ base64_spec bs"
| "base64_spec [a, b] = map base64_char (take 3 (char_array_4 a b 0)) @ ''=''"
| "base64_spec [a] = map base64_char (take 2 (char_array_4 a 0 0)) @ ''==''"
| "base64_spec [] = []"

lemma base64_encode_spec: "base64_encode bs = base64_spec bs"
proof -
  have "(case base64_encode_loop [] bs ret of (arr, ret) \<Rightarrow>
        case arr @ replicate (3 - length arr) 0 of
          [x, y, z] \<Rightarrow>
            if arr = [] then ret
            else ret @ map base64_char (take (length arr + 1) (char_array_4 x y z)) @ replicate (3 - length arr) (CHR ''='')
        | _ \<Rightarrow> ret) = ret @ base64_spec bs" for ret
    by (induction bs arbitrary: ret rule: base64_spec.induct) (simp_all add: numeral_3_eq_3 numeral_2_eq_2)
  then show ?thesis by (simp add: base64_encode_def)
qed

lemma decode_group:
  assumes "unat w < 64" "unat x < 64" "unat y < 64" "unat z < 64"
  shows "base64_decode_loop [] (map base64_char [w, x, y, z] @ s) ret = base64_decode_loop [] s (ret @ char_array_3 w x y z)"
  using assms by (simp add: base64_char_back)

text \<open>
  (C28) Decoding an encoded text gives the bytes back, for every sequence of bytes; the text has four
  characters for every three bytes begun.
\<close>

theorem base64_round_trip:
  "base64_decode (base64_encode bs) = bs \<and> length (base64_encode bs) = 4 * ((length bs + 2) div 3)"
proof
  have "(case base64_decode_loop [] (base64_spec bs) ret of (arr, ret) \<Rightarrow>
        case arr @ replicate (4 - length arr) (CHR 0x00) of
          [w, x, y, z] \<Rightarrow>
            if arr = [] then ret
            else ret @ take (length arr - 1)
                   (char_array_3 (base64_index w) (base64_index x) (base64_index y) (base64_index z))
        | _ \<Rightarrow> ret) = ret @ bs" for ret
  proof (induction bs arbitrary: ret rule: base64_spec.induct)
    case (1 a b c bs)
    obtain w x y z where q: "char_array_4 a b c = [w, x, y, z]" by (simp add: char_array_4_def)
    then have "unat w < 64" "unat x < 64" "unat y < 64" "unat z < 64"
      using char_array_4_small [of _ a b c] by simp_all
    then show ?case
      using 1 [of "ret @ [a, b, c]"] char_array_3_of_4 [OF q] decode_group by (simp add: q del: base64_decode_loop.simps)
  next
    case (2 a b)
    obtain w x y z where q: "char_array_4 a b 0 = [w, x, y, z]" by (simp add: char_array_4_def)
    then have "unat w < 64" "unat x < 64" "unat y < 64" using char_array_4_small [of _ a b 0] by simp_all
    then show ?case
      using char_array_3_of_4 [OF q] by (simp add: q base64_char_back char_array_3_def numeral_3_eq_3 numeral_2_eq_2)
  next
    case (3 a)
    obtain w x y z where q: "char_array_4 a 0 0 = [w, x, y, z]" by (simp add: char_array_4_def)
    then have "unat w < 64" "unat x < 64" using char_array_4_small [of _ a 0 0] by simp_all
    then show ?case
      using char_array_3_of_4 [OF q] by (simp add: q base64_char_back char_array_3_def numeral_3_eq_3 numeral_2_eq_2)
  qed (simp add: eval_nat_numeral)
  then show "base64_decode (base64_encode bs) = bs" by (simp add: base64_encode_spec base64_decode_def)
  have "length (base64_spec bs) = 4 * ((length bs + 2) div 3)"
  proof (induction bs rule: base64_spec.induct)
    case (1 a b c bs)
    have "(length (a # b # c # bs) + 2) div 3 = (length bs + 2) div 3 + 1" by simp
    then show ?case using 1 by (simp only: base64_spec.simps length_append length_map) (simp add: char_array_4_def)
  qed (simp_all add: char_array_4_def)
  then show "length (base64_encode bs) = 4 * ((length bs + 2) div 3)" by (simp add: base64_encode_spec)
qed

section \<open>Numbers and durations\<close>

definition utils_round_string_number :: "string \<Rightarrow> nat \<Rightarrow> cpp_error + string" where
  "utils_round_string_number str_number precision =
     (case find_first_of ''.'' str_number of
        Some point_pos \<Rightarrow> substr str_number 0 (point_pos + (if precision = 0 then 0 else precision + 1))
      | None \<Rightarrow> Inr str_number)"

fun find_first_not_of :: "string \<Rightarrow> string \<Rightarrow> nat option" where
  "find_first_not_of chars [] = None"
| "find_first_not_of chars (c # s) = (if c \<notin> set chars then Some 0 else map_option Suc (find_first_not_of chars s))"

text \<open>The position, or \<open>-1\<close>, minus one, converted to \<^verbatim>\<open>size_t\<close>.\<close>

definition get_decimal_digits :: "string \<Rightarrow> u64" where
  "get_decimal_digits s =
     word_of_int ((case find_first_not_of ''0.'' s of Some i \<Rightarrow> int i | None \<Rightarrow> -1) - 1)"

datatype RequestMethod = GET | POST | OPTIONS | HEAD | PUT | DELETE | PATCH | UNKNOWN_METHOD

definition get_request_method_string_by_id :: "RequestMethod \<Rightarrow> string" where
  "get_request_method_string_by_id m =
     (case m of GET \<Rightarrow> ''GET'' | POST \<Rightarrow> ''POST'' | PUT \<Rightarrow> ''PUT'' | DELETE \<Rightarrow> ''DELETE'' | _ \<Rightarrow> ''GET'')"

definition get_duration_string_from_nanoseconds :: "nat \<Rightarrow> string" where
  "get_duration_string_from_nanoseconds duration_ns =
     (let seconds = duration_ns div 1000000000;
          duration_ns = duration_ns mod 1000000000;
          milliseconds = duration_ns div 1000000;
          duration_ns = duration_ns mod 1000000;
          microseconds = duration_ns div 1000
      in size_to_string seconds @ ''s '' @ size_to_string milliseconds @ ''ms '' @ size_to_string microseconds @ ''us '')"

text \<open>Two digits at least (\<^verbatim>\<open>setfill('0')\<close>, \<^verbatim>\<open>setw(2)\<close>). The time now is not before the start.\<close>

definition two_digits :: "nat \<Rightarrow> string" where
  "two_digits n = (let s = size_to_string n in replicate (2 - length s) (CHR ''0'') @ s)"

definition get_up_time :: "nat \<Rightarrow> nat \<Rightarrow> string" where
  "get_up_time start_time now =
     (let up_time_in_seconds = (now - start_time) div 1000000000;
          hours = up_time_in_seconds div 3600;
          minutes = up_time_in_seconds mod 3600 div 60;
          seconds = up_time_in_seconds mod 60
      in two_digits hours @ '':'' @ two_digits minutes @ '':'' @ two_digits seconds)"

lemma zeros_then_digit:
  "find_first_not_of ''0.'' (''0.'' @ replicate n (CHR ''0'') @ d # s) = Some (n + 2)" if "d \<noteq> CHR ''0''" "d \<noteq> CHR ''.''"
  using that by (induction n) auto

text \<open>
  For a step such as \<^verbatim>\<open>0.001\<close> \<^verbatim>\<open>get_decimal_digits\<close> counts its decimals; for a step of one or more it wraps around.
\<close>

lemma decimal_digits_of_step:
  assumes "d \<noteq> CHR ''0''" "d \<noteq> CHR ''.''" "n < 2 ^ 63"
  shows "get_decimal_digits (''0.'' @ replicate n (CHR ''0'') @ d # s) = of_nat (n + 1)"
    "get_decimal_digits (d # s) = -1"
  using assms(1, 2) zeros_then_digit [OF assms(1, 2)] by (simp_all add: get_decimal_digits_def)

section \<open>DedupeChecker\<close>

text \<open>Messages whose hash was seen are taken for repeated; \<open>hash\<close> is \<^verbatim>\<open>std::hash\<close>.\<close>

definition is_duplicate :: "(string \<Rightarrow> nat) \<Rightarrow> nat set \<Rightarrow> string \<Rightarrow> bool \<times> nat set" where
  "is_duplicate hash seen_hashes msg = (hash msg \<in> seen_hashes, insert (hash msg) seen_hashes)"

fun check_all :: "(string \<Rightarrow> nat) \<Rightarrow> nat set \<Rightarrow> string list \<Rightarrow> bool list" where
  "check_all hash seen [] = []"
| "check_all hash seen (m # ms) =
     (case is_duplicate hash seen m of (dup, seen) \<Rightarrow> dup # check_all hash seen ms)"

lemma check_all_nth:
  "i < length ms \<Longrightarrow> check_all hash seen ms ! i \<longleftrightarrow> hash (ms ! i) \<in> seen \<union> hash ` set (take i ms)"
proof (induction ms arbitrary: i seen)
  case (Cons m ms)
  then show ?case by (cases i) (auto simp: is_duplicate_def)
qed simp

end
