(* ===== verification/HTTP_Server_Request.thy ===== *)
theory HTTP_Server_Request
  imports Utils Json_Parser HTTP_Client
begin

text \<open>
  Requests of the HTTP server (\<^verbatim>\<open>src/core/network/https_server/request\<close>): the text of a request is taken apart into
  method, URL, query parameters, headers and body, and the body into a JSON value, from JSON, form
  data or \<^verbatim>\<open>key=value\<close> pairs. A result \<open>None\<close> is a call that never returns; the JSON parser gets the fuel
  within which it returns if it ever does. Positions the code keeps in an \<^verbatim>\<open>int\<close> are integers,
  \<open>-1\<close> for not found; requests are shorter than \<open>2\<^sup>31\<close> bytes. An \<^verbatim>\<open>unordered_map\<close> is an
  association list, in which \<^verbatim>\<open>insert\<close> keeps the first entry of a key.
\<close>

section \<open>Calls that may throw or never return\<close>

type_synonym 'a call = "(cpp_error + 'a) option"

definition call_bind :: "'a call \<Rightarrow> ('a \<Rightarrow> 'b call) \<Rightarrow> 'b call" where
  "call_bind c f = (case c of None \<Rightarrow> None | Some (Inl e) \<Rightarrow> Some (Inl e) | Some (Inr x) \<Rightarrow> f x)"

lemma call_bind_simps [simp]:
  "call_bind None f = None" "call_bind (Some (Inl e)) f = Some (Inl e)" "call_bind (Some (Inr x)) f = f x"
  by (simp_all add: call_bind_def)

section \<open>Requests\<close>

record HttpRequest =
  request_method :: RequestMethod
  m_url :: string
  m_dir_path :: string
  m_query_string :: string
  m_query_params :: "(string \<times> string) list"
  m_header_params :: "(string \<times> string) list"
  m_body :: string
  m_body_json :: json
  m_client_ip :: string

definition blank_request :: "RequestMethod \<Rightarrow> string \<Rightarrow> HttpRequest" where
  "blank_request meth dir = \<lparr>request_method = meth, m_url = [], m_dir_path = dir, m_query_string = [], m_query_params = [],
     m_header_params = [], m_body = [], m_body_json = No_value, m_client_ip = []\<rparr>"

definition insert_param :: "string \<Rightarrow> string \<Rightarrow> (string \<times> string) list \<Rightarrow> (string \<times> string) list" where
  "insert_param k v m = (if map_of m k = None then m @ [(k, v)] else m)"

definition deserialize_url :: "string \<Rightarrow> HttpRequest \<Rightarrow> HttpRequest" where
  "deserialize_url content r =
     (case find_from content '' '' 0 of
        None \<Rightarrow> r
      | Some end_of_method_pos \<Rightarrow>
          case find_from content '' '' (end_of_method_pos + 1) of
            None \<Rightarrow> r
          | Some end_of_url_pos \<Rightarrow>
              r\<lparr>m_url := take (end_of_url_pos - end_of_method_pos - 1) (drop (end_of_method_pos + 1) content)\<rparr>)"

definition deserialize_query_string :: "HttpRequest \<Rightarrow> HttpRequest" where
  "deserialize_query_string r =
     (case find_sub ''?'' (m_url r) of
        None \<Rightarrow> r
      | Some question_mark_pos \<Rightarrow>
          r\<lparr>m_query_string := drop (question_mark_pos + 1) (m_url r), m_url := take question_mark_pos (m_url r)\<rparr>)"

text \<open>The loop over the query, given what follows \<^verbatim>\<open>start\<close>.\<close>

function query_loop :: "string \<Rightarrow> (string \<times> string) list \<Rightarrow> (string \<times> string) list" where
  "query_loop s m =
     (if s = [] then m
      else
        let param = takeWhile (\<lambda>c. c \<noteq> CHR ''&'') s
        in case find_sub ''='' param of
             None \<Rightarrow> m
           | Some equal_pos \<Rightarrow>
               query_loop (drop (length param + 1) s) (insert_param (take equal_pos param) (drop (equal_pos + 1) param) m))"
  by auto
termination
  by (relation "measure (\<lambda>(s, m). length s)") auto

declare query_loop.simps [simp del]

definition deserialize_query_params :: "HttpRequest \<Rightarrow> HttpRequest" where
  "deserialize_query_params r = r\<lparr>m_query_params := query_loop (m_query_string r) (m_query_params r)\<rparr>"

text \<open>
  The header block. \<^verbatim>\<open>find\<close> gives \<open>2\<^sup>64 - 1\<close> if nothing is found, the sum and the difference are those
  of \<^verbatim>\<open>size_t\<close>, and \<^verbatim>\<open>substr\<close> throws if the start is beyond the end.
\<close>

definition npos :: nat where
  "npos = SIZE_MOD - 1"

definition position :: "nat option \<Rightarrow> nat" where
  "position p = (case p of Some i \<Rightarrow> i | None \<Rightarrow> npos)"

definition header_text :: "string \<Rightarrow> cpp_error + string" where
  "header_text content =
     (let start_of_header = (position (find_first_of crlf content) + 2) mod SIZE_MOD;
          end_of_header = position (find_sub crlf2 content)
      in substr content start_of_header (nat ((int end_of_header - int start_of_header) mod int SIZE_MOD)))"

definition insert_header :: "(string \<times> string) list \<Rightarrow> string \<Rightarrow> ((string \<times> string) list) call" where
  "insert_header m line =
     (case split_string line '': '' of
        None \<Rightarrow> None
      | Some [k, v] \<Rightarrow> Some (Inr (insert_param k v m))
      | Some _ \<Rightarrow> Some (Inr m))"

fun header_loop :: "string list \<Rightarrow> (string \<times> string) list \<Rightarrow> ((string \<times> string) list) call" where
  "header_loop [] m = Some (Inr m)"
| "header_loop (l # ls) m = call_bind (insert_header m l) (header_loop ls)"

definition deserialize_header_params :: "string \<Rightarrow> HttpRequest \<Rightarrow> HttpRequest call" where
  "deserialize_header_params content r =
     (case header_text content of
        Inl e \<Rightarrow> Some (Inl e)
      | Inr t \<Rightarrow>
          case split_string t crlf of
            None \<Rightarrow> None
          | Some ls \<Rightarrow> call_bind (header_loop ls (m_header_params r)) (\<lambda>m. Some (Inr (r\<lparr>m_header_params := m\<rparr>))))"

definition deserialize :: "string \<Rightarrow> HttpRequest \<Rightarrow> HttpRequest call" where
  "deserialize content r =
     deserialize_header_params content (deserialize_query_params (deserialize_query_string (deserialize_url content r)))"

section \<open>Bodies\<close>

definition json_parse_call :: "string \<Rightarrow> json call" where
  "json_parse_call s = json_parse (2 * length s + 2) s"

definition deserialize_body :: "string \<Rightarrow> HttpRequest \<Rightarrow> HttpRequest call" where
  "deserialize_body content r =
     (let end_of_request_header = position (find_sub crlf2 content)
      in case substr content ((end_of_request_header + 4) mod SIZE_MOD) (length content - 1) of
           Inl e \<Rightarrow> Some (Inl e)
         | Inr b \<Rightarrow> call_bind (json_parse_call b) (\<lambda>j. Some (Inr (r\<lparr>m_body := b, m_body_json := j\<rparr>))))"

text \<open>\<^verbatim>\<open>find\<close> and \<^verbatim>\<open>substr\<close> with \<^verbatim>\<open>int\<close> positions and counts: a negative one becomes a huge \<^verbatim>\<open>size_t\<close>.\<close>

definition find_int :: "string \<Rightarrow> string \<Rightarrow> int \<Rightarrow> int" where
  "find_int s pat p =
     (if p < 0 then -1 else case find_from s pat (nat p) of None \<Rightarrow> -1 | Some i \<Rightarrow> int i)"

definition substr_int :: "string \<Rightarrow> int \<Rightarrow> int \<Rightarrow> cpp_error + string" where
  "substr_int s p n =
     (if p < 0 then Inl (Out_of_range ''basic_string::substr'')
      else substr s (nat p) (if n < 0 then length s else nat n))"

definition key_format :: string where
  "key_format = ''Content-Disposition: form-data; name=''"

definition quote_mark :: string where
  "quote_mark = [CHR 0x22]"

text \<open>The field whose format starts at \<open>key_start\<close>: its name and its value.\<close>

definition form_field :: "string \<Rightarrow> int \<Rightarrow> cpp_error + string \<times> string" where
  "form_field b key_start =
     (let key_start = key_start + int (length key_format) + 1;
          key_end = find_int b quote_mark key_start
      in sum_bind (substr_int b key_start (key_end - key_start)) (\<lambda>key.
           let value_start = find_int b crlf2 key_end + 4;
               value_end = find_int b crlf value_start
           in sum_bind (substr_int b value_start (value_end - value_start)) (\<lambda>v. Inr (key, v))))"

partial_function (option) form_loop :: "string \<Rightarrow> string \<Rightarrow> int \<Rightarrow> json \<Rightarrow> json call" where
  "form_loop b frame start j =
     (let key_start = find_int b key_format start
      in if key_start \<le> -1 then Some (Inr j)
         else
           case form_field b key_start of
             Inl e \<Rightarrow> Some (Inl e)
           | Inr kv \<Rightarrow>
               form_loop b frame (find_int b frame (start + int (length frame)))
                 (set_key j (fst kv) (assign_value No_value (Cpp_string (snd kv)))))"

definition deserialize_body_form_data :: "HttpRequest \<Rightarrow> HttpRequest call" where
  "deserialize_body_form_data r =
     (let form_data_start = find_int (m_body r) key_format 0
      in if form_data_start \<le> -1 then Some (Inr r)
         else call_bind (form_loop (m_body r) (take (nat form_data_start) (m_body r)) 0 (m_body_json r))
                (\<lambda>j. Some (Inr (r\<lparr>m_body_json := j\<rparr>))))"

definition insert_pair :: "json \<Rightarrow> string \<Rightarrow> json call" where
  "insert_pair j t =
     (case split_string t ''='' of
        None \<Rightarrow> None
      | Some (k # v # _) \<Rightarrow> Some (Inr (set_key j k (assign_value No_value (Cpp_string v))))
      | Some _ \<Rightarrow> Some (Inr j))"

fun pair_loop :: "string list \<Rightarrow> json \<Rightarrow> json call" where
  "pair_loop [] j = Some (Inr j)"
| "pair_loop (t # ts) j = call_bind (insert_pair j t) (pair_loop ts)"

definition deserialize_body_raw_data :: "HttpRequest \<Rightarrow> HttpRequest call" where
  "deserialize_body_raw_data r =
     (if json_is_null (m_body_json r)
      then case split_string (m_body r) ''&'' of
             None \<Rightarrow> None
           | Some ts \<Rightarrow> call_bind (pair_loop ts (m_body_json r)) (\<lambda>j. Some (Inr (r\<lparr>m_body_json := j\<rparr>)))
      else Some (Inr r))"

section \<open>CreateNewHttpRequest\<close>

definition request_method_map :: "(string \<times> RequestMethod) list" where
  "request_method_map =
     [(''OPTIONS'', OPTIONS), (''GET'', GET), (''HEAD'', HEAD), (''POST'', POST), (''PUT'', PUT), (''DELETE'', DELETE),
      (''PATCH'', PATCH)]"

text \<open>
  Only \<^verbatim>\<open>GET\<close> and the requests with a body have a class of their own; the others report an unknown
  method.
\<close>

definition has_body :: "RequestMethod \<Rightarrow> bool" where
  "has_body meth \<longleftrightarrow> meth \<in> {POST, PUT, DELETE}"

definition reported_method :: "RequestMethod \<Rightarrow> RequestMethod" where
  "reported_method meth = (if meth = GET \<or> has_body meth then meth else UNKNOWN_METHOD)"

definition generate_request :: "RequestMethod \<Rightarrow> string \<Rightarrow> string \<Rightarrow> HttpRequest call" where
  "generate_request meth content dir =
     call_bind (deserialize content (blank_request (reported_method meth) dir)) (\<lambda>r.
       if has_body meth
       then call_bind (deserialize_body content r) (\<lambda>r.
              call_bind (deserialize_body_form_data r) deserialize_body_raw_data)
       else Some (Inr r))"

definition CreateNewHttpRequest :: "string \<Rightarrow> string \<Rightarrow> (HttpRequest option) call" where
  "CreateNewHttpRequest content dir =
     (case find_from content '' '' 0 of
        None \<Rightarrow> Some (Inr None)
      | Some end_of_method_pos \<Rightarrow>
          case map_of request_method_map (take end_of_method_pos content) of
            None \<Rightarrow> Some (Inr None)
          | Some meth \<Rightarrow> call_bind (generate_request meth content dir) (\<lambda>r. Some (Inr (Some r))))"

section \<open>Access\<close>

definition PARAM_NOT_FOUND :: string where
  "PARAM_NOT_FOUND = ''PARAM_NOT_FOUND''"

definition PARAM_NO_MISSING :: string where
  "PARAM_NO_MISSING = ''PARAM_NO_MISSING''"

definition get_query_param :: "HttpRequest \<Rightarrow> string \<Rightarrow> string" where
  "get_query_param r p = (case map_of (m_query_params r) p of Some v \<Rightarrow> v | None \<Rightarrow> PARAM_NOT_FOUND)"

definition get_header_param :: "HttpRequest \<Rightarrow> string \<Rightarrow> string" where
  "get_header_param r p = (case map_of (m_header_params r) p of Some v \<Rightarrow> v | None \<Rightarrow> PARAM_NOT_FOUND)"

fun check_missing_params :: "HttpRequest \<Rightarrow> string list \<Rightarrow> string" where
  "check_missing_params r [] = PARAM_NO_MISSING"
| "check_missing_params r (p # ps) =
     (if get_query_param r p = PARAM_NOT_FOUND then ''Missing query param: ['' @ p @ '']'' else check_missing_params r ps)"

definition get_query_json :: "HttpRequest \<Rightarrow> json" where
  "get_query_json r = foldl (\<lambda>j (k, v). set_key j k (assign_value No_value (Cpp_string v))) No_value (m_query_params r)"

definition get_body_param_json :: "HttpRequest \<Rightarrow> string \<Rightarrow> cpp_error + json" where
  "get_body_param_json r p =
     (if has_body (request_method r)
      then sum_bind (has_field (m_body_json r) p) (\<lambda>has.
             Inr (if has then snd (index_key (m_body_json r) p) else No_value))
      else Inr No_value)"

fun check_missing_body_params :: "HttpRequest \<Rightarrow> string list \<Rightarrow> cpp_error + string" where
  "check_missing_body_params r [] = Inr PARAM_NO_MISSING"
| "check_missing_body_params r (p # ps) =
     (if has_body (request_method r)
      then sum_bind (has_field (m_body_json r) p) (\<lambda>has.
             if has then check_missing_body_params r ps else Inr (''Missing body param: ['' @ p @ '']''))
      else Inr PARAM_NO_MISSING)"

text \<open>The length that the headers announce; \<^verbatim>\<open>stoi\<close> throws on a text that is no number.\<close>

definition announced_length :: "HttpRequest \<Rightarrow> cpp_error + int" where
  "announced_length r =
     (if get_header_param r ''Content-Length'' \<noteq> PARAM_NOT_FOUND then stoi (get_header_param r ''Content-Length'')
      else if get_header_param r ''content-length'' \<noteq> PARAM_NOT_FOUND then stoi (get_header_param r ''content-length'')
      else Inr 0)"

definition is_valid_format :: "HttpRequest \<Rightarrow> cpp_error + bool" where
  "is_valid_format r =
     (if has_body (request_method r)
      then sum_bind (announced_length r) (\<lambda>n. Inr (n = 0 \<or> n = int (length (m_body r))))
      else Inr True)"

section \<open>Searching and splitting\<close>

lemma find_sub_char: "c \<notin> set xs \<Longrightarrow> find_sub [c] (xs @ c # ys) = Some (length xs)"
  by (induction xs) auto

lemma find_sub_no_char: "c \<notin> set xs \<Longrightarrow> find_sub [c] xs = None"
  by (induction xs) auto

text \<open>After a text that is free of it the delimiter is found where it is put.\<close>

definition free_of :: "string \<Rightarrow> string \<Rightarrow> bool" where
  "free_of del l \<longleftrightarrow> find_sub del l = None \<and> (\<forall>t. find_sub del (l @ del @ t) = Some (length l))"

lemma free_of_char: "c \<notin> set l \<Longrightarrow> free_of [c] l"
  by (simp add: free_of_def find_sub_char find_sub_no_char)

lemma find_sub_two:
  assumes "a \<noteq> b"
  shows "find_sub [a, b] l = None \<Longrightarrow> find_sub [a, b] (l @ a # b # t) = Some (length l)"
proof (induction l)
  case (Cons c l)
  have "take 2 (c # l @ a # b # t) \<noteq> [a, b]"
    using Cons.prems assms by (cases l) (auto split: if_splits)
  then show ?case using Cons by (auto split: if_splits)
qed simp

lemma free_of_two: "a \<noteq> b \<Longrightarrow> find_sub [a, b] l = None \<Longrightarrow> free_of [a, b] l"
  by (simp add: free_of_def find_sub_two)

lemma find_sub_crlf: "CHR 0x0D \<notin> set l \<Longrightarrow> find_sub crlf l = None"
  by (induction l) (auto simp: crlf_def)

lemma free_of_crlf: "CHR 0x0D \<notin> set l \<Longrightarrow> free_of crlf l"
  using free_of_two [of "CHR 0x0D" "CHR 0x0A" l] find_sub_crlf [of l] by (simp add: crlf_def)

lemma split_loop_join:
  assumes "del \<noteq> []" "ls \<noteq> []" "\<forall>l \<in> set ls. free_of del l"
  shows "split_loop (pre @ join del ls) del (length pre) = Some ls"
  using assms(2, 3)
proof (induction ls arbitrary: pre rule: join.induct)
  case (2 del p)
  then show ?case by (simp add: split_loop.simps find_from_def free_of_def)
next
  case (3 del p q ps)
  have f: "find_from (pre @ join del (p # q # ps)) del (length pre) = Some (length pre + length p)"
    using "3.prems"(2) by (simp add: find_from_def free_of_def)
  have "split_loop ((pre @ p @ del) @ join del (q # ps)) del (length (pre @ p @ del)) = Some (q # ps)"
    by (rule "3.IH") (use "3.prems"(2) in simp_all)
  then show ?case using f by (subst split_loop.simps) (simp add: add.assoc)
qed simp

lemma split_string_join:
  "del \<noteq> [] \<Longrightarrow> ls \<noteq> [] \<Longrightarrow> \<forall>l \<in> set ls. free_of del l \<Longrightarrow> split_string (join del ls) del = Some ls"
  using split_loop_join [of del ls "[]"] by (simp add: split_string_def)

section \<open>Parameters\<close>

lemma insert_params_lookup: "map_of (foldl (\<lambda>m (k, v). insert_param k v m) m ps) = map_of (m @ ps)"
proof (induction ps arbitrary: m)
  case (Cons x ps)
  obtain k v where x: "x = (k, v)" by force
  have "map_of (insert_param k v m @ ps) = map_of (m @ (k, v) # ps)"
    by (rule ext) (auto simp: insert_param_def map_add_def split: option.splits)
  then show ?case using Cons [of "insert_param k v m"] by (simp add: x)
qed simp

definition query_pair :: "string \<times> string \<Rightarrow> string" where
  "query_pair p = fst p @ CHR ''='' # snd p"

definition plain_pair :: "string \<times> string \<Rightarrow> bool" where
  "plain_pair p \<longleftrightarrow> CHR ''='' \<notin> set (fst p) \<and> CHR ''&'' \<notin> set (fst p) \<and> CHR ''&'' \<notin> set (snd p)"

lemma query_loop_pairs:
  assumes "\<forall>p \<in> set ps. plain_pair p"
  shows "query_loop (join ''&'' (map query_pair ps)) m = foldl (\<lambda>m (k, v). insert_param k v m) m ps"
  using assms
proof (induction ps arbitrary: m)
  case Nil
  show ?case by (simp add: query_loop.simps)
next
  case (Cons p ps)
  obtain k v where p: "p = (k, v)" by force
  let ?s = "join ''&'' (map query_pair (p # ps))"
  let ?rest = "join ''&'' (map query_pair ps)"
  have free: "CHR ''&'' \<notin> set (query_pair p)" using Cons.prems by (simp add: query_pair_def plain_pair_def)
  have s: "?s = query_pair p @ (if ps = [] then [] else CHR ''&'' # ?rest)" by (cases ps) simp_all
  have "takeWhile (\<lambda>c. c \<noteq> CHR ''&'') ?s = query_pair p"
    unfolding s using free by (auto simp: takeWhile_append)
  moreover have "drop (length (query_pair p) + 1) ?s = ?rest" unfolding s by simp
  moreover have "find_sub ''='' (query_pair p) = Some (length k)"
    using Cons.prems by (simp add: query_pair_def p plain_pair_def find_sub_char)
  moreover have "take (length k) (query_pair p) = k" "drop (length k + 1) (query_pair p) = v" by (simp_all add: query_pair_def p)
  moreover have "?s \<noteq> []" unfolding s by (simp add: query_pair_def)
  ultimately have "query_loop ?s m = query_loop ?rest (insert_param k v m)"
    by (subst query_loop.simps) (simp add: Let_def)
  then show ?case using Cons by (simp add: p)
qed

definition header_line :: "string \<times> string \<Rightarrow> string" where
  "header_line h = fst h @ '': '' @ snd h"

definition plain_header :: "string \<times> string \<Rightarrow> bool" where
  "plain_header h \<longleftrightarrow> find_sub '': '' (fst h) = None \<and> find_sub '': '' (snd h) = None \<and>
     set (fst h @ snd h) \<inter> {CHR 0x0D, CHR 0x0A} = {}"

lemma header_loop_lines:
  assumes "\<forall>h \<in> set hs. plain_header h"
  shows "header_loop (map header_line hs) m = Some (Inr (foldl (\<lambda>m (k, v). insert_param k v m) m hs))"
  using assms
proof (induction hs arbitrary: m)
  case (Cons h hs)
  obtain k v where h: "h = (k, v)" by force
  have "header_line h = join '': '' [k, v]" by (simp add: header_line_def h)
  moreover have "free_of '': '' k" "free_of '': '' v"
    using Cons.prems free_of_two [of "CHR '':''" "CHR '' ''"] by (simp_all add: h plain_header_def)
  ultimately have "split_string (header_line h) '': '' = Some [k, v]"
    using split_string_join [of "'': ''" "[k, v]"] by simp
  then have "insert_header m (header_line h) = Some (Inr (insert_param k v m))" by (simp add: insert_header_def)
  then show ?case using Cons by (simp add: h)
qed simp

section \<open>A request taken apart\<close>

definition request_text ::
  "string \<Rightarrow> string \<Rightarrow> (string \<times> string) list \<Rightarrow> (string \<times> string) list \<Rightarrow> string \<Rightarrow> string" where
  "request_text meth url ps hs b =
     (meth @ '' '' @ url @ (if ps = [] then [] else CHR ''?'' # join ''&'' (map query_pair ps)) @ '' HTTP/1.1'') @ crlf @
     join crlf (map header_line hs) @ crlf2 @ b"

definition no_break :: "string \<Rightarrow> bool" where
  "no_break s \<longleftrightarrow> CHR 0x0D \<notin> set s \<and> CHR 0x0A \<notin> set s"

definition plain_target :: "string \<Rightarrow> (string \<times> string) list \<Rightarrow> bool" where
  "plain_target url ps \<longleftrightarrow> no_break url \<and> CHR '' '' \<notin> set url \<and> CHR ''?'' \<notin> set url \<and>
     (\<forall>p \<in> set ps. plain_pair p \<and> no_break (query_pair p) \<and> CHR '' '' \<notin> set (query_pair p))"

lemma find_sub_crlf2_skip:
  "CHR 0x0D \<notin> set l \<Longrightarrow> find_sub crlf2 (l @ s) = map_option (\<lambda>i. length l + i) (find_sub crlf2 s)"
  by (induction l; cases "find_sub crlf2 s") (auto simp: crlf2_def)

lemma find_sub_crlf2_break:
  "c \<noteq> CHR 0x0D \<Longrightarrow> find_sub crlf2 (crlf @ c # s) = map_option (\<lambda>i. 2 + i) (find_sub crlf2 (c # s))"
  by (cases "find_sub crlf2 (c # s)") (auto simp: crlf2_def crlf_def)

lemma find_sub_header_end:
  assumes "ls \<noteq> []" "\<forall>l \<in> set ls. l \<noteq> [] \<and> CHR 0x0D \<notin> set l"
  shows "find_sub crlf2 (join crlf ls @ crlf2 @ b) = Some (length (join crlf ls))"
  using assms
proof (induction crlf ls rule: join.induct)
  case (2 p)
  then show ?case using find_sub_crlf2_skip [of p "crlf2 @ b"] by (simp add: crlf2_def)
next
  case (3 p q ps)
  obtain c q' where q: "q = c # q'" "c \<noteq> CHR 0x0D" using "3.prems" by (cases q) auto
  then obtain t where t: "join crlf (q # ps) @ crlf2 @ b = c # t" by (cases ps) auto
  have "find_sub crlf2 (join crlf (p # q # ps) @ crlf2 @ b) = find_sub crlf2 (p @ crlf @ c # t)" by (simp flip: t)
  also have "\<dots> = map_option (\<lambda>i. length p + i) (map_option (\<lambda>i. 2 + i) (find_sub crlf2 (c # t)))"
    using "3.prems" q(2) by (simp add: find_sub_crlf2_skip find_sub_crlf2_break)
  also have "find_sub crlf2 (c # t) = Some (length (join crlf (q # ps)))"
    using 3 by (simp flip: t)
  finally show ?case by (simp add: crlf_def)
qed simp

lemma join_starts:
  assumes "ls \<noteq> []" "\<forall>l \<in> set ls. l \<noteq> [] \<and> CHR 0x0D \<notin> set l"
  obtains c t where "join crlf ls @ s = c # t" "c \<noteq> CHR 0x0D"
proof -
  obtain l ls' where ls: "ls = l # ls'" using assms(1) by (cases ls) auto
  obtain c l' where "l = c # l'" "c \<noteq> CHR 0x0D" using assms(2) ls by (cases l) auto
  then show thesis using that ls by (cases ls') auto
qed

lemma set_join: "set (join del ps) \<subseteq> set del \<union> (\<Union> (set ` set ps))"
  by (induction del ps rule: join.induct) auto

lemma target_chars:
  assumes "plain_target url ps" "c \<in> {CHR '' '', CHR 0x0D, CHR 0x0A}"
  shows "c \<notin> set (url @ (if ps = [] then [] else CHR ''?'' # join ''&'' (map query_pair ps)))"
  using assms set_join [of "''&''" "map query_pair ps"] by (auto simp: plain_target_def no_break_def)

text \<open>First line, header lines, body: where the pieces are found.\<close>

lemma header_text_lines:
  assumes "no_break first" "ls \<noteq> []" "\<forall>l \<in> set ls. l \<noteq> [] \<and> CHR 0x0D \<notin> set l"
    and "length (first @ crlf @ join crlf ls @ crlf2 @ b) < SIZE_MOD"
  shows "header_text (first @ crlf @ join crlf ls @ crlf2 @ b) = Inr (join crlf ls)"
    "find_sub crlf2 (first @ crlf @ join crlf ls @ crlf2 @ b) = Some (length first + 2 + length (join crlf ls))"
proof -
  let ?c = "first @ crlf @ join crlf ls @ crlf2 @ b"
  have "find_first_of crlf (first @ CHR 0x0D # CHR 0x0A # join crlf ls @ crlf2 @ b) = Some (length first)"
    using assms(1) by (intro find_first_of_skip) (auto simp: list_all_iff crlf_def no_break_def)
  then have start: "find_first_of crlf ?c = Some (length first)" by (simp add: crlf_def)
  obtain c t where t: "join crlf ls @ crlf2 @ b = c # t" "c \<noteq> CHR 0x0D"
    using assms(2, 3) by (rule join_starts)
  have "find_sub crlf2 ?c = map_option (\<lambda>i. length first + i) (map_option (\<lambda>i. 2 + i) (find_sub crlf2 (c # t)))"
    using assms(1) t by (simp add: find_sub_crlf2_skip find_sub_crlf2_break no_break_def)
  also have "find_sub crlf2 (c # t) = Some (length (join crlf ls))"
    using find_sub_header_end [OF assms(2, 3), of b] by (simp flip: t)
  finally show e: "find_sub crlf2 ?c = Some (length first + 2 + length (join crlf ls))" by simp
  show "header_text ?c = Inr (join crlf ls)"
    using assms(4) start e by (simp add: header_text_def position_def substr_def crlf_def Let_def)
qed

definition query_text :: "(string \<times> string) list \<Rightarrow> string" where
  "query_text ps = join ''&'' (map query_pair ps)"

definition taken_apart ::
  "RequestMethod \<Rightarrow> string \<Rightarrow> string \<Rightarrow> (string \<times> string) list \<Rightarrow> (string \<times> string) list \<Rightarrow> HttpRequest" where
  "taken_apart meth dir url ps hs = (blank_request meth dir)
     \<lparr>m_url := url, m_query_string := query_text ps,
      m_query_params := foldl (\<lambda>m (k, v). insert_param k v m) [] ps,
      m_header_params := foldl (\<lambda>m (k, v). insert_param k v m) [] hs\<rparr>"

lemma find_char_from:
  assumes "c \<notin> set xs"
  shows "find_from (pre @ xs @ c # ys) [c] (length pre) = Some (length pre + length xs)"
  using find_sub_char [OF assms] by (simp add: find_from_def)

lemma deserialize_target:
  assumes "CHR '' '' \<notin> set mname" "plain_target url ps"
  shows "deserialize_query_params (deserialize_query_string (deserialize_url (request_text mname url ps hs b) (blank_request meth dir)))
    = (taken_apart meth dir url ps hs)\<lparr>m_header_params := []\<rparr>"
proof -
  let ?t = "url @ (if ps = [] then [] else CHR ''?'' # query_text ps)"
  let ?rest = "''HTTP/1.1'' @ crlf @ join crlf (map header_line hs) @ crlf2 @ b"
  have rt: "request_text mname url ps hs b = (mname @ '' '') @ ?t @ CHR '' '' # ?rest"
    by (simp add: request_text_def query_text_def)
  have e1: "find_from (request_text mname url ps hs b) '' '' 0 = Some (length mname)"
    using find_char_from [OF assms(1), of "[]"] by (simp add: rt)
  have "CHR '' '' \<notin> set ?t" using target_chars [OF assms(2), of "CHR '' ''"] by (auto simp: query_text_def)
  from find_char_from [OF this, of "mname @ '' ''" ?rest]
  have e2: "find_from (request_text mname url ps hs b) '' '' (length mname + 1) = Some (length mname + 1 + length ?t)"
    by (simp add: rt)
  have u: "deserialize_url (request_text mname url ps hs b) (blank_request meth dir) = (blank_request meth dir)\<lparr>m_url := ?t\<rparr>"
  proof -
    have "take (length ?t) (drop (length mname + 1) (request_text mname url ps hs b)) = ?t" by (simp add: rt)
    then show ?thesis unfolding deserialize_url_def e1 option.case e2 by simp
  qed
  have q: "CHR ''?'' \<notin> set url" using assms(2) by (simp add: plain_target_def)
  have "deserialize_query_string ((blank_request meth dir)\<lparr>m_url := ?t\<rparr>)
    = (blank_request meth dir)\<lparr>m_url := url, m_query_string := query_text ps\<rparr>"
    using q by (cases ps) (simp_all add: deserialize_query_string_def find_sub_no_char find_sub_char blank_request_def query_text_def)
  moreover have "query_loop (query_text ps) [] = foldl (\<lambda>m (k, v). insert_param k v m) [] ps"
    unfolding query_text_def using assms(2) by (intro query_loop_pairs) (simp add: plain_target_def)
  ultimately show ?thesis
    unfolding u by (simp add: deserialize_query_params_def taken_apart_def blank_request_def)
qed

lemma header_lines_plain:
  assumes "\<forall>h \<in> set hs. plain_header h"
  shows "\<forall>l \<in> set (map header_line hs). l \<noteq> [] \<and> CHR 0x0D \<notin> set l"
  using assms by (auto simp: header_line_def plain_header_def)

lemma first_line_no_break:
  assumes "no_break mname" "plain_target url ps"
  shows "no_break (mname @ '' '' @ url @ (if ps = [] then [] else CHR ''?'' # join ''&'' (map query_pair ps)) @ '' HTTP/1.1'')"
  using assms(1) target_chars [OF assms(2), of "CHR 0x0D"] target_chars [OF assms(2), of "CHR 0x0A"]
  by (auto simp: no_break_def)

lemma deserialize_request:
  assumes "CHR '' '' \<notin> set mname" "no_break mname" "plain_target url ps" "hs \<noteq> []" "\<forall>h \<in> set hs. plain_header h"
    and "length (request_text mname url ps hs b) < SIZE_MOD"
  shows "deserialize (request_text mname url ps hs b) (blank_request meth dir) = Some (Inr (taken_apart meth dir url ps hs))"
    "find_sub crlf2 (request_text mname url ps hs b) = Some (length (request_text mname url ps hs b) - length b - 4)"
proof -
  let ?first = "mname @ '' '' @ url @ (if ps = [] then [] else CHR ''?'' # join ''&'' (map query_pair ps)) @ '' HTTP/1.1''"
  let ?ls = "map header_line hs"
  have ls: "?ls \<noteq> []" using assms(4) by simp
  note h = header_text_lines [OF first_line_no_break [OF assms(2, 3)] ls header_lines_plain [OF assms(5)],
      of b, folded request_text_def, OF assms(6)]
  show "find_sub crlf2 (request_text mname url ps hs b) = Some (length (request_text mname url ps hs b) - length b - 4)"
    unfolding h(2) by (simp add: request_text_def crlf_def crlf2_def)
  have "split_string (join crlf ?ls) crlf = Some ?ls"
    using ls header_lines_plain [OF assms(5)] free_of_crlf by (intro split_string_join) (auto simp: crlf_def)
  then show "deserialize (request_text mname url ps hs b) (blank_request meth dir) = Some (Inr (taken_apart meth dir url ps hs))"
    unfolding deserialize_def deserialize_target [OF assms(1, 3)] deserialize_header_params_def h(1)
    by (simp add: header_loop_lines [OF assms(5)] taken_apart_def blank_request_def)
qed

lemma deserialize_body_request:
  assumes "find_sub crlf2 (request_text mname url ps hs b) = Some (length (request_text mname url ps hs b) - length b - 4)"
    and "length (request_text mname url ps hs b) < SIZE_MOD"
  shows "deserialize_body (request_text mname url ps hs b) r =
    call_bind (json_parse_call b) (\<lambda>j. Some (Inr (r\<lparr>m_body := b, m_body_json := j\<rparr>)))"
proof -
  let ?c = "request_text mname url ps hs b"
  obtain h where h: "?c = h @ b" "4 \<le> length h" unfolding request_text_def by (simp add: crlf2_def)
  then have "substr ?c (length ?c - length b - 4 + 4) (length ?c - 1) = Inr b"
    by (simp add: substr_def)
  then show ?thesis using assms h by (simp add: deserialize_body_def position_def Let_def)
qed

section \<open>Properties\<close>

definition named_method :: "string \<Rightarrow> RequestMethod \<Rightarrow> bool" where
  "named_method mname meth \<longleftrightarrow> map_of request_method_map mname = Some meth"

lemma named_method_plain:
  assumes "named_method mname meth"
  shows "CHR '' '' \<notin> set mname" "no_break mname"
  using assms by (auto simp: named_method_def request_method_map_def no_break_def split: if_splits)

lemma create_request:
  fixes dir :: string
  assumes "named_method mname meth" "plain_target url ps" "hs \<noteq> []" "\<forall>h \<in> set hs. plain_header h"
    and "length (request_text mname url ps hs b) < SIZE_MOD"
  defines "r \<equiv> taken_apart (reported_method meth) dir url ps hs"
  shows "CreateNewHttpRequest (request_text mname url ps hs b) dir =
    (if has_body meth
     then call_bind (call_bind (json_parse_call b) (\<lambda>j. Some (Inr (r\<lparr>m_body := b, m_body_json := j\<rparr>)))) (\<lambda>r.
            call_bind (call_bind (deserialize_body_form_data r) deserialize_body_raw_data) (\<lambda>r. Some (Inr (Some r))))
     else Some (Inr (Some r)))"
proof -
  let ?c = "request_text mname url ps hs b"
  note plain = named_method_plain [OF assms(1)]
  note d = deserialize_request [OF plain assms(2-5)]
  have "find_from ?c '' '' 0 = Some (length mname)" "take (length mname) ?c = mname"
    using find_char_from [OF plain(1), of "[]"] by (simp_all add: request_text_def)
  moreover have "deserialize_body ?c r = call_bind (json_parse_call b) (\<lambda>j. Some (Inr (r\<lparr>m_body := b, m_body_json := j\<rparr>)))"
    by (rule deserialize_body_request [OF d(2) assms(5)])
  ultimately show ?thesis
    using assms(1) by (auto simp: CreateNewHttpRequest_def generate_request_def d(1) named_method_def r_def
        call_bind_def split: option.splits sum.splits)
qed

lemma pair_loop_pairs:
  assumes "\<forall>p \<in> set qs. plain_pair p \<and> CHR ''='' \<notin> set (snd p)"
  shows "pair_loop (map query_pair qs) j =
    Some (Inr (foldl (\<lambda>j (k, v). set_key j k (assign_value No_value (Cpp_string v))) j qs))"
  using assms
proof (induction qs arbitrary: j)
  case (Cons p qs)
  obtain k v where p: "p = (k, v)" by force
  have "query_pair p = join ''='' [k, v]" by (simp add: query_pair_def p)
  moreover have "free_of ''='' k" "free_of ''='' v" using Cons.prems by (simp_all add: free_of_char plain_pair_def p)
  ultimately have "split_string (query_pair p) ''='' = Some [k, v]"
    using split_string_join [of "''=''" "[k, v]"] by simp
  then show ?case using Cons by (simp add: insert_pair_def p)
qed simp

lemma no_form_data:
  "find_sub key_format (m_body r) = None \<Longrightarrow> deserialize_body_form_data r = Some (Inr r)"
  by (simp add: deserialize_body_form_data_def find_int_def find_from_def)

text \<open>
  (C24) A request with a known method, a plain target and at least one header is taken apart into what it was made of:
  URL, query string, query parameters and headers (the first of several with the same name). The
  body of a request that has one is kept, as the JSON value it is a text of, or, if it is none, as the
  object of its \<^verbatim>\<open>key=value\<close> pairs.
\<close>

theorem request_is_taken_apart:
  assumes "named_method mname meth" "plain_target url ps" "hs \<noteq> []" "\<forall>h \<in> set hs. plain_header h"
    and "length (request_text mname url ps hs b) < SIZE_MOD"
  shows "\<not> has_body meth \<or> (json_parse_call b = Some (Inr j) \<and> find_sub key_format b = None \<and>
       (json_is_null j \<longrightarrow> b = query_text qs \<and> qs \<noteq> [] \<and> (\<forall>p \<in> set qs. plain_pair p \<and> CHR ''='' \<notin> set (snd p))))
    \<longrightarrow> (\<exists>r. CreateNewHttpRequest (request_text mname url ps hs b) dir = Some (Inr (Some r)) \<and>
      request_method r = reported_method meth \<and> m_url r = url \<and> m_query_string r = query_text ps \<and>
      (\<forall>k. get_query_param r k = (case map_of ps k of Some v \<Rightarrow> v | None \<Rightarrow> PARAM_NOT_FOUND)) \<and>
      (\<forall>k. get_header_param r k = (case map_of hs k of Some v \<Rightarrow> v | None \<Rightarrow> PARAM_NOT_FOUND)) \<and>
      (has_body meth \<longrightarrow> m_body r = b \<and>
         m_body_json r = (if json_is_null j
           then foldl (\<lambda>j (k, v). set_key j k (assign_value No_value (Cpp_string v))) j qs else j)))"
proof (intro impI)
  let ?r = "taken_apart (reported_method meth) dir url ps hs"
  assume body: "\<not> has_body meth \<or> (json_parse_call b = Some (Inr j) \<and> find_sub key_format b = None \<and>
       (json_is_null j \<longrightarrow> b = query_text qs \<and> qs \<noteq> [] \<and> (\<forall>p \<in> set qs. plain_pair p \<and> CHR ''='' \<notin> set (snd p))))"
  let ?j = "if json_is_null j then foldl (\<lambda>j (k, v). set_key j k (assign_value No_value (Cpp_string v))) j qs else j"
  let ?r' = "if has_body meth then ?r\<lparr>m_body := b, m_body_json := ?j\<rparr> else ?r"
  have raw: "deserialize_body_raw_data (?r\<lparr>m_body := b, m_body_json := j\<rparr>) = Some (Inr (?r\<lparr>m_body := b, m_body_json := ?j\<rparr>))"
    if "has_body meth"
  proof (cases "json_is_null j")
    case True
    then have q: "b = query_text qs" "qs \<noteq> []" "\<forall>p \<in> set qs. plain_pair p \<and> CHR ''='' \<notin> set (snd p)"
      using body that by auto
    have "split_string b ''&'' = Some (map query_pair qs)"
      unfolding q(1) query_text_def using q(2, 3)
      by (intro split_string_join) (auto simp: query_pair_def plain_pair_def intro!: free_of_char)
    then show ?thesis using True pair_loop_pairs [OF q(3)] by (simp add: deserialize_body_raw_data_def)
  qed (simp add: deserialize_body_raw_data_def)
  have "CreateNewHttpRequest (request_text mname url ps hs b) dir = Some (Inr (Some ?r'))"
    using create_request [OF assms, of dir] body raw no_form_data [of "?r\<lparr>m_body := b, m_body_json := j\<rparr>"] by auto
  then show "\<exists>r. CreateNewHttpRequest (request_text mname url ps hs b) dir = Some (Inr (Some r)) \<and>
      request_method r = reported_method meth \<and> m_url r = url \<and> m_query_string r = query_text ps \<and>
      (\<forall>k. get_query_param r k = (case map_of ps k of Some v \<Rightarrow> v | None \<Rightarrow> PARAM_NOT_FOUND)) \<and>
      (\<forall>k. get_header_param r k = (case map_of hs k of Some v \<Rightarrow> v | None \<Rightarrow> PARAM_NOT_FOUND)) \<and>
      (has_body meth \<longrightarrow> m_body r = b \<and> m_body_json r = ?j)"
    by (intro exI [of _ ?r'])
      (simp add: taken_apart_def blank_request_def get_query_param_def get_header_param_def insert_params_lookup)
qed

lemma plain_example:
  "named_method ''POST'' POST" "plain_target ''/order'' [(''id'', ''7'')]"
  "plain_header (''Host'', ''x'')" "plain_header (''Content-Length'', ''3'')"
  by (simp_all add: named_method_def request_method_map_def plain_target_def no_break_def plain_pair_def query_pair_def
      plain_header_def)

theorem request_is_taken_apart_witness:
  "\<exists>r. CreateNewHttpRequest (request_text ''POST'' ''/order'' [(''id'', ''7'')] [(''Host'', ''x'')] ''a=b'') ''web'' = Some (Inr (Some r)) \<and>
     m_url r = ''/order'' \<and> get_query_param r ''id'' = ''7'' \<and> get_header_param r ''Host'' = ''x'' \<and> m_body r = ''a=b''"
proof -
  have "json_parse_call ''a=b'' = Some (Inr (Value VNull True))" by code_simp
  moreover have "find_sub key_format ''a=b'' = None" by (simp add: key_format_def)
  moreover have "''a=b'' = query_text [(''a'', ''b'')]" "plain_pair (''a'', ''b'')"
    by (simp_all add: query_text_def query_pair_def plain_pair_def)
  moreover have "length (request_text ''POST'' ''/order'' [(''id'', ''7'')] [(''Host'', ''x'')] ''a=b'') < SIZE_MOD"
    by (simp add: request_text_def query_pair_def header_line_def crlf_def crlf2_def SIZE_MOD_def)
  ultimately show ?thesis
    using request_is_taken_apart [of "''POST''" POST "''/order''" "[(''id'', ''7'')]" "[(''Host'', ''x'')]" "''a=b''"
        "Value VNull True" "[(''a'', ''b'')]" "''web''"] plain_example
    by (auto simp: has_body_def)
qed

text \<open>
  A body that starts with the form data format has an empty frame, so that the loop searches the same
  field for ever.
\<close>

lemma form_loop_hangs:
  assumes "find_int b key_format 0 = 0" "form_field b 0 = Inr kv"
  shows "form_loop b [] 0 j = None"
proof (cases "form_loop b [] 0 j")
  case (Some r)
  have zero: "find_int b [] 0 = 0" by (simp add: find_int_def find_from_def)
  have "\<not> (b' = b \<and> frame = [] \<and> start = (0 :: int))" if "form_loop b' frame start j' = Some y" for b' frame start j' y
    by (rule form_loop.raw_induct [where P = "\<lambda>b' frame start _ _. \<not> (b' = b \<and> frame = [] \<and> start = 0)", OF _ that])
      (use assms zero in \<open>fastforce simp: Let_def split: sum.splits\<close>)
  then show ?thesis using Some by blast
qed

lemma form_data_hangs:
  assumes "find_sub key_format (m_body r) = Some 0" "form_field (m_body r) 0 = Inr kv"
  shows "deserialize_body_form_data r = None"
  using form_loop_hangs [of "m_body r" kv] assms by (simp add: deserialize_body_form_data_def find_int_def find_from_def)

lemma header_text_break_at_end:
  assumes "no_break l" "length l + 1 < npos" "c \<in> {CHR 0x0D, CHR 0x0A}"
  shows "header_text (l @ [c]) = Inl (Out_of_range ''basic_string::substr'')"
proof -
  have "find_first_of crlf (l @ c # []) = Some (length l)"
    using assms(1, 3) by (intro find_first_of_skip) (auto simp: list_all_iff crlf_def no_break_def)
  then show ?thesis using assms(2) by (simp add: header_text_def position_def substr_def npos_def Let_def)
qed

end
