(* ===== verification/HTTP_Server.thy ===== *)
theory HTTP_Server
  imports HTTP_Server_Request HTTP_Requests Json_Round_Trip
begin

text \<open>
  The HTTP server (\<^verbatim>\<open>src/core/network/https_server\<close>, \<^verbatim>\<open>src/core/system_io/https_server_io\<close>): responses and
  their text, routes, files, and the connection that collects a request and answers it. The handlers of
  routes are functions on a state of the application; the file system is a function from paths to
  what they name. The order in which an \<^verbatim>\<open>unordered_map\<close> of routes is walked is that of its list,
  about which nothing is assumed.
\<close>

section \<open>Responses\<close>

datatype ResponseFileType = JS | CSS | WOFF2 | NONE_TYPE

record FileInfo =
  file_type :: ResponseFileType
  file_name :: string

datatype ResponseStatusCode =
    OK_200 | CREATED_201 | BAD_REQUEST_400 | UNAUTHORIZED_REQUEST_401 | NOT_FOUND_404 | RISK_ERROR_410
  | INTERNAL_SERVER_ERROR_500

fun status_number :: "ResponseStatusCode \<Rightarrow> nat" where
  "status_number OK_200 = 200"
| "status_number CREATED_201 = 201"
| "status_number BAD_REQUEST_400 = 400"
| "status_number UNAUTHORIZED_REQUEST_401 = 401"
| "status_number NOT_FOUND_404 = 404"
| "status_number RISK_ERROR_410 = 410"
| "status_number INTERNAL_SERVER_ERROR_500 = 500"

text \<open>The map has no entry for 410.\<close>

fun response_status_code_map :: "ResponseStatusCode \<Rightarrow> string option" where
  "response_status_code_map OK_200 = Some ''OK''"
| "response_status_code_map CREATED_201 = Some ''Created''"
| "response_status_code_map BAD_REQUEST_400 = Some ''Bad Request''"
| "response_status_code_map UNAUTHORIZED_REQUEST_401 = Some ''Unauthorized Request''"
| "response_status_code_map NOT_FOUND_404 = Some ''Not Found''"
| "response_status_code_map RISK_ERROR_410 = None"
| "response_status_code_map INTERNAL_SERVER_ERROR_500 = Some ''Internal Server Error''"

text \<open>The content is a pointer, null after the response was moved from.\<close>

record HttpResponse =
  m_response_code :: ResponseStatusCode
  m_custom_header :: json
  m_content :: "string option"
  m_is_json_format :: bool
  m_file_info :: FileInfo

definition no_file :: FileInfo where
  "no_file = \<lparr>file_type = NONE_TYPE, file_name = []\<rparr>"

definition file_response :: "ResponseStatusCode \<Rightarrow> string \<Rightarrow> FileInfo \<Rightarrow> HttpResponse" where
  "file_response code content info =
     \<lparr>m_response_code = code, m_custom_header = No_value, m_content = Some content, m_is_json_format = False, m_file_info = info\<rparr>"

definition new_response :: HttpResponse where
  "new_response = file_response OK_200 [] no_file"

definition json_response :: "(real \<Rightarrow> string) \<Rightarrow> ResponseStatusCode \<Rightarrow> json \<Rightarrow> HttpResponse" where
  "json_response show_double code j =
     (file_response code (get_string_value_dynamic show_double j) no_file)\<lparr>m_is_json_format := True\<rparr>"

definition named_response :: "ResponseStatusCode \<Rightarrow> string \<Rightarrow> string \<Rightarrow> HttpResponse" where
  "named_response code content name = file_response code content (no_file\<lparr>file_name := name\<rparr>)"

definition typed_response :: "ResponseStatusCode \<Rightarrow> string \<Rightarrow> ResponseFileType \<Rightarrow> HttpResponse" where
  "typed_response code content t = file_response code content (no_file\<lparr>file_type := t\<rparr>)"

text \<open>Construction and assignment from a response that may change take its content away.\<close>

definition move_response :: "HttpResponse \<Rightarrow> HttpResponse \<times> HttpResponse" where
  "move_response r = (r, r\<lparr>m_content := None\<rparr>)"

definition copy_response :: "HttpResponse \<Rightarrow> cpp_error + HttpResponse" where
  "copy_response r = (if m_content r = None then Inl UB_null_pointer else Inr r)"

definition add_custom_header :: "HttpResponse \<Rightarrow> json \<Rightarrow> HttpResponse" where
  "add_custom_header r j = r\<lparr>m_custom_header := j\<rparr>"

definition HTTP_VERSION :: string where
  "HTTP_VERSION = ''HTTP/1.1''"

definition append_custom_header ::
  "(real \<Rightarrow> string) \<Rightarrow> string \<Rightarrow> string \<times> json \<Rightarrow> cpp_error + string" where
  "append_custom_header show_double response h =
     sum_bind (get_string_value show_double (snd h)) (\<lambda>t. Inr (response @ fst h @ '': '' @ t @ crlf))"

definition append_custom_headers :: "(real \<Rightarrow> string) \<Rightarrow> json \<Rightarrow> string \<Rightarrow> cpp_error + string" where
  "append_custom_headers show_double j response =
     (case j of
        Object a m xs \<Rightarrow> if a then Inr response else sum_fold (append_custom_header show_double) response m
      | _ \<Rightarrow> Inr response)"

definition cors_lines :: string where
  "cors_lines =
     ''Access-Control-Allow-Origin: *'' @ crlf @
     ''Access-Control-Allow-Headers: Origin, X-Api-Key, X-Requested-With, Content-Type, Accept, Authorization'' @ crlf @
     ''Access-Control-Allow-Credentials: true'' @ crlf @
     ''Access-Control-Allow-Methods: GET, POST, OPTIONS, PUT, PATCH, DELETE'' @ crlf"

definition content_type_line :: "HttpResponse \<Rightarrow> string" where
  "content_type_line r =
     (if m_is_json_format r then ''Content-Type: application/json'' @ crlf
      else case file_type (m_file_info r) of
             JS \<Rightarrow> ''Content-Type: application/javascript; charset=utf-8'' @ crlf
           | CSS \<Rightarrow> ''Content-Type: text/css; charset=utf-8'' @ crlf
           | WOFF2 \<Rightarrow> ''Content-Type: font/woff2'' @ crlf
           | NONE_TYPE \<Rightarrow> [])"

definition disposition_line :: "HttpResponse \<Rightarrow> string" where
  "disposition_line r =
     (if file_name (m_file_info r) \<noteq> []
      then ''Content-Disposition: attachment; filename='' @ quote_mark @ file_name (m_file_info r) @ quote_mark @ crlf
      else [])"

definition get_response_in_string :: "(real \<Rightarrow> string) \<Rightarrow> HttpResponse \<Rightarrow> cpp_error + string" where
  "get_response_in_string show_double r =
     (case response_status_code_map (m_response_code r) of
        None \<Rightarrow> Inl UB_out_of_bounds
      | Some reason \<Rightarrow>
          sum_bind (append_custom_headers show_double (m_custom_header r)
              (HTTP_VERSION @ '' '' @ size_to_string (status_number (m_response_code r)) @ '' '' @ reason @ crlf))
            (\<lambda>response.
               case m_content r of
                 None \<Rightarrow> Inl UB_null_pointer
               | Some content \<Rightarrow>
                   Inr (response @ cors_lines @ content_type_line r @ disposition_line r @
                     ''Content-Length: '' @ size_to_string (length content) @ crlf @ crlf @ content)))"

section \<open>Files\<close>

text \<open>What a path names: a regular file, whose content is missing if it cannot be opened, or something else.\<close>

datatype file_entry = Regular "string option" | Other_file

type_synonym file_system = "string \<Rightarrow> file_entry option"

definition NOT_FOUND_ERROR_MESSAGE :: string where
  "NOT_FOUND_ERROR_MESSAGE = ''The given document couldn'' @ [CHR 0x27] @ ''t be found''"

definition bad_request_default :: HttpResponse where
  "bad_request_default = typed_response NOT_FOUND_404 NOT_FOUND_ERROR_MESSAGE NONE_TYPE"

definition check_file_type :: "string \<Rightarrow> ResponseFileType" where
  "check_file_type name =
     (if name = [] then NONE_TYPE
      else if find_sub ''.js'' name \<noteq> None then JS
      else if find_sub ''.css'' name \<noteq> None then CSS
      else if find_sub ''.woff2'' name \<noteq> None then WOFF2
      else NONE_TYPE)"

definition check_is_file_path_exist :: "file_system \<Rightarrow> HttpRequest \<Rightarrow> string \<Rightarrow> bool" where
  "check_is_file_path_exist fs r file_path =
     (case fs (m_dir_path r @ ''/'' @ file_path) of Some (Regular _) \<Rightarrow> True | _ \<Rightarrow> False)"

definition send_file_with_info :: "file_system \<Rightarrow> HttpRequest \<Rightarrow> string \<Rightarrow> FileInfo \<Rightarrow> HttpResponse" where
  "send_file_with_info fs r url info =
     (if m_dir_path r = [] then typed_response NOT_FOUND_404 NOT_FOUND_ERROR_MESSAGE NONE_TYPE
      else case fs (m_dir_path r @ ''/'' @ url) of
             Some (Regular (Some content)) \<Rightarrow> file_response OK_200 content info
           | _ \<Rightarrow> bad_request_default)"

definition send_file_from_directory :: "file_system \<Rightarrow> HttpRequest \<Rightarrow> string \<Rightarrow> string \<Rightarrow> HttpResponse" where
  "send_file_from_directory fs r url name =
     send_file_with_info fs r url
       \<lparr>file_type = (if name \<noteq> [] then check_file_type name else check_file_type url), file_name = name\<rparr>"

definition send_file_of_type :: "file_system \<Rightarrow> HttpRequest \<Rightarrow> string \<Rightarrow> ResponseFileType \<Rightarrow> HttpResponse" where
  "send_file_of_type fs r url t = send_file_with_info fs r url (no_file\<lparr>file_type := t\<rparr>)"

definition error_json :: "string \<Rightarrow> ResponseStatusCode \<Rightarrow> json" where
  "error_json msg code =
     (let j = set_key No_value ''data'' (assign_value No_value (Cpp_string []));
          j = set_key j ''msg'' (assign_value No_value (Cpp_string msg));
          j = set_key j ''status_code'' (assign_value No_value (Cpp_integer (int (status_number code))))
      in set_key j ''error'' (assign_value No_value (Cpp_bool True)))"

definition response_bad_request_400 :: "(real \<Rightarrow> string) \<Rightarrow> string \<Rightarrow> HttpResponse" where
  "response_bad_request_400 show_double error = json_response show_double BAD_REQUEST_400 (error_json error BAD_REQUEST_400)"

definition response_unauthorized_request_401 :: "(real \<Rightarrow> string) \<Rightarrow> string \<Rightarrow> HttpResponse" where
  "response_unauthorized_request_401 show_double error =
     json_response show_double UNAUTHORIZED_REQUEST_401 (error_json error UNAUTHORIZED_REQUEST_401)"

definition response_internal_error_500 :: "(real \<Rightarrow> string) \<Rightarrow> HttpResponse" where
  "response_internal_error_500 show_double =
     json_response show_double INTERNAL_SERVER_ERROR_500 (error_json ''Internal Server Error'' INTERNAL_SERVER_ERROR_500)"

section \<open>Routes\<close>

text \<open>
  A handler returns a response, throws an \<^verbatim>\<open>ApiException\<close>, or throws something else derived from
  \<^verbatim>\<open>std::exception\<close>, as a route without a handler does.
\<close>

datatype outcome = Responds HttpResponse | Api_exception string | Std_exception

type_synonym 's handler = "HttpRequest \<Rightarrow> 's \<Rightarrow> outcome \<times> 's"

record 's Route =
  m_method :: RequestMethod
  m_handle_function :: "'s handler option"

type_synonym 's route_map = "(string \<times> (RequestMethod \<times> 's Route) list) list"

record 's RouteController =
  route_group_map :: "'s route_map"
  route_map :: "'s route_map"
  m_dashboard_folder :: string
  s_bad_request_getter :: "HttpRequest \<Rightarrow> HttpResponse"

definition new_controller :: "'s RouteController" where
  "new_controller = \<lparr>route_group_map = [], route_map = [], m_dashboard_folder = [], s_bad_request_getter = (\<lambda>_. bad_request_default)\<rparr>"

definition put_route :: "RequestMethod \<Rightarrow> string \<Rightarrow> 's Route \<Rightarrow> 's route_map \<Rightarrow> 's route_map" where
  "put_route meth path route m =
     AList.update path (AList.update meth route (case map_of m path of Some route_set \<Rightarrow> route_set | None \<Rightarrow> [])) m"

text \<open>\<^verbatim>\<open>add_route\<close> and the operator \<^verbatim>\<open>+\<close> that sets the handler of the new route.\<close>

definition add_route_group :: "'s RouteController \<Rightarrow> RequestMethod \<Rightarrow> string \<Rightarrow> 's handler \<Rightarrow> 's RouteController" where
  "add_route_group c meth path f =
     c\<lparr>route_group_map := put_route meth path \<lparr>m_method = meth, m_handle_function = Some f\<rparr> (route_group_map c)\<rparr>"

definition add_route :: "'s RouteController \<Rightarrow> RequestMethod \<Rightarrow> string \<Rightarrow> 's handler \<Rightarrow> 's RouteController" where
  "add_route c meth path f =
     c\<lparr>route_map := put_route meth path \<lparr>m_method = meth, m_handle_function = Some f\<rparr> (route_map c)\<rparr>"

definition add_dashboard_folder :: "'s RouteController \<Rightarrow> string \<Rightarrow> 's RouteController" where
  "add_dashboard_folder c folder = c\<lparr>m_dashboard_folder := folder\<rparr>"

definition add_custom_bad_request_getter :: "'s RouteController \<Rightarrow> (HttpRequest \<Rightarrow> HttpResponse) \<Rightarrow> 's RouteController" where
  "add_custom_bad_request_getter c f = c\<lparr>s_bad_request_getter := f\<rparr>"

definition run_route :: "'s Route \<Rightarrow> 's handler" where
  "run_route route r s = (case m_handle_function route of Some f \<Rightarrow> f r s | None \<Rightarrow> (Std_exception, s))"

definition no_match :: "(real \<Rightarrow> string) \<Rightarrow> outcome" where
  "no_match show_double = Responds (json_response show_double NOT_FOUND_404 No_value)"

fun check_groups :: "(real \<Rightarrow> string) \<Rightarrow> 's route_map \<Rightarrow> 's handler" where
  "check_groups show_double [] r s = (no_match show_double, s)"
| "check_groups show_double ((path, route_set) # m) r s =
     (if find_sub path (m_url r) \<noteq> None
      then case map_of route_set (request_method r) of
             Some route \<Rightarrow> run_route route r s
           | None \<Rightarrow> check_groups show_double m r s
      else check_groups show_double m r s)"

definition check_handle_by_route_group :: "(real \<Rightarrow> string) \<Rightarrow> 's RouteController \<Rightarrow> 's handler" where
  "check_handle_by_route_group show_double c = check_groups show_double (route_group_map c)"

definition check_handle_by_route :: "(real \<Rightarrow> string) \<Rightarrow> 's RouteController \<Rightarrow> 's handler" where
  "check_handle_by_route show_double c r s =
     (case map_of (route_map c) (m_url r) of
        Some route_set \<Rightarrow>
          (case map_of route_set (request_method r) of
             Some route \<Rightarrow> run_route route r s
           | None \<Rightarrow> (no_match show_double, s))
      | None \<Rightarrow> (no_match show_double, s))"

definition check_send_file_from_dashboard_folder ::
  "(real \<Rightarrow> string) \<Rightarrow> file_system \<Rightarrow> 's RouteController \<Rightarrow> HttpRequest \<Rightarrow> HttpResponse" where
  "check_send_file_from_dashboard_folder show_double fs c r =
     (if m_dashboard_folder c \<noteq> [] \<and> check_is_file_path_exist fs r (m_dashboard_folder c @ m_url r)
      then send_file_from_directory fs r (m_dashboard_folder c @ m_url r) []
      else json_response show_double NOT_FOUND_404 No_value)"

fun routed :: "(real \<Rightarrow> string) \<Rightarrow> 's RouteController \<Rightarrow> 's handler" where
  "routed show_double c r s =
     (case check_handle_by_route_group show_double c r s of
        (Responds response, s') \<Rightarrow>
          if m_response_code response = NOT_FOUND_404 then check_handle_by_route show_double c r s'
          else (Responds response, s')
      | (e, s') \<Rightarrow> (e, s'))"

declare routed.simps [simp del]

definition handle_request_base_on_route ::
  "(real \<Rightarrow> string) \<Rightarrow> file_system \<Rightarrow> 's RouteController \<Rightarrow> HttpRequest \<Rightarrow> 's \<Rightarrow> HttpResponse \<times> 's" where
  "handle_request_base_on_route show_double fs c r s =
     (case routed show_double c r s of
        (Api_exception msg, s') \<Rightarrow> (response_bad_request_400 show_double msg, s')
      | (Std_exception, s') \<Rightarrow> (response_internal_error_500 show_double, s')
      | (Responds response, s') \<Rightarrow>
          let response = (if m_response_code response = NOT_FOUND_404
                          then check_send_file_from_dashboard_folder show_double fs c r else response);
              response = (if m_response_code response = NOT_FOUND_404 then s_bad_request_getter c r else response)
          in (response, s'))"

section \<open>Connections\<close>

record HttpSocketConnection =
  client_ip :: string
  save_buffer :: string

definition connection_refresh :: "HttpSocketConnection \<Rightarrow> HttpSocketConnection" where
  "connection_refresh c = \<lparr>client_ip = [], save_buffer = []\<rparr>"






text \<open>
  The tasks. \<open>write\<close> gives the result of \<^verbatim>\<open>::write\<close> for a number of bytes: the bytes that reach the
  peer are a prefix of the text, and an error removes the connection. A request that is null makes
  \<^verbatim>\<open>response_not_found_404\<close> answer with the default.
\<close>

record sent =
  wire :: string
  removed :: bool

definition write_to_socket_io :: "(nat \<Rightarrow> int) \<Rightarrow> string \<Rightarrow> sent" where
  "write_to_socket_io write t =
     (let res = write (length t) in \<lparr>wire = take (nat res) t, removed = (res = -1)\<rparr>)"

definition send_404_response ::
  "(real \<Rightarrow> string) \<Rightarrow> (nat \<Rightarrow> int) \<Rightarrow> HttpSocketConnection \<Rightarrow> cpp_error + sent \<times> HttpSocketConnection" where
  "send_404_response show_double write c =
     sum_bind (get_response_in_string show_double bad_request_default) (\<lambda>t.
       Inr (write_to_socket_io write t, c\<lparr>save_buffer := []\<rparr>))"


section \<open>The client reads what the server writes\<close>















section \<open>The text of a response\<close>






definition field_lines :: "(string \<times> string) list \<Rightarrow> string" where
  "field_lines hs = concat (map (\<lambda>h. header_line h @ crlf) hs)"

lemma field_lines_simps [simp]:
  "field_lines [] = []" "field_lines (h # hs) = header_line h @ crlf @ field_lines hs"
  "field_lines (hs @ hs') = field_lines hs @ field_lines hs'"
  by (simp_all add: field_lines_def)








section \<open>Responses arrive\<close>

lemma no_break_simps [simp]:
  "no_break []" "no_break (c # s) \<longleftrightarrow> c \<noteq> CHR 0x0D \<and> c \<noteq> CHR 0x0A \<and> no_break s" "no_break (s @ t) \<longleftrightarrow> no_break s \<and> no_break t"
  by (auto simp: no_break_def)













section \<open>Every request is answered\<close>





















definition demo_handler :: "nat handler" where
  "demo_handler r s = (Responds (typed_response OK_200 ''hi'' NONE_TYPE), s + 1)"

definition demo_controller :: "nat RouteController" where
  "demo_controller = add_route (add_dashboard_folder new_controller ''ui'') GET ''/hello'' demo_handler"

definition demo_show_double :: "real \<Rightarrow> string" where
  "demo_show_double x = ''0''"



section \<open>The engine's client and the engine's server\<close>





















section \<open>Requests that break the server\<close>











text \<open>
  The path of a file is put together from the URL as it is, so that a URL with \<^verbatim>\<open>..\<close> names files outside the
  dashboard folder; and a write that takes only a part of a response leaves the rest unsent, with the
  connection open.
\<close>

lemma dashboard_serves_any_path:
  assumes "m_dashboard_folder c \<noteq> []" "m_dir_path r \<noteq> []"
    and "routed show_double c r s = (Responds resp, s')" "m_response_code resp = NOT_FOUND_404"
    and "fs (m_dir_path r @ ''/'' @ m_dashboard_folder c @ m_url r) = Some (Regular (Some content))"
  shows "handle_request_base_on_route show_double fs c r s =
    (file_response OK_200 content \<lparr>file_type = check_file_type (m_dashboard_folder c @ m_url r), file_name = []\<rparr>, s')"
  using assms
  by (simp add: handle_request_base_on_route_def check_send_file_from_dashboard_folder_def check_is_file_path_exist_def
      send_file_from_directory_def send_file_with_info_def file_response_def Let_def)

lemma private_key_is_served:
  fixes key :: string
  defines "fs \<equiv> \<lambda>p. if p = ''web_data/ui/../../server-private-key.pem'' then Some (Regular (Some key)) else None"
  shows "fst (handle_request_base_on_route demo_show_double fs demo_controller
      ((blank_request GET ''web_data'')\<lparr>m_url := ''/../../server-private-key.pem''\<rparr>) 0)
    = file_response OK_200 key \<lparr>file_type = NONE_TYPE, file_name = []\<rparr>"
proof -
  let ?r = "(blank_request GET ''web_data'')\<lparr>m_url := ''/../../server-private-key.pem''\<rparr>"
  have "routed demo_show_double demo_controller ?r 0 = (no_match demo_show_double, 0)"
    by (simp add: routed.simps check_handle_by_route_group_def check_handle_by_route_def no_match_def json_response_def
        file_response_def demo_controller_def add_route_def add_dashboard_folder_def new_controller_def put_route_def blank_request_def)
  then show ?thesis
    using dashboard_serves_any_path [of demo_controller ?r demo_show_double 0 _ 0 fs key]
    by (simp add: no_match_def json_response_def file_response_def demo_controller_def add_route_def add_dashboard_folder_def
        new_controller_def put_route_def blank_request_def fs_def check_file_type_def)
qed

lemma short_write_cuts_response:
  "write (length t) = int k \<Longrightarrow> write_to_socket_io write t = \<lparr>wire = take k t, removed = False\<rparr>"
  by (simp add: write_to_socket_io_def)

end
