(* ===== verification/Spec2Isabelle.thy ===== *)
theory Spec2Isabelle
  imports Order_Book_Manager Latency_Stats WebSocket_Session HTTP_Requests Share_String MPSC_Queue
    Profit_Loss Volume_Stat Order_Manager Json_Round_Trip Shared_Cache_Pool
    Binance_Order_Book Mean_Reversion_Strategy HTTP_Server
begin

text \<open>
  \<^bold>\<open>A verification library for the trading engine under \<^verbatim>\<open>src/\<close>.\<close>

  The engine receives market data from exchanges over WebSocket connections, keeps an order book
  per instrument, lets strategies place orders through HTTP requests, follows the orders through
  the exchange's reports and accounts for positions, profit and traded volume. Its lower layer
  (\<^verbatim>\<open>src/core\<close>) holds object pools, counted strings, queues between event loops, latency
  histograms and the network parsers; the upper layer (\<^verbatim>\<open>src/server_app\<close>) holds the books, the
  orders and the accounts. The library has one theory per component, and a component imports the
  components it calls.

  \<^bold>\<open>Theories and the code they model\<close>

  \<^item> \<open>Prelude\<close>: integer widths, rounding, the bit scans of \<^verbatim>\<open><bit>\<close>, searches in association lists,
    the errors of the model (\<open>cpp_error\<close>: the thrown exceptions with their messages, and the accesses
    that are undefined in C++), lemma collections.
  \<^item> \<open>Order_Book_Side\<close> (\<^verbatim>\<open>server_app/order_book/order_book_side.h\<close>): the array of levels with its
    bitmap of occupied levels, \<^verbatim>\<open>set_level\<close>, \<^verbatim>\<open>get_quantity\<close>, \<^verbatim>\<open>find_top_index\<close>,
    \<^verbatim>\<open>move_to_new_base_price\<close>. Shown: prices and indices convert back and forth, the bitmap scan
    finds the best level, a write is read back and changes nothing else, a move of the base price
    keeps the levels that stay in range.
  \<^item> \<open>Order_Book_Snapshot\<close>, \<open>Order_Book\<close> (\<^verbatim>\<open>order_book_snapshot.h\<close>, \<^verbatim>\<open>order_book.h\<close>): a bid and an
    ask side, automatic rebasing, updates level by level and by snapshot, the published snapshot.
    Shown: the book is an implementation of two finite maps from prices to quantities, its best
    prices and its snapshots are those of the maps, updates do not throw, and a configured depth
    over 200 writes past the snapshot's arrays.
  \<^item> \<open>Order_Book_Manager\<close> (\<^verbatim>\<open>order_book_manager.cpp\<close>): the books by instrument and the updates
    that reach them through a task queue.
  \<^item> \<open>Latency_Stats\<close> (\<^verbatim>\<open>core/metric/latency_stat.h\<close>): buckets, percentiles, and recordings by
    several threads as interleaved atomic steps.
  \<^item> \<open>WebSocket_Frame\<close>, \<open>WebSocket_Session\<close> (\<^verbatim>\<open>core/network/https_client_websocket\<close>): the frame
    builder and parser, the session's handshake, control frames, reads and disconnects. Shown: what
    is received does not depend on how the bytes arrive in pieces, built frames are parsed back, and
    which inputs of a peer stop the parser or the process.
  \<^item> \<open>Cpp_Strings\<close>, \<open>HTTP_Client\<close>, \<open>HTTP_Requests\<close> (\<^verbatim>\<open>core/network/https_client_request\<close>): the
    response parser with its chunk parser, the request writer, and the queue that gives every
    response to the request that waits for it.
  \<^item> \<open>Object_Pools\<close>, \<open>Cache_Pool\<close>, \<open>Share_String\<close> (\<^verbatim>\<open>core/cache\<close>): the pools of one thread and of
    several threads, and the counted strings that live in them. Shown: no object is handed out
    twice, ids are active until release, reference counts are exact; and two interleavings and one
    off-by-one where the code is unsafe.
  \<^item> \<open>MPSC_Queue\<close> (\<^verbatim>\<open>core/queue/mpsc_queue.h\<close>): the bounded queue of many producers and one consumer,
    every atomic operation a step of its own. Shown: the items leave in the order in which their
    positions were claimed, none lost, none twice.
  \<^item> \<open>Profit_Loss\<close> (\<^verbatim>\<open>server_app/pnl\<close>), \<open>Volume_Stat\<close> (\<^verbatim>\<open>server_app/volume_stat\<close>): position, average
    price, realised and unrealised profit; traded volume per price in a sliding window.
  \<^item> \<open>Order_Manager\<close> (\<^verbatim>\<open>server_app/order\<close>): orders, the manager's two event loops, the simulator
    that fills orders from the book. Shown: an order's filled quantity and state are those of the
    reports it received, in their order; what is removed; what the simulator fills.

  \<^bold>\<open>Interfaces.\<close> What a client relies on is stated as a locale and interpreted on the model's own
  definitions in the theory that provides them: \<open>ladder\<close> for the levels of a side, interpreted for
  bids and for asks, and \<open>free_ring\<close> for the free objects of a pool, interpreted for the pools.

  \<^bold>\<open>Choices of the model\<close>

  \<^item> \<^verbatim>\<open>double\<close> is \<open>real\<close>: prices and quantities are exact numbers, rounding is \<^verbatim>\<open>std::llround\<close> of the
    exact quotient. Statements about them do not speak of floating point error.
  \<^item> Integers are words of the source's width where they can wrap (sizes read from the network, shifts
    of bitmaps, positions of the queue, bucket indices), and \<open>nat\<close> or \<open>int\<close> where the code bounds them.
  \<^item> Exceptions and undefined accesses are values of \<open>cpp_error\<close> in a sum type.
  \<^item> Threads are interleavings of atomic operations in a sequentially consistent memory: each atomic
    load, store or exchange is one step of an inductive relation, or one step of a program counter.
  \<^item> Code run on an event loop is a step that runs to its end; tasks of one loop run in the order of its
    queue, tasks of two loops interleave freely.
  \<^item> \<^verbatim>\<open>std::unordered_map\<close> is an association list where the order of a traversal is visible, and a map
    otherwise.
  \<^item> Every loop is a total function with a proved measure. There is no fuel.

  \<^bold>\<open>Not modelled.\<close> System calls, sockets, epoll, TLS and the database driver; vendored code (JWT, the
  Excel library, boost wrappers); logging and core dump diagnostics; the HTTP API handlers, which
  turn objects into JSON and back; clocks. To be added: the JSON parser and printer, the shared
  cache pool, helpers such as base64, the server's request parser and routes, the synchronisation of
  the Binance book, the decisions of the strategies.
\<close>

end
